(* ===== verification/ME_Prelude.thy ===== *)
theory ME_Prelude
  imports Main "HOL-Library.Word" "HOL-Library.AList" "HOL-Library.Monad_Syntax"
begin

text \<open>
  Shared vocabulary of the development: the standard containers of the C++ sources and the
  generic facts on lists, options and machine words that the component theories use.

  \<^item> \<open>std::map\<close> is an association list kept in the order of its comparator. \<open>omap_at\<close> is
    \<open>f(m[k])\<close> (find or insert a default, then mutate), \<open>omap_put\<close> an assignment through the
    iterator that \<open>find\<close> returned, \<open>omap_erase\<close> the erasure of such an iterator; \<open>find\<close> is
    \<open>map_of\<close>. The comparator is a parameter, since the bids use \<open>std::greater\<close> and the asks
    \<open>std::less\<close>; the laws are proved once in the locale \<open>map_order\<close>.
  \<^item> \<open>std::unordered_map\<close> is an association list whose order stands for the unspecified
    iteration order of the container: \<open>find\<close> is \<open>map_of\<close>, \<open>m[k] = v\<close> is \<open>AList.update\<close>,
    \<open>erase\<close> is \<open>AList.delete\<close> and \<open>size\<close> is \<open>length\<close>.
  \<^item> An operation whose C++ text would have undefined behaviour in some state (a dangling
    iterator or pointer, an index out of range) returns an \<open>option\<close>, with \<open>None\<close> for that
    case; the component theories prove that \<open>None\<close> is not reached.
\<close>

named_theorems book_simps \<open>equations of the order-book operations and observers\<close>
named_theorems codec_simps \<open>equations of the byte-level readers and writers\<close>

type_synonym u8 = "8 word"
type_synonym u32 = "32 word"
type_synonym u64 = "64 word"
type_synonym ('k, 'v) unordered_map = "('k \<times> 'v) list"
type_synonym ('k, 'v) ordered_map = "('k \<times> 'v) list"

section \<open>Ordered maps\<close>

fun omap_at :: "('k \<Rightarrow> 'k \<Rightarrow> bool) \<Rightarrow> 'k \<Rightarrow> 'v \<Rightarrow> ('v \<Rightarrow> 'v) \<Rightarrow> ('k, 'v) ordered_map \<Rightarrow> ('k, 'v) ordered_map" where
  "omap_at lt k d f [] = [(k, f d)]"
| "omap_at lt k d f ((k', v) # m) =
     (if lt k k' then (k, f d) # (k', v) # m
      else if lt k' k then (k', v) # omap_at lt k d f m
      else (k', f v) # m)"

definition omap_put :: "'k \<Rightarrow> 'v \<Rightarrow> ('k, 'v) ordered_map \<Rightarrow> ('k, 'v) ordered_map" where
  "omap_put k v m = map (\<lambda>e. if fst e = k then (k, v) else e) m"

definition omap_erase :: "'k \<Rightarrow> ('k, 'v) ordered_map \<Rightarrow> ('k, 'v) ordered_map" where
  "omap_erase k m = filter (\<lambda>e. fst e \<noteq> k) m"

text \<open>
  The interface of a container ordered by a strict comparator, as \<open>std::map\<close> requires it of
  its template argument, and the laws of the operations above under it.
\<close>

locale map_order =
  fixes lt :: "'k \<Rightarrow> 'k \<Rightarrow> bool"
  assumes lt_irrefl: "\<not> lt a a"
    and lt_trans: "lt a b \<Longrightarrow> lt b c \<Longrightarrow> lt a c"
    and lt_total: "a \<noteq> b \<Longrightarrow> lt a b \<or> lt b a"
begin

lemma lt_asym: "lt a b \<Longrightarrow> \<not> lt b a"
  using lt_irrefl lt_trans by blast

lemma sorted_distinct: "sorted_wrt lt ks \<Longrightarrow> distinct ks"
  by (induction ks) (auto simp: lt_irrefl)

lemma split_present:
  assumes "sorted_wrt lt (map fst m)" "map_of m k = Some v"
  obtains pre post where "m = pre @ (k, v) # post"
    "\<forall>e \<in> set pre. lt (fst e) k" "\<forall>e \<in> set post. lt k (fst e)"
proof -
  from assms(2) have "(k, v) \<in> set m" by (rule map_of_SomeD)
  then obtain pre post where m: "m = pre @ (k, v) # post" by (meson split_list)
  from assms(1) m have "\<forall>e \<in> set pre. lt (fst e) k" "\<forall>e \<in> set post. lt k (fst e)"
    by (auto simp: sorted_wrt_append)
  with m show thesis by (rule that)
qed

lemma split_absent:
  assumes "sorted_wrt lt (map fst m)" "map_of m k = None"
  obtains pre post where "m = pre @ post"
    "\<forall>e \<in> set pre. lt (fst e) k" "\<forall>e \<in> set post. lt k (fst e)"
proof
  let ?P = "\<lambda>e. lt (fst e) k"
  show "m = takeWhile ?P m @ dropWhile ?P m" by simp
  show "\<forall>e \<in> set (takeWhile ?P m). ?P e" by (auto dest: set_takeWhileD)
  have "sorted_wrt lt (map fst ms) \<Longrightarrow> k \<notin> fst ` set ms \<Longrightarrow>
      \<forall>e \<in> set (dropWhile ?P ms). lt k (fst e)" for ms
  proof (induction ms)
    case (Cons e ms)
    then show ?case
      using lt_total [of "fst e" k] by (auto intro: lt_trans)
  qed simp
  with assms show "\<forall>e \<in> set (dropWhile ?P m). lt k (fst e)"
    by (simp add: map_of_eq_None_iff)
qed

lemma omap_at_split:
  assumes "\<forall>e \<in> set pre. lt (fst e) k" "\<forall>e \<in> set post. lt k (fst e)"
  shows "omap_at lt k d f (pre @ post) = pre @ (k, f d) # post"
    and "omap_at lt k d f (pre @ (k, v) # post) = pre @ (k, f v) # post"
proof -
  have nil: "omap_at lt k d f post = (k, f d) # post"
    using assms(2) by (cases post) auto
  have "omap_at lt k d f (pre @ zs) = pre @ omap_at lt k d f zs" for zs
    using assms(1) by (induction pre) (auto simp: lt_asym)
  then show "omap_at lt k d f (pre @ post) = pre @ (k, f d) # post"
    and "omap_at lt k d f (pre @ (k, v) # post) = pre @ (k, f v) # post"
    by (auto simp: nil lt_irrefl)
qed

lemma other_keys:
  assumes "\<forall>e \<in> set pre. lt (fst e) k" "\<forall>e \<in> set post. lt k (fst e)"
  shows "\<forall>e \<in> set pre. fst e \<noteq> k" "\<forall>e \<in> set post. fst e \<noteq> k"
  using assms lt_irrefl by metis+

lemma omap_put_split:
  assumes "\<forall>e \<in> set pre. lt (fst e) k" "\<forall>e \<in> set post. lt k (fst e)"
  shows "omap_put k v' (pre @ (k, v) # post) = pre @ (k, v') # post"
  using other_keys [OF assms] by (simp add: omap_put_def map_idI)

lemma omap_erase_split:
  assumes "\<forall>e \<in> set pre. lt (fst e) k" "\<forall>e \<in> set post. lt k (fst e)"
  shows "omap_erase k (pre @ (k, v) # post) = pre @ post"
  using other_keys [OF assms] by (simp add: omap_erase_def)

lemma sorted_split:
  assumes "\<forall>e \<in> set pre. lt (fst e) k" "\<forall>e \<in> set post. lt k (fst e)"
  shows "sorted_wrt lt (map fst (pre @ (k, v) # post)) \<longleftrightarrow> sorted_wrt lt (map fst (pre @ post))"
  using assms by (auto simp: sorted_wrt_append intro: lt_trans)

lemma map_of_split:
  assumes "\<forall>e \<in> set pre. lt (fst e) k" "\<forall>e \<in> set post. lt k (fst e)"
  shows "map_of (pre @ (k, v) # post) = (map_of (pre @ post))(k \<mapsto> v)"
proof -
  have "k \<notin> fst ` set pre" using assms(1) lt_irrefl by blast
  then have "map_of pre k = None" by (simp add: map_of_eq_None_iff)
  then show ?thesis by (auto simp: fun_eq_iff map_add_def split: option.splits)
qed

text \<open>The laws a client of the container relies on.\<close>

lemma sorted_omap_at:
  assumes "sorted_wrt lt (map fst m)"
  shows "sorted_wrt lt (map fst (omap_at lt k d f m))"
proof (cases "map_of m k")
  case None
  with assms obtain pre post where "m = pre @ post"
    "\<forall>e \<in> set pre. lt (fst e) k" "\<forall>e \<in> set post. lt k (fst e)" by (rule split_absent)
  with assms show ?thesis using omap_at_split(1) sorted_split by metis
next
  case (Some v)
  with assms obtain pre post where "m = pre @ (k, v) # post"
    "\<forall>e \<in> set pre. lt (fst e) k" "\<forall>e \<in> set post. lt k (fst e)" by (rule split_present)
  with assms show ?thesis using omap_at_split(2) sorted_split by metis
qed

lemma find_omap_at:
  assumes "sorted_wrt lt (map fst m)"
  shows "map_of (omap_at lt k d f m) =
    (map_of m)(k \<mapsto> f (case map_of m k of None \<Rightarrow> d | Some v \<Rightarrow> v))"
proof (cases "map_of m k")
  case None
  with assms obtain pre post where "m = pre @ post"
    "\<forall>e \<in> set pre. lt (fst e) k" "\<forall>e \<in> set post. lt k (fst e)" by (rule split_absent)
  with None show ?thesis by (simp add: omap_at_split map_of_split del: map_of_append)
next
  case (Some v)
  with assms obtain pre post where "m = pre @ (k, v) # post"
    "\<forall>e \<in> set pre. lt (fst e) k" "\<forall>e \<in> set post. lt k (fst e)" by (rule split_present)
  with Some show ?thesis by (simp add: omap_at_split map_of_split del: map_of_append)
qed

end

text \<open>The two comparators of the sources, \<open>std::less\<close> and \<open>std::greater\<close>.\<close>

interpretation std_less: map_order "(<) :: 'k::linorder \<Rightarrow> 'k \<Rightarrow> bool"
  by unfold_locales auto

interpretation std_greater: map_order "(>) :: 'k::linorder \<Rightarrow> 'k \<Rightarrow> bool"
  by unfold_locales auto

section \<open>Unordered maps\<close>

lemmas umap_simps = AList.update_conv' AList.delete_conv'

lemma umap_size:
  assumes "distinct (map fst m)" "map_of m = map_of es" "distinct (map fst es)"
  shows "length m = length es"
proof -
  have "fst ` set m = fst ` set es" using assms(2) by (metis dom_map_of_conv_image_fst)
  then have "card (set (map fst m)) = card (set (map fst es))" by simp
  then show ?thesis using assms(1,3) by (metis distinct_card length_map)
qed

section \<open>Machine words\<close>

lemma unat_sum_list_le: "unat (sum_list ws) \<le> sum_list (map unat ws)"
  for ws :: "'a::len word list"
proof (induction ws)
  case (Cons w ws)
  have "unat (w + sum_list ws) \<le> unat w + unat (sum_list ws)"
    by (metis mod_less_eq_dividend unat_word_ariths(1))
  with Cons show ?case by simp
qed simp

lemma unat_sum_list:
  fixes ws :: "'a::len word list"
  assumes "sum_list (map unat ws) < 2 ^ LENGTH('a)"
  shows "unat (sum_list ws) = sum_list (map unat ws)"
  using assms
proof (induction ws)
  case (Cons w ws)
  then show ?case by (simp add: unat_word_ariths)
qed simp

section \<open>Lists\<close>

lemma ball_subset: "A \<subseteq> B \<Longrightarrow> \<forall>x \<in> B. P x \<Longrightarrow> \<forall>x \<in> A. P x"
  by blast

lemma filter_fresh: "k \<notin> f ` set xs \<Longrightarrow> filter (\<lambda>x. f x \<noteq> k) xs = xs"
  by (induction xs) auto

lemma map_eq_map:
  assumes "map g xs = map g ys" "\<And>x y. g x = g y \<Longrightarrow> f x = f y"
  shows "map f xs = map f ys"
  using assms(1)
proof (induction xs arbitrary: ys)
  case (Cons x xs)
  then obtain y ys' where ys: "ys = y # ys'" and y: "g x = g y" and rest: "map g xs = map g ys'"
    by auto
  from Cons.IH [OF rest] assms(2) [OF y] show ?case by (simp add: ys)
qed simp

lemma map_if_fresh: "k \<notin> f ` set xs \<Longrightarrow> map (\<lambda>x. if f x = k then g x else x) xs = xs"
  by (induction xs) auto

end
