(* ===== verification/Object_Pool.thy ===== *)
theory Object_Pool
  imports ME_Prelude
begin

text \<open>
  \<open>ObjectPool<T>\<close> (\<open>include/matching_engine/object_pool.hpp\<close>): a vector of slots, each a union
  of an object and a free-list link, the head of the free list and the count of live objects.
  A pointer is the index of its slot; \<open>nullptr\<close> is \<open>None\<close>. Reading the member of a union that
  is not active, and following a pointer to a dead slot, are undefined in C++: the operations
  return \<open>None\<close> there.

  The interface the fast book relies on is the locale \<open>object_store\<close>: the live objects form a
  finite partial map from slots to objects on which acquiring, releasing and writing act as on
  a heap. The pool interprets it.
\<close>

section \<open>The pool\<close>

datatype 'a slot = Storage 'a | NextFree "nat option"

record 'a object_pool =
  pl_slots :: "'a slot list"
  pl_free_head :: "nat option"
  pl_in_use :: nat

definition size_dec :: "nat \<Rightarrow> nat" where
  "size_dec n = (if n = 0 then 2 ^ 64 - 1 else n - 1)"

definition ObjectPool_new :: "nat \<Rightarrow> 'a object_pool" where
  "ObjectPool_new capacity =
     \<lparr>pl_slots = map (\<lambda>i. NextFree (if i + 1 < capacity then Some (i + 1) else None)) [0 ..< capacity],
      pl_free_head = (if capacity > 0 then Some 0 else None), pl_in_use = 0\<rparr>"

text \<open>The outer option is undefined behaviour, the inner one the null pointer.\<close>

definition pool_Acquire :: "'a \<Rightarrow> 'a object_pool \<Rightarrow> (nat option \<times> 'a object_pool) option" where
  "pool_Acquire obj p =
     (case pl_free_head p of
        None \<Rightarrow> Some (None, p)
      | Some i \<Rightarrow>
          if i < length (pl_slots p) then
            (case pl_slots p ! i of
               Storage _ \<Rightarrow> None
             | NextFree next_free \<Rightarrow>
                 Some (Some i, p\<lparr>pl_slots := (pl_slots p)[i := Storage obj], pl_free_head := next_free,
                                 pl_in_use := pl_in_use p + 1\<rparr>))
          else None)"

definition pool_read :: "nat \<Rightarrow> 'a object_pool \<Rightarrow> 'a option" where
  "pool_read i p =
     (if i < length (pl_slots p) then
        (case pl_slots p ! i of Storage obj \<Rightarrow> Some obj | NextFree _ \<Rightarrow> None)
      else None)"

definition pool_write :: "nat \<Rightarrow> 'a \<Rightarrow> 'a object_pool \<Rightarrow> 'a object_pool option" where
  "pool_write i obj p =
     (case pool_read i p of
        None \<Rightarrow> None
      | Some _ \<Rightarrow> Some (p\<lparr>pl_slots := (pl_slots p)[i := Storage obj]\<rparr>))"

definition pool_Release :: "nat \<Rightarrow> 'a object_pool \<Rightarrow> 'a object_pool option" where
  "pool_Release i p =
     (case pool_read i p of
        None \<Rightarrow> None
      | Some _ \<Rightarrow>
          Some (p\<lparr>pl_slots := (pl_slots p)[i := NextFree (pl_free_head p)], pl_free_head := Some i,
                  pl_in_use := size_dec (pl_in_use p)\<rparr>))"

definition pool_capacity :: "'a object_pool \<Rightarrow> nat" where
  "pool_capacity p = length (pl_slots p)"

definition pool_in_use :: "'a object_pool \<Rightarrow> nat" where
  "pool_in_use p = pl_in_use p"

definition pool_available :: "'a object_pool \<Rightarrow> nat" where
  "pool_available p = pool_capacity p - pool_in_use p"

section \<open>The interface of a store of objects\<close>

text \<open>\<open>heap p\<close> is the partial map of the live objects.\<close>

locale object_store =
  fixes heap :: "'p \<Rightarrow> nat \<Rightarrow> 'a option"
    and inv :: "'p \<Rightarrow> bool"
    and capacity :: "'p \<Rightarrow> nat"
    and acquire :: "'a \<Rightarrow> 'p \<Rightarrow> (nat option \<times> 'p) option"
    and release :: "nat \<Rightarrow> 'p \<Rightarrow> 'p option"
    and store :: "nat \<Rightarrow> 'a \<Rightarrow> 'p \<Rightarrow> 'p option"
  assumes heap_finite: "inv p \<Longrightarrow> finite (dom (heap p)) \<and> card (dom (heap p)) \<le> capacity p"
    and acquire_free: "inv p \<Longrightarrow> card (dom (heap p)) < capacity p \<Longrightarrow>
      \<exists>i p'. acquire x p = Some (Some i, p') \<and> heap p i = None \<and> heap p' = (heap p)(i \<mapsto> x) \<and>
        inv p' \<and> capacity p' = capacity p"
    and acquire_full: "inv p \<Longrightarrow> card (dom (heap p)) = capacity p \<Longrightarrow> acquire x p = Some (None, p)"
    and release_live: "inv p \<Longrightarrow> heap p i = Some y \<Longrightarrow>
      \<exists>p'. release i p = Some p' \<and> heap p' = (heap p)(i := None) \<and> inv p' \<and> capacity p' = capacity p"
    and release_dead: "heap p i = None \<Longrightarrow> release i p = None"
    and store_live: "inv p \<Longrightarrow> heap p i = Some y \<Longrightarrow>
      \<exists>p'. store i x p = Some p' \<and> heap p' = (heap p)(i \<mapsto> x) \<and> inv p' \<and> capacity p' = capacity p"
begin

text \<open>Objects acquired one after another sit in distinct slots and keep their values.\<close>

fun acquire_all :: "'a list \<Rightarrow> 'p \<Rightarrow> (nat list \<times> 'p) option" where
  "acquire_all [] p = Some ([], p)"
| "acquire_all (x # xs) p =
     (case acquire x p of
        Some (Some i, p1) \<Rightarrow> (case acquire_all xs p1 of None \<Rightarrow> None | Some (ks, p2) \<Rightarrow> Some (i # ks, p2))
      | _ \<Rightarrow> None)"

lemma acquire_all_distinct:
  assumes "inv p" "card (dom (heap p)) + length xs \<le> capacity p"
  shows "\<exists>ks p'. acquire_all xs p = Some (ks, p') \<and> distinct ks \<and> length ks = length xs \<and>
    set ks \<inter> dom (heap p) = {} \<and> heap p' = (heap p)(ks [\<mapsto>] xs) \<and> inv p' \<and> capacity p' = capacity p"
  using assms
proof (induction xs arbitrary: p)
  case (Cons x xs)
  from Cons.prems have "card (dom (heap p)) < capacity p" by simp
  from acquire_free [OF Cons.prems(1) this, of x] obtain i p1 where
    p1: "acquire x p = Some (Some i, p1)" "heap p i = None" "heap p1 = (heap p)(i \<mapsto> x)" "inv p1"
      "capacity p1 = capacity p" by blast
  have fin: "finite (dom (heap p))" using heap_finite [OF Cons.prems(1)] by blast
  have dom1: "dom (heap p1) = insert i (dom (heap p))" by (simp add: p1(3))
  have "card (dom (heap p1)) = Suc (card (dom (heap p)))"
    unfolding dom1 using fin p1(2) by (intro card_insert_disjoint) auto
  then have "card (dom (heap p1)) + length xs \<le> capacity p1" using Cons.prems(2) p1(5) by simp
  from Cons.IH [OF p1(4) this] obtain js p2 where
    p2: "acquire_all xs p1 = Some (js, p2)" "distinct js" "length js = length xs"
      "set js \<inter> dom (heap p1) = {}" "heap p2 = (heap p1)(js [\<mapsto>] xs)" "inv p2" "capacity p2 = capacity p1"
    by blast
  have "i \<notin> set js" using p2(4) dom1 by blast
  then show ?case
    using p1 p2 dom1 by (intro exI [of _ "i # js"] exI [of _ p2]) auto
qed simp

text \<open>Releasing what was just acquired gives back the store, and the slot is dead again.\<close>

lemma release_acquired:
  assumes "inv p" "acquire x p = Some (Some i, p1)"
  shows "\<exists>p2. release i p1 = Some p2 \<and> heap p2 = heap p \<and> release i p2 = None"
proof -
  have "card (dom (heap p)) < capacity p"
    using acquire_full [OF assms(1), of x] heap_finite [OF assms(1)] assms(2) by (cases "card (dom (heap p)) = capacity p") auto
  from acquire_free [OF assms(1) this, of x] assms(2) have p1: "heap p i = None" "heap p1 = (heap p)(i \<mapsto> x)" "inv p1"
    by auto
  then obtain p2 where "release i p1 = Some p2" "heap p2 = (heap p1)(i := None)"
    using release_live [of p1 i x] by auto
  with p1 release_dead [of p2 i] show ?thesis by auto
qed

end

section \<open>The pool is a store\<close>

text \<open>The free list: a chain of slots through \<open>next_free\<close>.\<close>

fun free_chain :: "'a slot list \<Rightarrow> nat option \<Rightarrow> nat list \<Rightarrow> bool" where
  "free_chain slots h [] \<longleftrightarrow> h = None"
| "free_chain slots h (i # ks) \<longleftrightarrow>
     h = Some i \<and> i < length slots \<and> (\<exists>n. slots ! i = NextFree n \<and> free_chain slots n ks)"

definition free_slots :: "'a slot list \<Rightarrow> nat set" where
  "free_slots slots = {i. i < length slots \<and> (\<exists>n. slots ! i = NextFree n)}"

definition pool_heap :: "'a object_pool \<Rightarrow> nat \<Rightarrow> 'a option" where
  "pool_heap p i = pool_read i p"

text \<open>The free list holds every free slot once, and the counter counts the live ones.\<close>

definition pool_inv :: "'a object_pool \<Rightarrow> bool" where
  "pool_inv p \<longleftrightarrow>
     (\<exists>ks. free_chain (pl_slots p) (pl_free_head p) ks \<and> distinct ks \<and> set ks = free_slots (pl_slots p)) \<and>
     pl_in_use p + card (free_slots (pl_slots p)) = length (pl_slots p)"

lemma free_chain_update:
  "i \<notin> set ks \<Longrightarrow> free_chain (slots[i := s]) h ks = free_chain slots h ks"
  by (induction ks arbitrary: h) auto

lemma free_slots_update:
  "i < length slots \<Longrightarrow> free_slots (slots[i := NextFree n]) = insert i (free_slots slots)"
  "i < length slots \<Longrightarrow> free_slots (slots[i := Storage x]) = free_slots slots - {i}"
  by (auto simp: free_slots_def nth_list_update)

lemma finite_free_slots [simp]: "finite (free_slots slots)"
  by (rule finite_subset [of _ "{..< length slots}"]) (auto simp: free_slots_def)

lemma pool_heap_dom: "dom (pool_heap p) = {..< length (pl_slots p)} - free_slots (pl_slots p)"
proof (rule set_eqI)
  fix i
  show "i \<in> dom (pool_heap p) \<longleftrightarrow> i \<in> {..< length (pl_slots p)} - free_slots (pl_slots p)"
    by (cases "pl_slots p ! i") (auto simp: pool_heap_def pool_read_def free_slots_def split: if_splits)
qed

lemma free_slots_subset: "free_slots slots \<subseteq> {..< length slots}"
  by (auto simp: free_slots_def)

lemma pool_heap_card: "card (dom (pool_heap p)) = length (pl_slots p) - card (free_slots (pl_slots p))"
  unfolding pool_heap_dom using card_Diff_subset [OF finite_free_slots free_slots_subset] by simp

lemma pool_in_use_card: "pool_inv p \<Longrightarrow> pl_in_use p = card (dom (pool_heap p))"
  unfolding pool_heap_card pool_inv_def by linarith

lemma pool_heap_update:
  "i < length (pl_slots p) \<Longrightarrow>
   pool_heap (p\<lparr>pl_slots := (pl_slots p)[i := s]\<rparr>) =
     (pool_heap p)(i := (case s of Storage x \<Rightarrow> Some x | NextFree _ \<Rightarrow> None))"
  by (auto simp: pool_heap_def pool_read_def fun_eq_iff nth_list_update)

lemma pool_heap_cong: "pl_slots p = pl_slots q \<Longrightarrow> pool_heap p = pool_heap q"
  by (simp add: pool_heap_def pool_read_def fun_eq_iff)

lemma pool_heap_Some: "pool_heap p i = Some x \<longleftrightarrow> i < length (pl_slots p) \<and> pl_slots p ! i = Storage x"
  by (auto simp: pool_heap_def pool_read_def split: slot.splits)

lemma pool_acquire_free:
  assumes inv: "pool_inv p" and room: "card (dom (pool_heap p)) < length (pl_slots p)"
  shows "\<exists>i p'. pool_Acquire x p = Some (Some i, p') \<and> pool_heap p i = None \<and>
    pool_heap p' = (pool_heap p)(i \<mapsto> x) \<and> pool_inv p' \<and> length (pl_slots p') = length (pl_slots p)"
proof -
  from inv obtain ks where ks: "free_chain (pl_slots p) (pl_free_head p) ks" "distinct ks"
    "set ks = free_slots (pl_slots p)"
    and n: "pl_in_use p + card (free_slots (pl_slots p)) = length (pl_slots p)" unfolding pool_inv_def by blast
  from room n have "card (free_slots (pl_slots p)) \<noteq> 0" unfolding pool_heap_card by linarith
  then have "ks \<noteq> []" using ks(3) by auto
  then obtain i ks' nx where i: "ks = i # ks'" "pl_free_head p = Some i" "i < length (pl_slots p)"
    "pl_slots p ! i = NextFree nx" "free_chain (pl_slots p) nx ks'"
    using ks(1) by (cases ks) auto
  let ?p = "p\<lparr>pl_slots := (pl_slots p)[i := Storage x], pl_free_head := nx, pl_in_use := pl_in_use p + 1\<rparr>"
  have acq: "pool_Acquire x p = Some (Some i, ?p)" using i by (simp add: pool_Acquire_def)
  have "free_chain (pl_slots ?p) (pl_free_head ?p) ks'"
    using i ks(2) by (simp add: free_chain_update)
  moreover have fs: "free_slots (pl_slots ?p) = free_slots (pl_slots p) - {i}" using i(3) by (simp add: free_slots_update)
  moreover have "set ks' = free_slots (pl_slots p) - {i}" using ks(2,3) i(1) by auto
  moreover have "card (free_slots (pl_slots p) - {i}) + 1 = card (free_slots (pl_slots p))"
    using ks(3) i(1) by (metis One_nat_def Suc_eq_plus1 card_Suc_Diff1 finite_free_slots list.set_intros(1))
  ultimately have "pool_inv ?p" using ks(2) i(1) n unfolding pool_inv_def by auto
  moreover have "pool_heap p i = None" using i by (simp add: pool_heap_def pool_read_def)
  moreover have "pool_heap ?p = (pool_heap p)(i \<mapsto> x)"
    using pool_heap_update [OF i(3), of "Storage x"]
      pool_heap_cong [of ?p "p\<lparr>pl_slots := (pl_slots p)[i := Storage x]\<rparr>"] by simp
  ultimately show ?thesis using acq by (intro exI [of _ i] exI [of _ ?p]) simp
qed

lemma pool_acquire_full:
  assumes "pool_inv p" "card (dom (pool_heap p)) = length (pl_slots p)"
  shows "pool_Acquire x p = Some (None, p)"
proof -
  from assms obtain ks where ks: "free_chain (pl_slots p) (pl_free_head p) ks"
    "set ks = free_slots (pl_slots p)" unfolding pool_inv_def by blast
  have "card (free_slots (pl_slots p)) \<le> length (pl_slots p)"
    using card_mono [OF _ free_slots_subset, of "pl_slots p"] by simp
  then have "card (free_slots (pl_slots p)) = 0" using assms(2) unfolding pool_heap_card
    using assms(1) pool_in_use_card pool_inv_def by (metis add_cancel_right_right assms(2))
  then have "free_slots (pl_slots p) = {}" by simp
  then have "ks = []" using ks(2) by simp
  then show ?thesis using ks(1) by (simp add: pool_Acquire_def)
qed

lemma pool_release_live:
  assumes inv: "pool_inv p" and live: "pool_heap p i = Some y"
  shows "\<exists>p'. pool_Release i p = Some p' \<and> pool_heap p' = (pool_heap p)(i := None) \<and>
    pool_inv p' \<and> length (pl_slots p') = length (pl_slots p)"
proof -
  from live have i: "i < length (pl_slots p)" "pl_slots p ! i = Storage y" unfolding pool_heap_Some by auto
  from inv obtain ks where ks: "free_chain (pl_slots p) (pl_free_head p) ks" "distinct ks"
    "set ks = free_slots (pl_slots p)"
    and n: "pl_in_use p + card (free_slots (pl_slots p)) = length (pl_slots p)" unfolding pool_inv_def by blast
  let ?s = "(pl_slots p)[i := NextFree (pl_free_head p)]"
  let ?p = "p\<lparr>pl_slots := ?s, pl_free_head := Some i, pl_in_use := size_dec (pl_in_use p)\<rparr>"
  have rel: "pool_Release i p = Some ?p" using live by (simp add: pool_Release_def pool_heap_def)
  have fresh: "i \<notin> free_slots (pl_slots p)" using i by (auto simp: free_slots_def)
  have "free_chain ?s (Some i) (i # ks)" using i ks(1,3) fresh by (simp add: free_chain_update)
  moreover have fs: "free_slots ?s = insert i (free_slots (pl_slots p))" using i(1) by (simp add: free_slots_update)
  moreover have "0 < pl_in_use p"
    using pool_in_use_card [OF inv] live pool_heap_dom [of p] card_gt_0_iff [of "dom (pool_heap p)"] by auto
  then have "size_dec (pl_in_use p) + card (free_slots ?s) = length (pl_slots p)"
    using n fresh by (simp add: fs size_dec_def)
  ultimately have "pool_inv ?p"
    unfolding pool_inv_def using ks(2,3) fresh by (auto intro!: exI [of _ "i # ks"])
  moreover have "pool_heap ?p = (pool_heap p)(i := None)"
    using pool_heap_update [OF i(1), of "NextFree (pl_free_head p)"]
      pool_heap_cong [of ?p "p\<lparr>pl_slots := ?s\<rparr>"] by simp
  ultimately show ?thesis using rel by simp
qed

lemma pool_write_live:
  assumes inv: "pool_inv p" and live: "pool_heap p i = Some y"
  shows "\<exists>p'. pool_write i x p = Some p' \<and> pool_heap p' = (pool_heap p)(i \<mapsto> x) \<and>
    pool_inv p' \<and> length (pl_slots p') = length (pl_slots p)"
proof -
  from live have i: "i < length (pl_slots p)" "pl_slots p ! i = Storage y" unfolding pool_heap_Some by auto
  let ?p = "p\<lparr>pl_slots := (pl_slots p)[i := Storage x]\<rparr>"
  have fresh: "i \<notin> free_slots (pl_slots p)" using i by (auto simp: free_slots_def)
  then have fs: "free_slots (pl_slots ?p) = free_slots (pl_slots p)" using i(1) by (simp add: free_slots_update)
  from inv obtain ks where ks: "free_chain (pl_slots p) (pl_free_head p) ks" "distinct ks"
    "set ks = free_slots (pl_slots p)"
    and n: "pl_in_use p + card (free_slots (pl_slots p)) = length (pl_slots p)" unfolding pool_inv_def by blast
  have "free_chain (pl_slots ?p) (pl_free_head ?p) ks" using ks(1,3) fresh by (simp add: free_chain_update)
  with ks(2,3) n have "pool_inv ?p" unfolding pool_inv_def fs by auto
  moreover have "pool_write i x p = Some ?p" using live by (simp add: pool_write_def pool_heap_def)
  ultimately show ?thesis using pool_heap_update [OF i(1), of "Storage x"] by simp
qed

lemma pool_new_slots:
  "length (pl_slots (ObjectPool_new n)) = n"
  "k < n \<Longrightarrow> pl_slots (ObjectPool_new n) ! k = NextFree (if Suc k < n then Some (Suc k) else None)"
  by (simp_all add: ObjectPool_new_def)

lemma pool_new_chain:
  assumes "k \<le> n"
  shows "free_chain (pl_slots (ObjectPool_new n)) (if k < n then Some k else None) [k ..< n]"
  using assms
proof (induction rule: inc_induct)
  case (step k)
  then have cons: "[k ..< n] = k # [Suc k ..< n]" by (simp add: upt_conv_Cons)
  show ?case
    unfolding cons free_chain.simps pool_new_slots(2) [OF \<open>k < n\<close>] pool_new_slots(1)
    using step by simp
qed simp

lemma pool_inv_new: "pool_inv (ObjectPool_new n)"
proof -
  have fs: "free_slots (pl_slots (ObjectPool_new n)) = {0 ..< n}"
    by (auto simp: free_slots_def pool_new_slots)
  have "free_chain (pl_slots (ObjectPool_new n)) (pl_free_head (ObjectPool_new n)) [0 ..< n]"
    using pool_new_chain [of 0 n] by (simp add: ObjectPool_new_def)
  moreover have "distinct [0 ..< n]" "set [0 ..< n] = {0 ..< n}" by simp_all
  moreover have "pl_in_use (ObjectPool_new n) + card {0 ..< n} = n" by (simp add: ObjectPool_new_def)
  ultimately show ?thesis unfolding pool_inv_def fs pool_new_slots(1) by blast
qed

lemma pool_heap_new: "pool_heap (ObjectPool_new n) = Map.empty"
  by (auto simp: pool_heap_def pool_read_def ObjectPool_new_def fun_eq_iff)

interpretation pool: object_store pool_heap pool_inv pool_capacity pool_Acquire pool_Release pool_write
proof unfold_locales
  fix p :: "'a object_pool" and i :: nat
  assume "pool_inv p"
  then show "finite (dom (pool_heap p)) \<and> card (dom (pool_heap p)) \<le> pool_capacity p"
    by (simp add: pool_heap_dom pool_heap_card [unfolded pool_heap_dom] pool_capacity_def)
next
  fix p :: "'a object_pool" and i :: nat
  assume "pool_heap p i = None"
  then show "pool_Release i p = None" by (simp add: pool_Release_def pool_heap_def)
qed (simp_all only: pool_capacity_def pool_acquire_free pool_acquire_full pool_release_live pool_write_live)

lemma pool_available_eq:
  "pool_inv p \<Longrightarrow> pool_available p = pool_capacity p - card (dom (pool_heap p))"
  by (simp add: pool_available_def pool_in_use_def pool_in_use_card)

section \<open>Reachable pools\<close>

inductive pool_reachable :: "nat \<Rightarrow> 'a object_pool \<Rightarrow> bool" for n where
  new: "pool_reachable n (ObjectPool_new n)"
| acquire: "pool_reachable n p \<Longrightarrow> pool_Acquire x p = Some (r, p') \<Longrightarrow> pool_reachable n p'"
| release: "pool_reachable n p \<Longrightarrow> pool_Release i p = Some p' \<Longrightarrow> pool_reachable n p'"
| assign: "pool_reachable n p \<Longrightarrow> pool_write i x p = Some p' \<Longrightarrow> pool_reachable n p'"

lemma pool_heap_full_or_free:
  assumes "pool_inv p"
  obtains "card (dom (pool_heap p)) = pool_capacity p" "pool_Acquire x p = Some (None, p)"
  | i p' where "card (dom (pool_heap p)) < pool_capacity p" "pool_Acquire x p = Some (Some i, p')"
      "pool_heap p i = None" "pool_heap p' = (pool_heap p)(i \<mapsto> x)" "pool_inv p'"
      "pool_capacity p' = pool_capacity p"
proof (cases "card (dom (pool_heap p)) = pool_capacity p")
  case True
  with that(1) pool.acquire_full [OF assms] show thesis by blast
next
  case False
  with pool.heap_finite [OF assms] have "card (dom (pool_heap p)) < pool_capacity p" by simp
  with that(2) pool.acquire_free [OF assms this, of x] show thesis by blast
qed

lemma pool_reachable_inv: "pool_reachable n p \<Longrightarrow> pool_inv p \<and> pool_capacity p = n"
proof (induction rule: pool_reachable.induct)
  case new
  show ?case by (simp add: pool_inv_new pool_capacity_def pool_new_slots)
next
  case (acquire p x r p')
  then have "pool_inv p" by blast
  from pool_heap_full_or_free [OF this, of x] acquire show ?case by cases auto
next
  case (release p i p')
  then obtain y where "pool_heap p i = Some y" using pool.release_dead [of p i] by (cases "pool_heap p i") auto
  with release pool.release_live [of p i y] show ?case by auto
next
  case (assign p i x p')
  then obtain y where "pool_heap p i = Some y" by (cases "pool_heap p i") (auto simp: pool_write_def pool_heap_def)
  with assign pool.store_live [of p i y x] show ?case by auto
qed

lemma pool_acquire_fresh:
  assumes "pool_reachable n p"
  shows "\<exists>r p'. pool_Acquire x p = Some (r, p') \<and>
    (case r of
       None \<Rightarrow> pool_available p = 0 \<and> p' = p
     | Some i \<Rightarrow> pool_read i p = None \<and> pool_read i p' = Some x \<and>
         (\<forall>j. j \<noteq> i \<longrightarrow> pool_read j p' = pool_read j p) \<and>
         pool_in_use p' = pool_in_use p + 1 \<and> pool_available p = pool_available p' + 1 \<and>
         pool_in_use p' + pool_available p' = n)"
proof -
  have inv: "pool_inv p" "pool_capacity p = n" using pool_reachable_inv [OF assms] by auto
  from inv(1) show ?thesis
  proof (cases rule: pool_heap_full_or_free [where x = x])
    case 1
    then show ?thesis using pool_available_eq [OF inv(1)] by simp
  next
    case (2 i p')
    have "i \<notin> dom (pool_heap p)" using 2(3) by auto
    then have "card (dom (pool_heap p')) = card (dom (pool_heap p)) + 1"
      using pool.heap_finite [OF inv(1)] by (simp add: 2(4))
    moreover have "pool_read j p' = (if j = i then Some x else pool_read j p)" for j
      using fun_cong [OF 2(4), of j] by (simp add: pool_heap_def)
    moreover have "pool_read i p = None" using 2(3) by (simp add: pool_heap_def)
    ultimately show ?thesis
      using 2(1,2,6) pool_available_eq [OF inv(1)] pool_available_eq [OF 2(5)] pool_in_use_card [OF inv(1)]
        pool_in_use_card [OF 2(5)] inv(2) by (simp add: pool_in_use_def)
  qed
qed

lemma pool_release_frees:
  assumes "pool_reachable n p" "pool_read i p = Some y"
  shows "\<exists>p'. pool_Release i p = Some p' \<and> pool_read i p' = None \<and> pool_Release i p' = None \<and>
    pool_write i x p' = None \<and> (\<forall>j. j \<noteq> i \<longrightarrow> pool_read j p' = pool_read j p) \<and>
    pool_in_use p = pool_in_use p' + 1 \<and> map_option fst (pool_Acquire x p') = Some (Some i)"
proof -
  have inv: "pool_inv p" using pool_reachable_inv [OF assms(1)] by blast
  have live: "pool_heap p i = Some y" using assms(2) by (simp add: pool_heap_def)
  from pool.release_live [OF inv live] obtain p' where p': "pool_Release i p = Some p'"
    "pool_heap p' = (pool_heap p)(i := None)" "pool_inv p'" by blast
  have "card (dom (pool_heap p)) = card (dom (pool_heap p')) + 1"
    using live pool.heap_finite [OF inv] card_Suc_Diff1 [of "dom (pool_heap p)" i]
    by (simp add: p'(2) domI)
  then have "pool_in_use p = pool_in_use p' + 1"
    using pool_in_use_card [OF inv] pool_in_use_card [OF p'(3)] by (simp add: pool_in_use_def)
  moreover have "pool_read j p' = (if j = i then None else pool_read j p)" for j
    using fun_cong [OF p'(2), of j] by (simp add: pool_heap_def)
  moreover have "i < length (pl_slots p)" using live by (simp add: pool_heap_Some)
  then have "map_option fst (pool_Acquire x p') = Some (Some i)"
    using p'(1) assms(2) by (auto simp: pool_Release_def pool_Acquire_def)
  ultimately show ?thesis using p'(1) by (simp add: pool_Release_def [of i p'] pool_write_def)
qed

text \<open>
  C16. A pool of capacity \<open>n\<close> never hands out a slot that is in use. In every reachable pool
  \<open>Acquire\<close> is defined; it returns the null pointer, and changes nothing, exactly when all \<open>n\<close>
  slots are in use, and otherwise a dead slot that then holds the new object, every other live
  object being untouched and the counters moving by one. \<open>Release\<close> of an object in use always
  succeeds, frees exactly that slot and makes it the next one to be handed out; releasing it a
  second time is undefined, and so is any access through the old pointer.
\<close>

theorem pool_slots_exclusive:
  assumes "pool_reachable n p"
  shows "(\<exists>r p'. pool_Acquire x p = Some (r, p') \<and>
    (case r of
       None \<Rightarrow> pool_available p = 0 \<and> p' = p
     | Some i \<Rightarrow> pool_read i p = None \<and> pool_read i p' = Some x \<and>
         (\<forall>j. j \<noteq> i \<longrightarrow> pool_read j p' = pool_read j p) \<and>
         pool_in_use p' = pool_in_use p + 1 \<and> pool_available p = pool_available p' + 1 \<and>
         pool_in_use p' + pool_available p' = n)) \<and>
   (\<forall>i y. pool_read i p = Some y \<longrightarrow>
    (\<exists>p'. pool_Release i p = Some p' \<and> pool_read i p' = None \<and> pool_Release i p' = None \<and>
    pool_write i x p' = None \<and> (\<forall>j. j \<noteq> i \<longrightarrow> pool_read j p' = pool_read j p) \<and>
    pool_in_use p = pool_in_use p' + 1 \<and> map_option fst (pool_Acquire x p') = Some (Some i)))"
  using pool_acquire_fresh [OF assms] pool_release_frees [OF assms] by blast

theorem pool_slots_exclusive_witness:
  "\<exists>p p'. pool_Acquire (7 :: nat) (ObjectPool_new 2) = Some (Some 0, p) \<and> pool_read 0 p = Some 7 \<and> pool_Release 0 p = Some p' \<and>
     pool_Release 0 p' = None \<and> map_option fst (pool_Acquire 8 p') = Some (Some 0)"
proof -
  have "map_option fst (pool_Acquire (7 :: nat) (ObjectPool_new 2)) = Some (Some 0)" by code_simp
  with pool_slots_exclusive [OF pool_reachable.new [of 2], of "7 :: nat"] obtain p where
    p: "pool_Acquire (7 :: nat) (ObjectPool_new 2) = Some (Some 0, p)" "pool_read 0 p = Some 7" by auto
  from pool_slots_exclusive [OF pool_reachable.acquire [OF pool_reachable.new p(1)], of 8] p show ?thesis by blast
qed

end
