(* ===== verification/ME_Types.thy ===== *)
theory ME_Types
  imports ME_Prelude
begin

text \<open>
  The data types of \<open>include/matching_engine\<close>: \<open>types.hpp\<close>, \<open>order.hpp\<close>, \<open>trade.hpp\<close>,
  \<open>events.hpp\<close> and \<open>command.hpp\<close>. Unsigned integers are words of the C++ width, so that
  arithmetic wraps as it does in the program.

  A C++ \<open>enum class E : std::uint8_t\<close> has a fixed underlying type: every byte is a value of
  the type, and \<open>static_cast\<close> from a byte (which is how the decoders build the fields) does
  not check that the byte is one of the enumerators. Each enum is therefore a datatype around
  its byte, the constructor being the cast, and the enumerators are named values of it.
\<close>

section \<open>Scalar types\<close>

text \<open>
  \<open>Price\<close> is a signed 64-bit tick count. It is only compared and serialised, so it is a 64-bit
  word with the order of its two's complement reading.
\<close>

datatype price = Price (ticks: u64)

instantiation price :: linorder
begin

definition less_eq_price :: "price \<Rightarrow> price \<Rightarrow> bool" where
  "less_eq_price p q \<longleftrightarrow> sint (ticks p) \<le> sint (ticks q)"

definition less_price :: "price \<Rightarrow> price \<Rightarrow> bool" where
  "less_price p q \<longleftrightarrow> sint (ticks p) < sint (ticks q)"

instance
proof
  fix p q :: price
  assume "p \<le> q" "q \<le> p"
  then have "sint (ticks p) = sint (ticks q)" by (simp add: less_eq_price_def)
  then show "p = q" by (intro price.expand signed_word_eqI)
qed (auto simp: less_eq_price_def less_price_def)

end

lemma price_le_code [simp, code]: "Price a \<le> Price b \<longleftrightarrow> sint a \<le> sint b"
  by (simp add: less_eq_price_def)

lemma price_less_code [simp, code]: "Price a < Price b \<longleftrightarrow> sint a < sint b"
  by (simp add: less_price_def)

type_synonym order_id = u64
type_synonym trader_id = u64
type_synonym symbol_id = u32
type_synonym quantity = u64
type_synonym sequence_number = u64
type_synonym timestamp = u64

abbreviation (input) kInvalidPrice :: price where "kInvalidPrice \<equiv> Price (- 1)"
abbreviation (input) kInvalidOrderId :: order_id where "kInvalidOrderId \<equiv> 0"

datatype side = Side (side_u8: u8)
abbreviation Buy :: side where "Buy \<equiv> Side 0"
abbreviation Sell :: side where "Sell \<equiv> Side 1"

definition opposite :: "side \<Rightarrow> side" where
  "opposite s = (if s = Buy then Sell else Buy)"

datatype order_type = OrderType (order_type_u8: u8)
abbreviation Limit :: order_type where "Limit \<equiv> OrderType 0"
abbreviation Market :: order_type where "Market \<equiv> OrderType 1"

datatype time_in_force = TimeInForce (time_in_force_u8: u8)
abbreviation GoodTillCancel :: time_in_force where "GoodTillCancel \<equiv> TimeInForce 0"
abbreviation ImmediateOrCancel :: time_in_force where "ImmediateOrCancel \<equiv> TimeInForce 1"
abbreviation FillOrKill :: time_in_force where "FillOrKill \<equiv> TimeInForce 2"

datatype order_status = OrderStatus (order_status_u8: u8)
abbreviation New :: order_status where "New \<equiv> OrderStatus 0"
abbreviation PartiallyFilled :: order_status where "PartiallyFilled \<equiv> OrderStatus 1"
abbreviation Filled :: order_status where "Filled \<equiv> OrderStatus 2"
abbreviation Cancelled :: order_status where "Cancelled \<equiv> OrderStatus 3"
abbreviation Rejected :: order_status where "Rejected \<equiv> OrderStatus 4"

datatype reject_reason = RejectReason (reject_reason_u8: u8)
abbreviation NoReason :: reject_reason where "NoReason \<equiv> RejectReason 0"
abbreviation InvalidSymbol :: reject_reason where "InvalidSymbol \<equiv> RejectReason 1"
abbreviation InvalidPrice :: reject_reason where "InvalidPrice \<equiv> RejectReason 2"
abbreviation InvalidQuantity :: reject_reason where "InvalidQuantity \<equiv> RejectReason 3"
abbreviation UnknownOrder :: reject_reason where "UnknownOrder \<equiv> RejectReason 4"
abbreviation DuplicateOrderId :: reject_reason where "DuplicateOrderId \<equiv> RejectReason 5"
abbreviation MarketOrderNoLiquidity :: reject_reason where "MarketOrderNoLiquidity \<equiv> RejectReason 6"
abbreviation FillOrKillNotFilled :: reject_reason where "FillOrKillNotFilled \<equiv> RejectReason 7"
abbreviation SelfMatchPrevented :: reject_reason where "SelfMatchPrevented \<equiv> RejectReason 8"
abbreviation PoolExhausted :: reject_reason where "PoolExhausted \<equiv> RejectReason 9"

text \<open>
  The \<open>to_string\<close> overloads. A \<open>switch\<close> over the enumerators falls through to \<open>"UNKNOWN"\<close> for any
  other byte; the two conditional expressions take it for the second enumerator.
\<close>

definition to_string_side :: "side \<Rightarrow> string" where
  "to_string_side s = (if s = Buy then ''BUY'' else ''SELL'')"

definition to_string_type :: "order_type \<Rightarrow> string" where
  "to_string_type t = (if t = Limit then ''LIMIT'' else ''MARKET'')"

definition to_string_status :: "order_status \<Rightarrow> string" where
  "to_string_status s =
     (if s = New then ''NEW''
      else if s = PartiallyFilled then ''PARTIALLY_FILLED''
      else if s = Filled then ''FILLED''
      else if s = Cancelled then ''CANCELLED''
      else if s = Rejected then ''REJECTED''
      else ''UNKNOWN'')"

definition to_string_reason :: "reject_reason \<Rightarrow> string" where
  "to_string_reason r =
     (if r = NoReason then ''NONE''
      else if r = InvalidSymbol then ''INVALID_SYMBOL''
      else if r = InvalidPrice then ''INVALID_PRICE''
      else if r = InvalidQuantity then ''INVALID_QUANTITY''
      else if r = UnknownOrder then ''UNKNOWN_ORDER''
      else if r = DuplicateOrderId then ''DUPLICATE_ORDER_ID''
      else if r = MarketOrderNoLiquidity then ''MARKET_ORDER_NO_LIQUIDITY''
      else if r = FillOrKillNotFilled then ''FILL_OR_KILL_NOT_FILLED''
      else if r = SelfMatchPrevented then ''SELF_MATCH_PREVENTED''
      else if r = PoolExhausted then ''POOL_EXHAUSTED''
      else ''UNKNOWN'')"

section \<open>Orders, trades, events and commands\<close>

text \<open>
  Records of the sources share field names; here each field carries its record's prefix. The
  order of the fields is that of the sources.
\<close>

record order =
  o_id :: order_id
  o_trader_id :: trader_id
  o_symbol_id :: symbol_id
  o_sequence_number :: sequence_number
  o_timestamp :: timestamp
  o_price :: price
  o_quantity :: quantity
  o_remaining_quantity :: quantity
  o_side :: side
  o_type :: order_type
  o_time_in_force :: time_in_force
  o_status :: order_status

record trade =
  t_sequence_number :: sequence_number
  t_timestamp :: timestamp
  t_symbol_id :: symbol_id
  t_aggressor_order_id :: order_id
  t_resting_order_id :: order_id
  t_aggressor_trader_id :: trader_id
  t_resting_trader_id :: trader_id
  t_aggressor_side :: side
  t_price :: price
  t_quantity :: quantity

record accepted_event =
  ae_sequence_number :: sequence_number
  ae_timestamp :: timestamp
  ae_symbol_id :: symbol_id
  ae_order_id :: order_id
  ae_trader_id :: trader_id
  ae_side :: side
  ae_type :: order_type
  ae_price :: price
  ae_quantity :: quantity
  ae_filled_quantity :: quantity
  ae_remaining_quantity :: quantity
  ae_status :: order_status

record rejected_event =
  re_sequence_number :: sequence_number
  re_timestamp :: timestamp
  re_symbol_id :: symbol_id
  re_order_id :: order_id
  re_trader_id :: trader_id
  re_reason :: reject_reason

record cancelled_event =
  ce_sequence_number :: sequence_number
  ce_timestamp :: timestamp
  ce_symbol_id :: symbol_id
  ce_order_id :: order_id
  ce_trader_id :: trader_id

record modified_event =
  me_sequence_number :: sequence_number
  me_timestamp :: timestamp
  me_symbol_id :: symbol_id
  me_order_id :: order_id
  me_trader_id :: trader_id
  me_new_price :: price
  me_new_remaining_quantity :: quantity
  me_lost_priority :: bool

record book_update_event =
  be_sequence_number :: sequence_number
  be_timestamp :: timestamp
  be_symbol_id :: symbol_id
  be_side :: side
  be_price :: price
  be_aggregate_quantity :: quantity

datatype event =
    AcceptedEvent accepted_event
  | RejectedEvent rejected_event
  | CancelledEvent cancelled_event
  | ModifiedEvent modified_event
  | TradeEvent trade
  | BookUpdateEvent book_update_event

record new_order_command =
  nc_order_id :: order_id
  nc_trader_id :: trader_id
  nc_symbol_id :: symbol_id
  nc_side :: side
  nc_type :: order_type
  nc_price :: price
  nc_quantity :: quantity
  nc_time_in_force :: time_in_force
  nc_timestamp :: timestamp

record cancel_command =
  cc_order_id :: order_id
  cc_trader_id :: trader_id
  cc_symbol_id :: symbol_id
  cc_timestamp :: timestamp

record modify_command =
  mc_order_id :: order_id
  mc_trader_id :: trader_id
  mc_symbol_id :: symbol_id
  mc_new_price :: price
  mc_new_quantity :: quantity
  mc_timestamp :: timestamp

datatype command =
    NewOrderCommand new_order_command
  | CancelCommand cancel_command
  | ModifyCommand modify_command

fun SymbolOf :: "command \<Rightarrow> symbol_id" where
  "SymbolOf (NewOrderCommand c) = nc_symbol_id c"
| "SymbolOf (CancelCommand c) = cc_symbol_id c"
| "SymbolOf (ModifyCommand c) = mc_symbol_id c"

section \<open>Results of the order-book operations\<close>

text \<open>
  \<open>AddResult\<close>, \<open>CancelResult\<close> and \<open>ModifyResult\<close> are declared twice in the sources, by
  \<open>naive::OrderBook\<close> and by \<open>fast::OrderBook\<close>, with the same fields and defaults.
\<close>

record add_result =
  ar_accepted :: bool
  ar_reject_reason :: reject_reason
  ar_final_status :: order_status
  ar_filled_quantity :: quantity
  ar_remaining_quantity :: quantity
  ar_trades :: "trade list"

record cancel_result =
  cr_success :: bool
  cr_reject_reason :: reject_reason
  cr_symbol_id :: symbol_id
  cr_trader_id :: trader_id

record modify_result =
  mr_success :: bool
  mr_reject_reason :: reject_reason
  mr_lost_priority :: bool
  mr_final_status :: order_status
  mr_filled_quantity :: quantity
  mr_remaining_quantity :: quantity
  mr_trades :: "trade list"

definition AddResult_init :: add_result where
  "AddResult_init = \<lparr>ar_accepted = False, ar_reject_reason = NoReason, ar_final_status = Rejected,
     ar_filled_quantity = 0, ar_remaining_quantity = 0, ar_trades = []\<rparr>"

definition CancelResult_init :: cancel_result where
  "CancelResult_init = \<lparr>cr_success = False, cr_reject_reason = NoReason, cr_symbol_id = 0,
     cr_trader_id = 0\<rparr>"

definition ModifyResult_init :: modify_result where
  "ModifyResult_init = \<lparr>mr_success = False, mr_reject_reason = NoReason, mr_lost_priority = False,
     mr_final_status = Rejected, mr_filled_quantity = 0, mr_remaining_quantity = 0,
     mr_trades = []\<rparr>"

text \<open>The early returns of \<open>AddOrder\<close> and \<open>ModifyOrder\<close>: the default result with a reason.\<close>

abbreviation add_reject :: "reject_reason \<Rightarrow> add_result" where
  "add_reject r \<equiv> AddResult_init\<lparr>ar_reject_reason := r\<rparr>"

abbreviation modify_reject :: "reject_reason \<Rightarrow> modify_result" where
  "modify_reject r \<equiv> ModifyResult_init\<lparr>mr_reject_reason := r\<rparr>"

abbreviation cancel_reject :: "reject_reason \<Rightarrow> cancel_result" where
  "cancel_reject r \<equiv> CancelResult_init\<lparr>cr_reject_reason := r\<rparr>"

lemma opposite_simps [simp]: "opposite Buy = Sell" "opposite Sell = Buy"
  by (simp_all add: opposite_def)

end
