(* ===== verification/Book_Spec.thy ===== *)
theory Book_Spec
  imports ME_Types
begin

text \<open>
  The contract of an order book, as \<open>docs/architecture.md\<close> and the headers of
  \<open>naive::OrderBook\<close> and \<open>fast::OrderBook\<close> describe it: each side is one queue of resting
  orders in price-time priority. There are no price levels, no cached totals, no index and no
  nodes here; the two implementations are proved to refine this book.

  The theory holds the notions both implementations share with the contract (the parameters of
  \<open>AddOrder\<close>, \<open>PriceCrosses\<close>, the \<open>Trade\<close> of one execution, the order that comes to rest), the
  operations of the contract, and its laws: the invariant and its preservation, the
  conservation of quantity, price-time priority.
\<close>

section \<open>Notions shared by the contract and the implementations\<close>

text \<open>
  The parameters of \<open>AddOrder\<close>. \<open>Match\<close> takes the same ones, less the quantity (which it gets
  as the mutable \<open>remaining\<close>) and the time in force.
\<close>

record order_args =
  a_id :: order_id
  a_trader_id :: trader_id
  a_side :: side
  a_type :: order_type
  a_price :: price
  a_quantity :: quantity
  a_tif :: time_in_force
  a_seq :: sequence_number
  a_ts :: timestamp

definition PriceCrosses :: "side \<Rightarrow> price \<Rightarrow> price \<Rightarrow> bool \<Rightarrow> bool" where
  "PriceCrosses aggressor_side limit_price level_price is_market =
     (if is_market then True
      else if aggressor_side = Buy then level_price \<le> limit_price
      else level_price \<ge> limit_price)"

abbreviation crosses :: "order_args \<Rightarrow> price \<Rightarrow> bool" where
  "crosses a p \<equiv> PriceCrosses (a_side a) (a_price a) p (a_type a = Market)"

definition make_trade :: "symbol_id \<Rightarrow> order_args \<Rightarrow> order \<Rightarrow> quantity \<Rightarrow> trade" where
  "make_trade symb a resting trade_qty =
     \<lparr>t_sequence_number = a_seq a, t_timestamp = a_ts a, t_symbol_id = symb,
      t_aggressor_order_id = a_id a, t_resting_order_id = o_id resting,
      t_aggressor_trader_id = a_trader_id a, t_resting_trader_id = o_trader_id resting,
      t_aggressor_side = a_side a, t_price = o_price resting, t_quantity = trade_qty\<rparr>"

definition resting_order :: "symbol_id \<Rightarrow> order_args \<Rightarrow> quantity \<Rightarrow> order" where
  "resting_order symb a remaining =
     \<lparr>o_id = a_id a, o_trader_id = a_trader_id a, o_symbol_id = symb,
      o_sequence_number = a_seq a, o_timestamp = a_ts a, o_price = a_price a,
      o_quantity = a_quantity a, o_remaining_quantity = remaining, o_side = a_side a,
      o_type = a_type a, o_time_in_force = a_tif a,
      o_status = (if a_quantity a - remaining > 0 then PartiallyFilled else New)\<rparr>"

definition can_rest :: "order_args \<Rightarrow> quantity \<Rightarrow> bool" where
  "can_rest a remaining \<longleftrightarrow> a_type a = Limit \<and> a_tif a = GoodTillCancel \<and> remaining > 0"

text \<open>The result of an order that does not rest (market, immediate-or-cancel, or filled).\<close>

definition done_result :: "order_args \<Rightarrow> quantity \<Rightarrow> trade list \<Rightarrow> add_result" where
  "done_result a remaining trades =
     AddResult_init\<lparr>ar_accepted := True, ar_filled_quantity := a_quantity a - remaining,
       ar_remaining_quantity := 0, ar_trades := trades,
       ar_final_status :=
         (if a_quantity a - remaining = a_quantity a then Filled else Cancelled)\<rparr>"

text \<open>The result of an order whose remainder rests.\<close>

definition rest_result :: "symbol_id \<Rightarrow> order_args \<Rightarrow> quantity \<Rightarrow> trade list \<Rightarrow> add_result" where
  "rest_result symb a remaining trades =
     AddResult_init\<lparr>ar_accepted := True, ar_filled_quantity := a_quantity a - remaining,
       ar_remaining_quantity := remaining, ar_trades := trades,
       ar_final_status := o_status (resting_order symb a remaining)\<rparr>"

text \<open>The order that \<open>ModifyOrder\<close> leaves in place when it only reduces the quantity.\<close>

definition amend_order :: "quantity \<Rightarrow> order \<Rightarrow> order" where
  "amend_order new_quantity o1 =
     o1\<lparr>o_remaining_quantity := new_quantity,
        o_quantity := o_quantity o1 - (o_remaining_quantity o1 - new_quantity)\<rparr>"

definition amend_result :: "quantity \<Rightarrow> modify_result" where
  "amend_result new_quantity =
     ModifyResult_init\<lparr>mr_success := True, mr_lost_priority := False,
       mr_remaining_quantity := new_quantity,
       mr_final_status := (if new_quantity = 0 then Filled else PartiallyFilled)\<rparr>"

text \<open>The parameters of the \<open>AddOrder\<close> call inside \<open>ModifyOrder\<close>, and its result.\<close>

definition replace_args :: "order \<Rightarrow> price \<Rightarrow> quantity \<Rightarrow> sequence_number \<Rightarrow> timestamp \<Rightarrow> order_args" where
  "replace_args o1 new_price new_quantity seq ts =
     \<lparr>a_id = o_id o1, a_trader_id = o_trader_id o1, a_side = o_side o1, a_type = o_type o1,
      a_price = new_price, a_quantity = new_quantity, a_tif = o_time_in_force o1,
      a_seq = seq, a_ts = ts\<rparr>"

definition replace_result :: "add_result \<Rightarrow> modify_result" where
  "replace_result add =
     \<lparr>mr_success = ar_accepted add, mr_reject_reason = ar_reject_reason add,
      mr_lost_priority = True, mr_final_status = ar_final_status add,
      mr_filled_quantity = ar_filled_quantity add,
      mr_remaining_quantity = ar_remaining_quantity add, mr_trades = ar_trades add\<rparr>"

lemmas result_defs = done_result_def rest_result_def amend_result_def replace_result_def
  AddResult_init_def ModifyResult_init_def CancelResult_init_def

section \<open>The contract\<close>

record spec_book =
  sb_symbol_id :: symbol_id
  sb_bids :: "order list"
  sb_asks :: "order list"

definition spec_empty :: "symbol_id \<Rightarrow> spec_book" where
  "spec_empty symb = \<lparr>sb_symbol_id = symb, sb_bids = [], sb_asks = []\<rparr>"

definition queue :: "bool \<Rightarrow> spec_book \<Rightarrow> order list" where
  "queue buy b = (if buy then sb_bids b else sb_asks b)"

definition set_queue :: "bool \<Rightarrow> order list \<Rightarrow> spec_book \<Rightarrow> spec_book" where
  "set_queue buy os b = (if buy then b\<lparr>sb_bids := os\<rparr> else b\<lparr>sb_asks := os\<rparr>)"

definition all_orders :: "spec_book \<Rightarrow> order list" where
  "all_orders b = sb_bids b @ sb_asks b"

text \<open>\<open>better buy p q\<close>: on that side a resting order at \<open>p\<close> has priority over one at \<open>q\<close>.\<close>

definition better :: "bool \<Rightarrow> price \<Rightarrow> price \<Rightarrow> bool" where
  "better buy p q = (if buy then q < p else p < q)"

text \<open>An order joins its queue behind every order that it does not beat on price.\<close>

definition place :: "bool \<Rightarrow> order \<Rightarrow> order list \<Rightarrow> order list" where
  "place buy x os =
     takeWhile (\<lambda>r. \<not> better buy (o_price x) (o_price r)) os @ x #
     dropWhile (\<lambda>r. \<not> better buy (o_price x) (o_price r)) os"

definition withdraw :: "order_id \<Rightarrow> order list \<Rightarrow> order list" where
  "withdraw oid os = filter (\<lambda>r. o_id r \<noteq> oid) os"

definition amend :: "order_id \<Rightarrow> (order \<Rightarrow> order) \<Rightarrow> order list \<Rightarrow> order list" where
  "amend oid f os = map (\<lambda>r. if o_id r = oid then f r else r) os"

text \<open>
  Execution against a queue: from its front, while the aggressor has quantity left and the
  next resting order crosses. A resting order no larger than what is left is consumed whole;
  a larger one is reduced and execution ends.
\<close>

fun fill :: "symbol_id \<Rightarrow> order_args \<Rightarrow> quantity \<Rightarrow> order list \<Rightarrow> quantity \<times> trade list \<times> order list" where
  "fill symb a rem [] = (rem, [], [])"
| "fill symb a rem (r # rs) =
     (if rem = 0 \<or> \<not> crosses a (o_price r) then (rem, [], r # rs)
      else if o_remaining_quantity r \<le> rem then
        (case fill symb a (rem - o_remaining_quantity r) rs of
           (rem', ts, rs') \<Rightarrow> (rem', make_trade symb a r (o_remaining_quantity r) # ts, rs'))
      else (0, [make_trade symb a r rem],
            r\<lparr>o_remaining_quantity := o_remaining_quantity r - rem,
              o_status := PartiallyFilled\<rparr> # rs))"

definition available :: "order_args \<Rightarrow> order list \<Rightarrow> quantity" where
  "available a os =
     sum_list (map o_remaining_quantity (takeWhile (\<lambda>r. crosses a (o_price r)) os))"

text \<open>Why an order is refused, if it is: the checks of \<open>AddOrder\<close> in their order.\<close>

definition spec_reject :: "order_args \<Rightarrow> spec_book \<Rightarrow> reject_reason option" where
  "spec_reject a b =
     (if a_id a = kInvalidOrderId then Some UnknownOrder
      else if a_id a \<in> o_id ` set (all_orders b) then Some DuplicateOrderId
      else if a_quantity a = 0 then Some InvalidQuantity
      else if a_type a = Limit \<and> a_price a \<le> Price 0 then Some InvalidPrice
      else if a_type a = Market \<and> queue (a_side a \<noteq> Buy) b = [] then Some MarketOrderNoLiquidity
      else if a_tif a = FillOrKill \<and> available a (queue (a_side a \<noteq> Buy) b) < a_quantity a
        then Some FillOrKillNotFilled
      else None)"

definition spec_execute :: "order_args \<Rightarrow> spec_book \<Rightarrow> add_result \<times> spec_book" where
  "spec_execute a b =
     (case fill (sb_symbol_id b) a (a_quantity a) (queue (a_side a \<noteq> Buy) b) of
        (rem, ts, opp) \<Rightarrow>
          let b1 = set_queue (a_side a \<noteq> Buy) opp b in
          if can_rest a rem then
            (rest_result (sb_symbol_id b) a rem ts,
             set_queue (a_side a = Buy)
               (place (a_side a = Buy) (resting_order (sb_symbol_id b) a rem)
                  (queue (a_side a = Buy) b1)) b1)
          else (done_result a rem ts, b1))"

definition spec_add :: "order_args \<Rightarrow> spec_book \<Rightarrow> add_result \<times> spec_book" where
  "spec_add a b =
     (case spec_reject a b of
        Some r \<Rightarrow> (add_reject r, b)
      | None \<Rightarrow> spec_execute a b)"

definition spec_find :: "order_id \<Rightarrow> spec_book \<Rightarrow> order option" where
  "spec_find oid b = find (\<lambda>r. o_id r = oid) (all_orders b)"

definition spec_remove :: "order_id \<Rightarrow> spec_book \<Rightarrow> spec_book" where
  "spec_remove oid b = b\<lparr>sb_bids := withdraw oid (sb_bids b), sb_asks := withdraw oid (sb_asks b)\<rparr>"

definition spec_cancel :: "order_id \<Rightarrow> spec_book \<Rightarrow> cancel_result \<times> spec_book" where
  "spec_cancel oid b =
     (case spec_find oid b of
        None \<Rightarrow> (cancel_reject UnknownOrder, b)
      | Some r \<Rightarrow>
          (CancelResult_init\<lparr>cr_success := True, cr_symbol_id := o_symbol_id r,
             cr_trader_id := o_trader_id r\<rparr>,
           spec_remove oid b))"

definition spec_modify ::
  "order_id \<Rightarrow> price \<Rightarrow> quantity \<Rightarrow> sequence_number \<Rightarrow> timestamp \<Rightarrow> spec_book \<Rightarrow> modify_result \<times> spec_book" where
  "spec_modify oid new_price new_quantity seq ts b =
     (case spec_find oid b of
        None \<Rightarrow> (modify_reject UnknownOrder, b)
      | Some r \<Rightarrow>
          if new_quantity = 0 then (modify_reject InvalidQuantity, b)
          else if new_price \<le> Price 0 then (modify_reject InvalidPrice, b)
          else if new_price = o_price r \<and> new_quantity \<le> o_remaining_quantity r then
            (amend_result new_quantity,
             b\<lparr>sb_bids := amend oid (amend_order new_quantity) (sb_bids b),
               sb_asks := amend oid (amend_order new_quantity) (sb_asks b)\<rparr>)
          else
            (case spec_add (replace_args r new_price new_quantity seq ts) (spec_remove oid b) of
               (add, b') \<Rightarrow> (replace_result add, b')))"

text \<open>The observers of the contract.\<close>

definition spec_quantity_at :: "side \<Rightarrow> price \<Rightarrow> spec_book \<Rightarrow> quantity" where
  "spec_quantity_at s p b =
     sum_list (map o_remaining_quantity (filter (\<lambda>r. o_price r = p) (queue (s = Buy) b)))"

definition spec_count_at :: "side \<Rightarrow> price \<Rightarrow> spec_book \<Rightarrow> nat" where
  "spec_count_at s p b = length (filter (\<lambda>r. o_price r = p) (queue (s = Buy) b))"

definition spec_best :: "bool \<Rightarrow> spec_book \<Rightarrow> price" where
  "spec_best buy b = (case queue buy b of [] \<Rightarrow> kInvalidPrice | r # _ \<Rightarrow> o_price r)"

section \<open>The invariant of a book\<close>

definition order_ok :: "symbol_id \<Rightarrow> bool \<Rightarrow> order \<Rightarrow> bool" where
  "order_ok symb buy x \<longleftrightarrow>
     o_id x \<noteq> kInvalidOrderId \<and> o_symbol_id x = symb \<and> (o_side x = Buy) = buy \<and>
     o_type x = Limit \<and> o_time_in_force x = GoodTillCancel \<and> Price 0 < o_price x \<and>
     0 < o_remaining_quantity x \<and> o_remaining_quantity x \<le> o_quantity x"

definition prioritised :: "bool \<Rightarrow> order list \<Rightarrow> bool" where
  "prioritised buy os \<longleftrightarrow> sorted_wrt (\<lambda>p q. \<not> better buy q p) (map o_price os)"

definition spec_inv :: "spec_book \<Rightarrow> bool" where
  "spec_inv b \<longleftrightarrow>
     (\<forall>buy. (\<forall>x \<in> set (queue buy b). order_ok (sb_symbol_id b) buy x) \<and> prioritised buy (queue buy b)) \<and>
     distinct (map o_id (all_orders b)) \<and>
     (\<forall>x \<in> set (sb_bids b). \<forall>y \<in> set (sb_asks b). o_price x < o_price y)"

lemma queue_simps [simp]:
  "queue True b = sb_bids b" "queue False b = sb_asks b"
  by (simp_all add: queue_def)

lemma queue_set_queue [simp]:
  "queue buy (set_queue buy' os b) = (if buy = buy' then os else queue buy b)"
  by (simp add: queue_def set_queue_def)

lemma sb_symbol_set_queue [simp]: "sb_symbol_id (set_queue buy os b) = sb_symbol_id b"
  by (simp add: set_queue_def)

lemma spec_inv_empty: "spec_inv (spec_empty symb)"
  by (auto simp: spec_inv_def spec_empty_def queue_def prioritised_def all_orders_def)

lemma spec_inv_sides:
  "spec_inv b \<longleftrightarrow>
     (\<forall>x \<in> set (sb_bids b). order_ok (sb_symbol_id b) True x) \<and>
     (\<forall>x \<in> set (sb_asks b). order_ok (sb_symbol_id b) False x) \<and>
     prioritised True (sb_bids b) \<and> prioritised False (sb_asks b) \<and>
     distinct (map o_id (sb_bids b)) \<and> distinct (map o_id (sb_asks b)) \<and>
     o_id ` set (sb_bids b) \<inter> o_id ` set (sb_asks b) = {} \<and>
     (\<forall>x \<in> set (sb_bids b). \<forall>y \<in> set (sb_asks b). o_price x < o_price y)"
  by (auto simp: spec_inv_def all_orders_def all_bool_eq)

lemma better_trans: "better buy p q \<Longrightarrow> \<not> better buy r q \<Longrightarrow> better buy p r"
  by (auto simp: better_def split: if_splits)

section \<open>Laws of execution\<close>

text \<open>Quantity is conserved, in wrapping and in natural-number arithmetic.\<close>

lemma fill_conserves:
  "fill symb a rem os = (rem', ts, os') \<Longrightarrow> unat rem = unat rem' + sum_list (map unat (map t_quantity ts))"
proof (induction symb a rem os arbitrary: rem' ts os' rule: fill.induct)
  case (2 symb a rem r rs)
  show ?case
  proof (cases "rem = 0 \<or> \<not> crosses a (o_price r) \<or> \<not> o_remaining_quantity r \<le> rem")
    case True
    with "2.prems" show ?thesis by (auto simp: make_trade_def split: if_splits)
  next
    case False
    then obtain ts1 where rec: "fill symb a (rem - o_remaining_quantity r) rs = (rem', ts1, os')"
      and ts: "ts = make_trade symb a r (o_remaining_quantity r) # ts1"
      using "2.prems" by (auto split: prod.splits)
    have "unat (rem - o_remaining_quantity r) = unat rem' + sum_list (map unat (map t_quantity ts1))"
      using False rec by (intro "2.IH") auto
    moreover have "unat (rem - o_remaining_quantity r) = unat rem - unat (o_remaining_quantity r)"
      "unat (o_remaining_quantity r) \<le> unat rem"
      using False by (auto simp: unat_sub word_le_nat_alt)
    ultimately show ?thesis by (simp add: ts make_trade_def)
  qed
qed simp

lemma unat_sum_trades:
  fixes ws :: "u64 list"
  assumes "sum_list (map unat ws) \<le> unat (q :: u64)"
  shows "unat (sum_list ws) = sum_list (map unat ws)"
proof (rule unat_sum_list)
  show "sum_list (map unat ws) < 2 ^ LENGTH(64)"
    using assms unsigned_less [of q, where 'a = nat] by simp
qed

lemma fill_filled:
  assumes "fill symb a rem os = (rem', ts, os')"
  shows "rem - rem' = sum_list (map t_quantity ts)" "rem' \<le> rem"
proof -
  from fill_conserves [OF assms]
  have c: "unat rem = unat rem' + sum_list (map unat (map t_quantity ts))" .
  then show "rem' \<le> rem" by (simp add: word_le_nat_alt)
  then have "unat (rem - rem') = unat rem - unat rem'" by (simp add: unat_sub)
  with c have "unat (rem - rem') = unat (sum_list (map t_quantity ts))"
    using unat_sum_trades [of "map t_quantity ts" rem] by simp
  then show "rem - rem' = sum_list (map t_quantity ts)" by (rule unsigned_word_eqI)
qed

text \<open>What is left is a suffix of the queue, its head possibly reduced.\<close>

lemma fill_suffix:
  "fill symb a rem os = (rem', ts, os') \<Longrightarrow>
   \<exists>n. map o_id os' = drop n (map o_id os) \<and> map o_price os' = drop n (map o_price os)"
proof (induction symb a rem os arbitrary: rem' ts os' rule: fill.induct)
  case (2 symb a rem r rs)
  show ?case
  proof (cases "rem = 0 \<or> \<not> crosses a (o_price r) \<or> \<not> o_remaining_quantity r \<le> rem")
    case True
    with "2.prems" show ?thesis by (intro exI [of _ 0]) (auto split: if_splits)
  next
    case False
    then obtain ts1 where "fill symb a (rem - o_remaining_quantity r) rs = (rem', ts1, os')"
      using "2.prems" by (auto split: prod.splits)
    then obtain n where "map o_id os' = drop n (map o_id rs) \<and> map o_price os' = drop n (map o_price rs)"
      using False "2.IH" by blast
    then show ?thesis by (intro exI [of _ "Suc n"]) simp
  qed
qed simp

lemma fill_subset:
  assumes "fill symb a rem os = (rem', ts, os')"
  shows "o_id ` set os' \<subseteq> o_id ` set os" "o_price ` set os' \<subseteq> o_price ` set os"
    "distinct (map o_id os) \<Longrightarrow> distinct (map o_id os')"
    "prioritised buy os \<Longrightarrow> prioritised buy os'"
proof -
  from fill_suffix [OF assms] obtain n where n: "map o_id os' = drop n (map o_id os)"
    "map o_price os' = drop n (map o_price os)" by blast
  show "o_id ` set os' \<subseteq> o_id ` set os" "o_price ` set os' \<subseteq> o_price ` set os"
    using n by (metis list.set_map set_drop_subset)+
  show "distinct (map o_id os) \<Longrightarrow> distinct (map o_id os')" by (simp add: n(1))
  show "prioritised buy os \<Longrightarrow> prioritised buy os'"
    unfolding prioritised_def n(2) by (rule sorted_wrt_drop)
qed

lemma fill_ok:
  "fill symb a rem os = (rem', ts, os') \<Longrightarrow> \<forall>x \<in> set os. order_ok symb' buy x \<Longrightarrow>
   \<forall>x \<in> set os'. order_ok symb' buy x"
proof (induction symb a rem os arbitrary: rem' ts os' rule: fill.induct)
  case (2 symb a rem r rs)
  show ?case
  proof (cases "rem = 0 \<or> \<not> crosses a (o_price r) \<or> o_remaining_quantity r \<le> rem")
    case True
    with 2 show ?thesis by (auto split: if_splits prod.splits)
  next
    case False
    then have le: "o_remaining_quantity r - rem \<le> o_remaining_quantity r" "0 < o_remaining_quantity r - rem"
      by (auto simp: word_gt_0 not_le intro!: word_sub_le)
    have "order_ok symb' buy r" using "2.prems" by simp
    with le have "order_ok symb' buy (r\<lparr>o_remaining_quantity := o_remaining_quantity r - rem,
        o_status := PartiallyFilled\<rparr>)"
      by (auto simp: order_ok_def)
    with False "2.prems" show ?thesis by auto
  qed
qed simp

text \<open>Unless the aggressor is exhausted, nothing that still crosses is left.\<close>

lemma crosses_mono:
  assumes "crosses a q" "\<not> better (a_side a \<noteq> Buy) q p"
  shows "crosses a p"
  using assms by (auto simp: PriceCrosses_def better_def split: if_splits)

lemma fill_exhausts:
  "fill symb a rem os = (rem', ts, os') \<Longrightarrow> prioritised (a_side a \<noteq> Buy) os \<Longrightarrow> rem' \<noteq> 0 \<Longrightarrow>
   \<forall>x \<in> set os'. \<not> crosses a (o_price x)"
proof (induction symb a rem os arbitrary: rem' ts os' rule: fill.induct)
  case (2 symb a rem r rs)
  show ?case
  proof (cases "crosses a (o_price r)")
    case True
    with 2 show ?thesis by (auto simp: prioritised_def split: if_splits prod.splits)
  next
    case False
    with "2.prems" have "os' = r # rs" by simp
    moreover have "\<forall>x \<in> set rs. \<not> better (a_side a \<noteq> Buy) (o_price x) (o_price r)"
      using "2.prems"(2) by (simp add: prioritised_def)
    ultimately show ?thesis using False crosses_mono by auto
  qed
qed simp

section \<open>Laws of the queue operations\<close>

lemma dropWhile_better:
  assumes "prioritised buy os"
  shows "\<forall>y \<in> set (dropWhile (\<lambda>r. \<not> better buy p (o_price r)) os). better buy p (o_price y)"
  using assms
proof (induction os)
  case (Cons r os)
  from Cons.prems have pr: "prioritised buy os"
    and le: "\<forall>y \<in> set os. \<not> better buy (o_price y) (o_price r)"
    by (simp_all add: prioritised_def)
  show ?case
  proof (cases "better buy p (o_price r)")
    case True
    then have "\<forall>y \<in> set os. better buy p (o_price y)" using le better_trans by blast
    with True show ?thesis by simp
  next
    case False
    then have drop: "dropWhile (\<lambda>r. \<not> better buy p (o_price r)) (r # os) =
        dropWhile (\<lambda>r. \<not> better buy p (o_price r)) os" by simp
    show ?thesis unfolding drop by (rule Cons.IH [OF pr])
  qed
qed simp

lemma place_split:
  obtains xs ys where "os = xs @ ys" "place buy x os = xs @ x # ys"
    "\<forall>r \<in> set xs. \<not> better buy (o_price x) (o_price r)"
    "prioritised buy os \<longrightarrow> (\<forall>r \<in> set ys. better buy (o_price x) (o_price r))"
proof
  let ?P = "\<lambda>r. \<not> better buy (o_price x) (o_price r)"
  show "os = takeWhile ?P os @ dropWhile ?P os" by simp
  show "place buy x os = takeWhile ?P os @ x # dropWhile ?P os" by (simp add: place_def)
  show "\<forall>r \<in> set (takeWhile ?P os). ?P r" by (auto dest: set_takeWhileD)
  show "prioritised buy os \<longrightarrow> (\<forall>r \<in> set (dropWhile ?P os). better buy (o_price x) (o_price r))"
    using dropWhile_better by blast
qed

lemma set_place [simp]: "set (place buy x os) = insert x (set os)"
  by (rule place_split [of os buy x]) auto

lemma map_place_distinct:
  "distinct (map f (place buy x os)) \<longleftrightarrow> f x \<notin> f ` set os \<and> distinct (map f os)"
  by (rule place_split [of os buy x]) auto

lemma prioritised_place:
  assumes "prioritised buy os"
  shows "prioritised buy (place buy x os)"
proof (rule place_split [of os buy x])
  fix xs ys
  assume os: "os = xs @ ys" and pl: "place buy x os = xs @ x # ys"
    and xs: "\<forall>r \<in> set xs. \<not> better buy (o_price x) (o_price r)"
    and "prioritised buy os \<longrightarrow> (\<forall>r \<in> set ys. better buy (o_price x) (o_price r))"
  with assms have "\<forall>r \<in> set ys. \<not> better buy (o_price r) (o_price x)"
    by (auto simp: better_def split: if_splits)
  with assms xs show ?thesis
    unfolding pl unfolding os prioritised_def by (simp add: sorted_wrt_append)
qed

lemma set_withdraw [simp]: "set (withdraw oid os) = {r \<in> set os. o_id r \<noteq> oid}"
  by (auto simp: withdraw_def)

lemma distinct_withdraw: "distinct (map o_id os) \<Longrightarrow> distinct (map o_id (withdraw oid os))"
  by (simp add: withdraw_def distinct_map_filter)

lemma prioritised_withdraw: "prioritised buy os \<Longrightarrow> prioritised buy (withdraw oid os)"
  unfolding prioritised_def withdraw_def sorted_wrt_map by (rule sorted_wrt_filter)

lemma map_amend:
  assumes "\<And>r. g (f r) = g r"
  shows "map g (amend oid f os) = map g os"
  using assms by (simp add: amend_def)

section \<open>Every operation keeps the invariant\<close>

lemma spec_inv_set_opposite:
  assumes "spec_inv b" "fill symb a q (queue buy b) = (rem, ts, opp)"
  shows "spec_inv (set_queue buy opp b)"
  using assms(1) fill_subset [OF assms(2)] fill_ok [OF assms(2), of "sb_symbol_id b" buy]
  by (cases buy) (fastforce simp: spec_inv_sides set_queue_def)+

lemma spec_inv_place:
  assumes "spec_inv b" "order_ok (sb_symbol_id b) buy x" "o_id x \<notin> o_id ` set (all_orders b)"
    "\<forall>y \<in> set (queue (\<not> buy) b). better (\<not> buy) (o_price x) (o_price y)"
  shows "spec_inv (set_queue buy (place buy x (queue buy b)) b)"
  using assms
  by (cases buy)
    (auto simp: spec_inv_sides set_queue_def all_orders_def map_place_distinct prioritised_place
        better_def)

text \<open>
  When the remainder of an accepted order rests, it is a valid order with a fresh id, and
  what is left of the opposite side does not cross it.
\<close>

lemma spec_execute_rest:
  assumes inv: "spec_inv b" and none: "spec_reject a b = None"
    and f: "fill (sb_symbol_id b) a (a_quantity a) (queue (a_side a \<noteq> Buy) b) = (rem, ts, opp)"
    and rest: "can_rest a rem"
  shows "order_ok (sb_symbol_id b) (a_side a = Buy) (resting_order (sb_symbol_id b) a rem)"
    and "o_id (resting_order (sb_symbol_id b) a rem) \<notin>
      o_id ` set (all_orders (set_queue (a_side a \<noteq> Buy) opp b))"
    and "\<forall>y \<in> set (queue (a_side a \<noteq> Buy) (set_queue (a_side a \<noteq> Buy) opp b)).
      better (a_side a \<noteq> Buy) (o_price (resting_order (sb_symbol_id b) a rem)) (o_price y)"
proof -
  from rest have r: "a_type a = Limit" "a_tif a = GoodTillCancel" "rem > 0"
    by (simp_all add: can_rest_def)
  show "order_ok (sb_symbol_id b) (a_side a = Buy) (resting_order (sb_symbol_id b) a rem)"
    using none r fill_filled(2) [OF f]
    by (auto simp: spec_reject_def order_ok_def resting_order_def split: if_splits)
  have "a_id a \<notin> o_id ` set (all_orders b)"
    using none by (auto simp: spec_reject_def split: if_splits)
  then show "o_id (resting_order (sb_symbol_id b) a rem) \<notin>
      o_id ` set (all_orders (set_queue (a_side a \<noteq> Buy) opp b))"
    using fill_subset(1) [OF f] by (auto simp: all_orders_def set_queue_def queue_def resting_order_def)
  have "prioritised (a_side a \<noteq> Buy) (queue (a_side a \<noteq> Buy) b)"
    using inv unfolding spec_inv_def by blast
  with f r have "\<forall>y \<in> set opp. \<not> crosses a (o_price y)"
    using fill_exhausts by (metis word_gt_0)
  then show "\<forall>y \<in> set (queue (a_side a \<noteq> Buy) (set_queue (a_side a \<noteq> Buy) opp b)).
      better (a_side a \<noteq> Buy) (o_price (resting_order (sb_symbol_id b) a rem)) (o_price y)"
    using r by (auto simp: PriceCrosses_def better_def resting_order_def split: if_splits)
qed

lemma spec_execute_inv:
  assumes inv: "spec_inv b" and none: "spec_reject a b = None"
  shows "spec_inv (snd (spec_execute a b))"
proof -
  obtain rem ts opp where f:
    "fill (sb_symbol_id b) a (a_quantity a) (queue (a_side a \<noteq> Buy) b) = (rem, ts, opp)"
    by (cases "fill (sb_symbol_id b) a (a_quantity a) (queue (a_side a \<noteq> Buy) b)") auto
  let ?b1 = "set_queue (a_side a \<noteq> Buy) opp b"
  have b1: "spec_inv ?b1" by (rule spec_inv_set_opposite [OF inv f])
  show ?thesis
  proof (cases "can_rest a rem")
    case False
    with b1 f show ?thesis by (simp add: spec_execute_def)
  next
    case True
    note rest = spec_execute_rest [OF inv none f True]
    from spec_inv_place [OF b1 _ rest(2,3)] rest(1) True f show ?thesis
      by (simp add: spec_execute_def Let_def)
  qed
qed

lemma spec_add_inv: "spec_inv b \<Longrightarrow> spec_inv (snd (spec_add a b))"
  by (auto simp: spec_add_def spec_execute_inv split: option.splits)

lemma spec_remove_inv: "spec_inv b \<Longrightarrow> spec_inv (spec_remove oid b)"
  by (auto simp: spec_inv_sides spec_remove_def distinct_withdraw prioritised_withdraw)

lemma spec_cancel_inv: "spec_inv b \<Longrightarrow> spec_inv (snd (spec_cancel oid b))"
  by (auto simp: spec_cancel_def spec_remove_inv split: option.splits)

lemma spec_find_mem:
  "spec_find oid b = Some r \<Longrightarrow> r \<in> set (all_orders b) \<and> o_id r = oid"
  unfolding spec_find_def by (auto simp: find_Some_iff)

lemma order_ok_amend:
  assumes "order_ok symb buy r" "0 < q" "q \<le> o_remaining_quantity r"
  shows "order_ok symb buy (amend_order q r)"
proof -
  from assms have "unat q \<le> unat (o_remaining_quantity r)"
    "unat (o_remaining_quantity r) \<le> unat (o_quantity r)"
    by (auto simp: order_ok_def word_le_nat_alt)
  then have "unat q \<le> unat (o_quantity r - (o_remaining_quantity r - q))"
    by (subst unat_sub; simp add: unat_sub word_le_nat_alt)
  with assms show ?thesis by (simp add: order_ok_def amend_order_def word_le_nat_alt)
qed

lemma amend_ok:
  assumes "\<forall>x \<in> set os. order_ok symb buy x" "0 < q"
    "\<forall>x \<in> set os. o_id x = oid \<longrightarrow> q \<le> o_remaining_quantity x"
  shows "\<forall>x \<in> set (amend oid (amend_order q) os). order_ok symb buy x"
  using assms by (auto simp: amend_def order_ok_amend)

lemma spec_find_unique:
  assumes "spec_inv b" "spec_find oid b = Some r" "x \<in> set (all_orders b)" "o_id x = oid"
  shows "x = r"
  using assms spec_find_mem [OF assms(2)] unfolding spec_inv_def
  by (metis distinct_map inj_onD)

lemma amend_order_keeps [simp]:
  "o_id (amend_order q r) = o_id r" "o_price (amend_order q r) = o_price r"
  by (simp_all add: amend_order_def)

lemma amend_image:
  assumes "\<And>r. g (f r) = g r"
  shows "g ` set (amend oid f os) = g ` set os"
  using map_amend [of g f oid os] assms by (metis list.set_map)

lemma spec_amend_inv:
  assumes inv: "spec_inv b" and find: "spec_find oid b = Some r"
    and q: "0 < q" "q \<le> o_remaining_quantity r"
  shows "spec_inv (b\<lparr>sb_bids := amend oid (amend_order q) (sb_bids b),
    sb_asks := amend oid (amend_order q) (sb_asks b)\<rparr>)"
proof -
  let ?f = "amend oid (amend_order q)"
  have le: "\<forall>x \<in> set (sb_bids b). o_id x = oid \<longrightarrow> q \<le> o_remaining_quantity x"
    "\<forall>x \<in> set (sb_asks b). o_id x = oid \<longrightarrow> q \<le> o_remaining_quantity x"
    using q(2) spec_find_unique [OF inv find] by (auto simp: all_orders_def)
  have ids: "map o_id (?f os) = map o_id os" "o_id ` set (?f os) = o_id ` set os"
    and prices: "map o_price (?f os) = map o_price os" "o_price ` set (?f os) = o_price ` set os" for os
    by (simp_all add: map_amend amend_image)
  have sep: "(\<forall>x \<in> set xs. \<forall>y \<in> set ys. o_price x < o_price y) \<longleftrightarrow>
      (\<forall>p \<in> o_price ` set xs. \<forall>p' \<in> o_price ` set ys. p < p')" for xs ys by blast
  from inv have "(\<forall>x \<in> set (sb_bids b). order_ok (sb_symbol_id b) True x)"
    "(\<forall>x \<in> set (sb_asks b). order_ok (sb_symbol_id b) False x)"
    by (simp_all add: spec_inv_sides)
  then have ok: "\<forall>x \<in> set (?f (sb_bids b)). order_ok (sb_symbol_id b) True x"
    "\<forall>x \<in> set (?f (sb_asks b)). order_ok (sb_symbol_id b) False x"
    using amend_ok q(1) le by blast+
  have rest: "prioritised True (?f (sb_bids b))" "prioritised False (?f (sb_asks b))"
    "\<forall>x \<in> set (?f (sb_bids b)). \<forall>y \<in> set (?f (sb_asks b)). o_price x < o_price y"
    using inv unfolding spec_inv_sides prioritised_def prices sep by blast+
  from inv have "distinct (map o_id (?f (sb_bids b)))" "distinct (map o_id (?f (sb_asks b)))"
    "o_id ` set (?f (sb_bids b)) \<inter> o_id ` set (?f (sb_asks b)) = {}"
    by (simp_all add: spec_inv_sides ids)
  with ok rest show ?thesis by (simp add: spec_inv_sides)
qed

lemma spec_modify_inv: "spec_inv b \<Longrightarrow> spec_inv (snd (spec_modify oid p q seq ts b))"
proof (cases "spec_find oid b")
  case (Some r)
  assume inv: "spec_inv b"
  obtain add b' where add: "spec_add (replace_args r p q seq ts) (spec_remove oid b) = (add, b')"
    by fastforce
  have "spec_inv b'"
    using spec_add_inv [OF spec_remove_inv [OF inv]] add by (metis snd_conv)
  then show ?thesis
    using Some inv add spec_amend_inv [OF inv Some, of q]
    by (simp add: spec_modify_def word_gt_0)
qed (simp add: spec_modify_def)

section \<open>Sequences of operations, and what it means to implement the contract\<close>

datatype book_op =
    Add order_args
  | Cancel order_id
  | Modify order_id price quantity sequence_number timestamp

datatype book_out = AddOut add_result | CancelOut cancel_result | ModifyOut modify_result

fun spec_step :: "book_op \<Rightarrow> spec_book \<Rightarrow> book_out \<times> spec_book" where
  "spec_step (Add a) b = (case spec_add a b of (r, b') \<Rightarrow> (AddOut r, b'))"
| "spec_step (Cancel oid) b = (case spec_cancel oid b of (r, b') \<Rightarrow> (CancelOut r, b'))"
| "spec_step (Modify oid p q seq ts) b =
     (case spec_modify oid p q seq ts b of (r, b') \<Rightarrow> (ModifyOut r, b'))"

fun spec_run :: "book_op list \<Rightarrow> spec_book \<Rightarrow> book_out list \<times> spec_book" where
  "spec_run [] b = ([], b)"
| "spec_run (op # ops) b =
     (case spec_step op b of (out, b1) \<Rightarrow>
        (case spec_run ops b1 of (outs, b2) \<Rightarrow> (out # outs, b2)))"

text \<open>A run of an implementation stops at the first undefined step.\<close>

fun run_steps :: "('op \<Rightarrow> 's \<Rightarrow> ('out \<times> 's) option) \<Rightarrow> 'op list \<Rightarrow> 's \<Rightarrow> ('out list \<times> 's) option" where
  "run_steps step [] s = Some ([], s)"
| "run_steps step (op # ops) s =
     (case step op s of
        None \<Rightarrow> None
      | Some (out, s1) \<Rightarrow>
          (case run_steps step ops s1 of None \<Rightarrow> None | Some (outs, s2) \<Rightarrow> Some (out # outs, s2)))"

lemma spec_step_inv: "spec_inv b \<Longrightarrow> spec_inv (snd (spec_step op b))"
proof (cases op)
  case (Add a)
  assume "spec_inv b"
  from spec_add_inv [OF this, of a] show ?thesis by (simp add: Add case_prod_beta)
next
  case (Cancel oid)
  assume "spec_inv b"
  from spec_cancel_inv [OF this, of oid] show ?thesis by (simp add: Cancel case_prod_beta)
next
  case (Modify oid p q seq ts)
  assume "spec_inv b"
  from spec_modify_inv [OF this, of oid p q seq ts] show ?thesis by (simp add: Modify case_prod_beta)
qed

lemma fill_length:
  assumes "fill symb a rem os = (rem', ts, os')"
  shows "length os' \<le> length os"
  using fill_suffix [OF assms] by (metis diff_le_self length_drop length_map)

lemma length_place [simp]: "length (place buy x os) = Suc (length os)"
  by (rule place_split [of os buy x]) auto

lemma length_all_orders: "length (all_orders b) = length (queue buy b) + length (queue (\<not> buy) b)"
  by (cases buy) (simp_all add: all_orders_def)

lemma length_set_queue:
  "length (all_orders (set_queue buy os b)) = length os + length (queue (\<not> buy) b)"
  by (cases buy) (simp_all add: all_orders_def set_queue_def)

lemma spec_add_length: "length (all_orders (snd (spec_add a b))) \<le> Suc (length (all_orders b))"
proof -
  obtain rem ts opp where f:
    "fill (sb_symbol_id b) a (a_quantity a) (queue (a_side a \<noteq> Buy) b) = (rem, ts, opp)"
    by (metis prod_cases3)
  from fill_length [OF f] show ?thesis
    by (simp add: spec_add_def spec_execute_def f Let_def length_set_queue
        length_all_orders [of b "a_side a = Buy"] split: option.splits)
qed

lemma length_spec_remove:
  "length (all_orders (spec_remove oid b)) \<le> length (all_orders b)"
  "spec_find oid b = Some r \<Longrightarrow> length (all_orders (spec_remove oid b)) < length (all_orders b)"
proof -
  have eq: "all_orders (spec_remove oid b) = filter (\<lambda>r. o_id r \<noteq> oid) (all_orders b)"
    by (simp add: all_orders_def spec_remove_def withdraw_def)
  show "length (all_orders (spec_remove oid b)) \<le> length (all_orders b)" by (simp add: eq)
  assume "spec_find oid b = Some r"
  from spec_find_mem [OF this] show "length (all_orders (spec_remove oid b)) < length (all_orders b)"
    unfolding eq by (intro length_filter_less [of r]) auto
qed

lemma spec_modify_length:
  "length (all_orders (snd (spec_modify oid p q seq ts b))) \<le> length (all_orders b)"
proof (cases "spec_find oid b")
  case (Some r)
  obtain add b' where add: "spec_add (replace_args r p q seq ts) (spec_remove oid b) = (add, b')" by fastforce
  then have "length (all_orders b') \<le> Suc (length (all_orders (spec_remove oid b)))"
    using spec_add_length by (metis snd_conv)
  with length_spec_remove(2) [OF Some] add Some show ?thesis
    by (simp add: spec_modify_def all_orders_def amend_def)
qed (simp add: spec_modify_def)

lemma spec_step_length: "length (all_orders (snd (spec_step op b))) \<le> Suc (length (all_orders b))"
proof (cases op)
  case (Add a)
  with spec_add_length [of a b] show ?thesis by (simp add: case_prod_beta)
next
  case (Cancel oid)
  then show ?thesis
    using length_spec_remove(1) [of oid b]
    by (simp add: spec_cancel_def case_prod_beta split: option.splits)
next
  case (Modify oid p q seq ts)
  with spec_modify_length [of oid p q seq ts b] show ?thesis by (simp add: case_prod_beta)
qed

text \<open>
  The interface between a book and its implementations. \<open>rel\<close> relates an implementation
  state to the contract; \<open>room s n\<close> says that the state can hold \<open>n\<close> resting orders. A step
  with room for one more order is defined, answers as the contract does, and leads to related
  states. What follows for whole runs is proved here once.
\<close>

locale book_refinement =
  fixes step :: "book_op \<Rightarrow> 's \<Rightarrow> (book_out \<times> 's) option"
    and rel :: "'s \<Rightarrow> spec_book \<Rightarrow> bool"
    and room :: "'s \<Rightarrow> nat \<Rightarrow> bool"
  assumes step_refines: "rel s b \<Longrightarrow> room s (Suc (length (all_orders b))) \<Longrightarrow>
      \<exists>s'. step op s = Some (fst (spec_step op b), s') \<and> rel s' (snd (spec_step op b)) \<and>
        (\<forall>n. room s n \<longrightarrow> room s' n)"
    and room_mono: "room s n \<Longrightarrow> m \<le> n \<Longrightarrow> room s m"
begin

lemma run_refines:
  assumes "rel s b" "room s (length (all_orders b) + length ops)"
  shows "\<exists>s'. run_steps step ops s = Some (fst (spec_run ops b), s') \<and> rel s' (snd (spec_run ops b))"
  using assms
proof (induction ops arbitrary: s b)
  case (Cons op ops)
  have "room s (Suc (length (all_orders b)))"
    using Cons.prems(2) by (rule room_mono) simp
  from step_refines [OF Cons.prems(1) this, of op] obtain s1 where
    s1: "step op s = Some (fst (spec_step op b), s1)" "rel s1 (snd (spec_step op b))"
    and room: "\<forall>n. room s n \<longrightarrow> room s1 n" by blast
  have "room s1 (length (all_orders (snd (spec_step op b))) + length ops)"
  proof (rule room_mono)
    show "room s1 (length (all_orders b) + length (op # ops))" using room Cons.prems(2) by blast
    show "length (all_orders (snd (spec_step op b))) + length ops \<le> length (all_orders b) + length (op # ops)"
      using spec_step_length [of op b] by simp
  qed
  from Cons.IH [OF s1(2) this] obtain s2 where
    "run_steps step ops s1 = Some (fst (spec_run ops (snd (spec_step op b))), s2)"
    "rel s2 (snd (spec_run ops (snd (spec_step op b))))" by blast
  with s1 show ?case by (auto split: prod.splits)
qed auto

end

end
