(* ===== verification/Price_Levels.thy ===== *)
theory Price_Levels
  imports Book_Spec
begin

text \<open>
  The price levels of one side of a book: \<open>std::map<Price, PriceLevel, Compare>\<close> of
  \<open>naive::OrderBook\<close>, with the loops of \<open>src/naive/order_book.cpp\<close> that work on one side
  (\<open>Match\<close>, \<open>AvailableCrossingQuantity\<close>) and the level updates of \<open>InsertResting\<close>,
  \<open>RemoveFromBook\<close> and the in-place branch of \<open>ModifyOrder\<close>. The sources write each of them
  twice, once for \<open>bids_\<close> and once for \<open>asks_\<close>; the text is the same, so each is one
  definition here, applied to the one map or the other.

  An element of \<open>std::list<Order>\<close> is a node with an identity that iterators refer to, so the
  list of a level is a list of pairs of a node number and an order. The fast book's queues are
  described by the same lists, with pool slots for node numbers.

  The lemmas relate the levels of one side to the queue of the contract: \<open>flat\<close> concatenates
  the levels.
\<close>

section \<open>The operations on one side\<close>

type_synonym node_list = "(nat \<times> order) list"

record price_level =
  lv_price :: price
  lv_total_quantity :: quantity
  lv_orders :: node_list

type_synonym levels = "(price, price_level) ordered_map"

definition PriceLevel_init :: price_level where
  "PriceLevel_init = \<lparr>lv_price = Price 0, lv_total_quantity = 0, lv_orders = []\<rparr>"

text \<open>
  The inner loop of \<open>Match\<close> over the orders of one level. It returns what is left of the
  aggressor, the trades it appended, and the level's orders, its total and the id index as it
  left them; \<open>index_\<close> has the value type of the book that calls it.
\<close>

fun match_orders ::
  "symbol_id \<Rightarrow> order_args \<Rightarrow> quantity \<Rightarrow> node_list \<Rightarrow> quantity \<Rightarrow> (order_id, 'v) unordered_map \<Rightarrow>
   quantity \<times> trade list \<times> node_list \<times> quantity \<times> (order_id, 'v) unordered_map" where
  "match_orders symb a remaining [] tot index = (remaining, [], [], tot, index)"
| "match_orders symb a remaining ((n, resting) # orders) tot index =
     (if \<not> 0 < remaining then (remaining, [], (n, resting) # orders, tot, index)
      else
        let trade_qty = min remaining (o_remaining_quantity resting);
            trade = make_trade symb a resting trade_qty;
            left = o_remaining_quantity resting - trade_qty
        in if left = 0 then
             (case match_orders symb a (remaining - trade_qty) orders (tot - trade_qty)
                     (AList.delete (o_id resting) index) of
                (rem', ts, orders', tot', index') \<Rightarrow>
                  (rem', trade # ts, orders', tot', index'))
           else
             (case match_orders symb a (remaining - trade_qty) orders (tot - trade_qty) index of
                (rem', ts, orders', tot', index') \<Rightarrow>
                  (rem', trade # ts,
                   (n, resting\<lparr>o_remaining_quantity := left, o_status := PartiallyFilled\<rparr>) # orders',
                   tot', index')))"

text \<open>The outer loop of \<open>Match\<close> over the levels, best price first.\<close>

fun match_levels ::
  "symbol_id \<Rightarrow> order_args \<Rightarrow> quantity \<Rightarrow> levels \<Rightarrow> (order_id, 'v) unordered_map \<Rightarrow>
   quantity \<times> trade list \<times> levels \<times> (order_id, 'v) unordered_map" where
  "match_levels symb a remaining [] index = (remaining, [], [], index)"
| "match_levels symb a remaining ((p, level) # levels) index =
     (if \<not> 0 < remaining \<or> \<not> crosses a p then (remaining, [], (p, level) # levels, index)
      else
        case match_orders symb a remaining (lv_orders level) (lv_total_quantity level) index of
          (rem1, ts1, orders, tot, index1) \<Rightarrow>
            (case match_levels symb a rem1 levels index1 of
               (rem2, ts2, levels2, index2) \<Rightarrow>
                 (rem2, ts1 @ ts2,
                  (if orders = [] then levels2
                   else (p, level\<lparr>lv_total_quantity := tot, lv_orders := orders\<rparr>) # levels2),
                  index2)))"

text \<open>The loop of \<open>AvailableCrossingQuantity\<close>, with its accumulator.\<close>

fun available_levels :: "order_args \<Rightarrow> quantity \<Rightarrow> levels \<Rightarrow> quantity" where
  "available_levels a tot [] = tot"
| "available_levels a tot ((p, level) # levels) =
     (if \<not> crosses a p then tot
      else available_levels a (tot + lv_total_quantity level) levels)"

text \<open>The level update of \<open>InsertResting\<close>: \<open>n\<close> is the node that \<open>push_back\<close> allocates.\<close>

definition push_order :: "nat \<Rightarrow> order \<Rightarrow> price_level \<Rightarrow> price_level" where
  "push_order n x level =
     level\<lparr>lv_price := o_price x,
           lv_total_quantity := lv_total_quantity level + o_remaining_quantity x,
           lv_orders := lv_orders level @ [(n, x)]\<rparr>"

definition insert_level :: "(price \<Rightarrow> price \<Rightarrow> bool) \<Rightarrow> nat \<Rightarrow> order \<Rightarrow> levels \<Rightarrow> levels" where
  "insert_level lt n x ls = omap_at lt (o_price x) PriceLevel_init (push_order n x) ls"

text \<open>
  The level update of \<open>RemoveFromBook\<close> once the level is found: subtract the node's remaining
  quantity, erase the node, erase the level if that emptied it. The result is \<open>None\<close> when the
  node is not in the level's list, that is when the iterator dangles.
\<close>

definition remove_level :: "price \<Rightarrow> price_level \<Rightarrow> nat \<Rightarrow> levels \<Rightarrow> levels option" where
  "remove_level p level n ls =
     (case map_of (lv_orders level) n of
        None \<Rightarrow> None
      | Some x \<Rightarrow>
          let level' = level\<lparr>lv_total_quantity := lv_total_quantity level - o_remaining_quantity x,
                             lv_orders := AList.delete n (lv_orders level)\<rparr>
          in Some (if lv_orders level' = [] then omap_erase p ls else omap_put p level' ls))"

text \<open>
  The in-place branch of \<open>ModifyOrder\<close> on one side: the node's order is overwritten, then
  \<open>levels[price].total_quantity -= delta\<close>.
\<close>

definition amend_level ::
  "(price \<Rightarrow> price \<Rightarrow> bool) \<Rightarrow> price \<Rightarrow> price_level \<Rightarrow> nat \<Rightarrow> order \<Rightarrow> quantity \<Rightarrow> levels \<Rightarrow> levels" where
  "amend_level lt p level n x delta ls =
     omap_at lt p PriceLevel_init
       (\<lambda>l. l\<lparr>lv_total_quantity := lv_total_quantity l - delta\<rparr>)
       (omap_put p (level\<lparr>lv_orders := omap_put n x (lv_orders level)\<rparr>) ls)"

text \<open>\<open>QuantityAt\<close> and \<open>OrderCountAt\<close> on one side, and the first price of the map.\<close>

definition level_quantity :: "price \<Rightarrow> levels \<Rightarrow> quantity" where
  "level_quantity p ls = (case map_of ls p of None \<Rightarrow> 0 | Some l \<Rightarrow> lv_total_quantity l)"

definition level_count :: "price \<Rightarrow> levels \<Rightarrow> nat" where
  "level_count p ls = (case map_of ls p of None \<Rightarrow> 0 | Some l \<Rightarrow> length (lv_orders l))"

definition first_price :: "(price \<times> 'l) list \<Rightarrow> price" where
  "first_price ls = (case ls of [] \<Rightarrow> kInvalidPrice | e # _ \<Rightarrow> fst e)"

section \<open>The invariant of one side, and its queue\<close>

definition nodes :: "levels \<Rightarrow> node_list" where
  "nodes ls = concat (map (\<lambda>e. lv_orders (snd e)) ls)"

definition flat :: "levels \<Rightarrow> order list" where
  "flat ls = map snd (nodes ls)"

definition level_total :: "node_list \<Rightarrow> quantity" where
  "level_total ns = sum_list (map (\<lambda>e. o_remaining_quantity (snd e)) ns)"

definition level_ok :: "symbol_id \<Rightarrow> bool \<Rightarrow> price \<Rightarrow> price_level \<Rightarrow> bool" where
  "level_ok symb buy p level \<longleftrightarrow>
     lv_price level = p \<and> lv_orders level \<noteq> [] \<and>
     lv_total_quantity level = level_total (lv_orders level) \<and>
     (\<forall>e \<in> set (lv_orders level). o_price (snd e) = p \<and> order_ok symb buy (snd e))"

definition levels_ok :: "symbol_id \<Rightarrow> bool \<Rightarrow> levels \<Rightarrow> bool" where
  "levels_ok symb buy ls \<longleftrightarrow>
     sorted_wrt (better buy) (map fst ls) \<and> (\<forall>e \<in> set ls. level_ok symb buy (fst e) (snd e))"

interpretation side_order: map_order "better buy" for buy
  by unfold_locales (auto simp: better_def split: if_splits)

lemma better_std: "better True = (>)" "better False = (<)"
  by (auto simp: better_def fun_eq_iff)

lemma nodes_simps [simp]:
  "nodes [] = []" "nodes ((p, l) # ls) = lv_orders l @ nodes ls"
  "nodes (ls @ ls') = nodes ls @ nodes ls'"
  by (simp_all add: nodes_def)

lemma flat_simps [simp]:
  "flat [] = []" "flat ((p, l) # ls) = map snd (lv_orders l) @ flat ls"
  "flat (ls @ ls') = flat ls @ flat ls'"
  by (simp_all add: flat_def)

lemma set_flat: "set (flat ls) = snd ` set (nodes ls)"
  by (simp add: flat_def)

lemma level_total_simps [simp]:
  "level_total [] = 0" "level_total (e # ns) = o_remaining_quantity (snd e) + level_total ns"
  "level_total (ns @ ns') = level_total ns + level_total ns'"
  by (simp_all add: level_total_def)

lemma levels_ok_simps [simp]:
  "levels_ok symb buy []"
  "levels_ok symb buy ((p, l) # ls) \<longleftrightarrow>
     level_ok symb buy p l \<and> (\<forall>e \<in> set ls. better buy p (fst e)) \<and> levels_ok symb buy ls"
  by (auto simp: levels_ok_def)

lemma levels_ok_nodes:
  assumes "levels_ok symb buy ls" "e \<in> set (nodes ls)"
  shows "order_ok symb buy (snd e)" "o_price (snd e) \<in> fst ` set ls"
  using assms by (auto simp: levels_ok_def nodes_def level_ok_def)

lemma levels_ok_flat:
  assumes "levels_ok symb buy ls"
  shows "\<forall>x \<in> set (flat ls). order_ok symb buy x \<and> o_price x \<in> fst ` set ls"
  using levels_ok_nodes [OF assms] by (auto simp: set_flat)

lemma flat_eq_Nil: "levels_ok symb buy ls \<Longrightarrow> flat ls = [] \<longleftrightarrow> ls = []"
  by (cases ls) (auto simp: level_ok_def)

lemma flat_prices: "levels_ok symb buy ls \<Longrightarrow> o_price ` set (flat ls) = fst ` set ls"
proof (induction ls)
  case (Cons e ls)
  obtain p l where e: "e = (p, l)" by (cases e)
  with Cons.prems have "(\<lambda>x. o_price (snd x)) ` set (lv_orders l) = {p}"
    by (cases "lv_orders l") (auto simp: level_ok_def)
  with Cons e show ?case by (auto simp: image_image image_Un)
qed simp

lemma prioritised_append:
  "prioritised buy (xs @ ys) \<longleftrightarrow> prioritised buy xs \<and> prioritised buy ys \<and>
     (\<forall>x \<in> set xs. \<forall>y \<in> set ys. \<not> better buy (o_price y) (o_price x))"
  by (auto simp: prioritised_def sorted_wrt_append)

lemma prioritised_same: "\<forall>x \<in> set xs. o_price x = p \<Longrightarrow> prioritised buy xs"
  by (induction xs) (auto simp: prioritised_def better_def)

lemma prioritised_flat: "levels_ok symb buy ls \<Longrightarrow> prioritised buy (flat ls)"
proof (induction ls)
  case Nil
  show ?case by (simp add: prioritised_def)
next
  case (Cons e ls)
  obtain p l where e: "e = (p, l)" by (cases e)
  with Cons.prems have l: "\<forall>x \<in> set (map snd (lv_orders l)). o_price x = p"
    and ls: "levels_ok symb buy ls" and lt: "\<forall>e \<in> set ls. better buy p (fst e)"
    by (auto simp: level_ok_def)
  from lt have "\<forall>y \<in> set (flat ls). better buy p (o_price y)"
    using levels_ok_flat [OF ls] by fastforce
  with l have "\<forall>x \<in> set (map snd (lv_orders l)). \<forall>y \<in> set (flat ls). \<not> better buy (o_price y) (o_price x)"
    using side_order.lt_asym by metis
  with Cons.IH [OF ls] prioritised_same [OF l] e show ?case by (simp add: prioritised_append)
qed

section \<open>Matching on levels is execution on the queue\<close>

lemma fill_zero [simp]: "fill symb a 0 os = (0, [], os)"
  by (cases os) simp_all

lemma match_orders_zero [simp]: "match_orders symb a 0 ns tot idx = (0, [], ns, tot, idx)"
  by (cases ns) auto

lemma match_levels_zero [simp]: "match_levels symb a 0 ls idx = (0, [], ls, idx)"
  by (cases ls) auto

lemma fill_append:
  "fill symb a rem (xs @ ys) =
     (case fill symb a rem xs of (rem1, ts1, xs') \<Rightarrow>
        if xs' \<noteq> [] then (rem1, ts1, xs' @ ys)
        else (case fill symb a rem1 ys of (rem2, ts2, ys') \<Rightarrow> (rem2, ts1 @ ts2, ys')))"
  by (induction xs arbitrary: rem) (auto split: prod.splits)

lemma fill_stops: "\<forall>x \<in> set os. \<not> crosses a (o_price x) \<Longrightarrow> fill symb a rem os = (rem, [], os)"
  by (cases os) auto

text \<open>
  What identifies a node in the id index: neither matching nor amending changes it.
\<close>

definition node_key :: "nat \<times> order \<Rightarrow> nat \<times> order_id \<times> price \<times> side" where
  "node_key e = (fst e, o_id (snd e), o_price (snd e), o_side (snd e))"

abbreviation node_ids :: "node_list \<Rightarrow> order_id list" where
  "node_ids ns \<equiv> map (\<lambda>e. o_id (snd e)) ns"

text \<open>One step of the inner loop, by the size of the resting order.\<close>

lemma match_orders_step:
  assumes "0 < rem"
  shows "o_remaining_quantity r \<le> rem \<Longrightarrow>
      match_orders symb a rem ((n, r) # ns) tot idx =
        (case match_orders symb a (rem - o_remaining_quantity r) ns (tot - o_remaining_quantity r)
                (AList.delete (o_id r) idx) of
           (rem', ts, ns', tot', idx') \<Rightarrow>
             (rem', make_trade symb a r (o_remaining_quantity r) # ts, ns', tot', idx'))"
    and "\<not> o_remaining_quantity r \<le> rem \<Longrightarrow>
      match_orders symb a rem ((n, r) # ns) tot idx =
        (0, [make_trade symb a r rem],
         (n, r\<lparr>o_remaining_quantity := o_remaining_quantity r - rem,
               o_status := PartiallyFilled\<rparr>) # ns, tot - rem, idx)"
  using assms by (auto simp: min_def Let_def split: prod.splits)

lemma match_orders_facts:
  assumes "match_orders symb a rem ns tot idx = (rem', ts, ns', tot', idx')"
  shows "tot' - level_total ns' = tot - level_total ns"
    and "ns' \<noteq> [] \<Longrightarrow> rem' = 0"
    and "\<exists>k. map node_key ns' = map node_key (drop k ns) \<and>
             idx' = fold AList.delete (node_ids (take k ns)) idx"
    and "\<forall>e \<in> set ns. crosses a (o_price (snd e)) \<Longrightarrow>
         fill symb a rem (map snd ns) = (rem', ts, map snd ns')"
proof (atomize (full), insert assms, induction ns arbitrary: rem ts rem' ns' tot tot' idx idx')
  case Nil
  then show ?case by simp
next
  case (Cons e ns)
  obtain n r where e: "e = (n, r)" by (cases e)
  consider "rem = 0" | "0 < rem" "o_remaining_quantity r \<le> rem" | "0 < rem" "\<not> o_remaining_quantity r \<le> rem"
    by (auto simp: word_gt_0)
  then show ?case
  proof cases
    case 1
    with Cons.prems show ?thesis by (auto intro: exI [of _ 0])
  next
    case 2
    obtain ts1 where rec: "match_orders symb a (rem - o_remaining_quantity r) ns
        (tot - o_remaining_quantity r) (AList.delete (o_id r) idx) = (rem', ts1, ns', tot', idx')"
      and ts: "ts = make_trade symb a r (o_remaining_quantity r) # ts1"
      using Cons.prems unfolding e match_orders_step(1) [OF 2] by (auto split: prod.splits)
    from Cons.IH [OF rec] obtain k where tot: "tot' - level_total ns' = tot - o_remaining_quantity r - level_total ns"
      and rem': "ns' \<noteq> [] \<longrightarrow> rem' = 0"
      and k: "map node_key ns' = map node_key (drop k ns)"
        "idx' = fold AList.delete (node_ids (take k ns)) (AList.delete (o_id r) idx)"
      and f: "(\<forall>e \<in> set ns. crosses a (o_price (snd e))) \<longrightarrow>
         fill symb a (rem - o_remaining_quantity r) (map snd ns) = (rem', ts1, map snd ns')"
      by blast
    have "\<exists>k. map node_key ns' = map node_key (drop k (e # ns)) \<and>
         idx' = fold AList.delete (node_ids (take k (e # ns))) idx"
      by (rule exI [of _ "Suc k"]) (simp add: e k)
    with tot rem' f 2 show ?thesis by (auto simp: e ts algebra_simps)
  next
    case 3
    note res = Cons.prems [unfolded e match_orders_step(2) [OF 3]]
    from res have "\<exists>k. map node_key ns' = map node_key (drop k (e # ns)) \<and>
         idx' = fold AList.delete (node_ids (take k (e # ns))) idx"
      by (intro exI [of _ 0]) (auto simp: e node_key_def)
    with res 3 show ?thesis by (auto simp: e algebra_simps)
  qed
qed

lemma match_orders_level_ok:
  assumes "match_orders symb a rem (lv_orders l) (lv_total_quantity l) idx = (rem', ts, ns', tot', idx')"
    and "level_ok symb' buy p l" "crosses a p" "ns' \<noteq> []"
  shows "level_ok symb' buy p (l\<lparr>lv_total_quantity := tot', lv_orders := ns'\<rparr>)"
proof -
  note facts = match_orders_facts [OF assms(1)]
  from assms(2,3) have f: "fill symb a rem (map snd (lv_orders l)) = (rem', ts, map snd ns')"
    by (intro facts(4)) (auto simp: level_ok_def)
  from assms(2) have "\<forall>x \<in> set (map snd (lv_orders l)). order_ok symb' buy x" by (auto simp: level_ok_def)
  from fill_ok [OF f this] have ok: "\<forall>x \<in> set (map snd ns'). order_ok symb' buy x" .
  have "o_price ` set (map snd ns') \<subseteq> o_price ` set (map snd (lv_orders l))"
    by (rule fill_subset(2) [OF f])
  then have "\<forall>x \<in> set (map snd ns'). o_price x = p" using assms(2) by (fastforce simp: level_ok_def)
  with ok assms(2,4) facts(1) show ?thesis by (auto simp: level_ok_def)
qed

lemma match_levels_facts:
  assumes "match_levels symb a rem ls idx = (rem', ts, ls', idx')" "levels_ok symb' buy ls"
  shows "fill symb a rem (flat ls) = (rem', ts, flat ls')" (is ?F)
    and "levels_ok symb' buy ls'" (is ?O)
    and "fst ` set ls' \<subseteq> fst ` set ls" (is ?P)
    and "\<exists>k. map node_key (nodes ls') = map node_key (drop k (nodes ls)) \<and>
             idx' = fold AList.delete (node_ids (take k (nodes ls))) idx" (is ?K)
proof -
  have "?F \<and> ?O \<and> ?P \<and> ?K"
    using assms
  proof (induction ls arbitrary: rem ts rem' ls' idx idx')
    case Nil
    then show ?case by simp
  next
    case (Cons e ls)
    obtain p l where e: "e = (p, l)" by (cases e)
    from Cons.prems(2) have l: "level_ok symb' buy p l" and ls: "levels_ok symb' buy ls"
      and lt: "\<forall>e \<in> set ls. better buy p (fst e)" by (auto simp: e)
    show ?case
    proof (cases "0 < rem \<and> crosses a p")
      case False
      with Cons.prems have eq: "rem' = rem" "ts = []" "ls' = e # ls" "idx' = idx" by (auto simp: e)
      obtain n r ns where "lv_orders l = (n, r) # ns" "o_price r = p"
        using l by (cases "lv_orders l") (auto simp: level_ok_def)
      with False have "fill symb a rem (flat (e # ls)) = (rem, [], flat (e # ls))"
        by (auto simp: e word_gt_0)
      with Cons.prems(2) eq show ?thesis by (auto intro: exI [of _ 0])
    next
      case True
      obtain rem1 ts1 ns1 tot1 idx1 rem2 ts2 ls2 idx2
        where m1: "match_orders symb a rem (lv_orders l) (lv_total_quantity l) idx = (rem1, ts1, ns1, tot1, idx1)"
          and m2: "match_levels symb a rem1 ls idx1 = (rem2, ts2, ls2, idx2)"
        by (metis prod_cases4 prod_cases5)
      with Cons.prems(1) True have res: "rem' = rem2" "ts = ts1 @ ts2" "idx' = idx2"
        "ls' = (if ns1 = [] then ls2
                else (p, l\<lparr>lv_total_quantity := tot1, lv_orders := ns1\<rparr>) # ls2)"
        by (auto simp: e)
      note f1 = match_orders_facts [OF m1]
      from f1(3) obtain k where k: "map node_key ns1 = map node_key (drop k (lv_orders l))"
        "idx1 = fold AList.delete (node_ids (take k (lv_orders l))) idx" by blast
      from l True have fill1: "fill symb a rem (map snd (lv_orders l)) = (rem1, ts1, map snd ns1)"
        by (intro f1(4)) (auto simp: level_ok_def)
      show ?thesis
      proof (cases "ns1 = []")
        case False
        with f1(2) have "rem1 = 0" by simp
        with m2 have eq: "rem2 = 0" "ts2 = []" "ls2 = ls" "idx2 = idx1" by auto
        have "map node_key (nodes ls') = map node_key (drop (min k (length (lv_orders l))) (nodes (e # ls)))"
          using False k(1) by (simp add: e res eq min_def)
        moreover have "idx' = fold AList.delete (node_ids (take (min k (length (lv_orders l))) (nodes (e # ls)))) idx"
          by (simp add: e res eq k(2) min_def)
        ultimately have K: "\<exists>k. map node_key (nodes ls') = map node_key (drop k (nodes (e # ls))) \<and>
            idx' = fold AList.delete (node_ids (take k (nodes (e # ls)))) idx" by blast
        have "levels_ok symb' buy ls'"
          using False match_orders_level_ok [OF m1 l] True lt ls by (simp add: res eq)
        with K fill1 False \<open>rem1 = 0\<close> show ?thesis by (auto simp: e res eq fill_append)
      next
        case True
        with k have all: "length (lv_orders l) \<le> k" by simp
        from Cons.IH [OF m2 ls] obtain k2 where
          IH: "fill symb a rem1 (flat ls) = (rem2, ts2, flat ls2)" "levels_ok symb' buy ls2"
            "fst ` set ls2 \<subseteq> fst ` set ls"
          and k2: "map node_key (nodes ls2) = map node_key (drop k2 (nodes ls))"
            "idx2 = fold AList.delete (node_ids (take k2 (nodes ls))) idx1" by blast
        have "\<exists>k. map node_key (nodes ls') = map node_key (drop k (nodes (e # ls))) \<and>
            idx' = fold AList.delete (node_ids (take k (nodes (e # ls)))) idx"
          using all by (intro exI [of _ "length (lv_orders l) + k2"]) (simp add: e res True k k2)
        with IH fill1 True show ?thesis by (auto simp: e res fill_append)
      qed
    qed
  qed
  then show ?F ?O ?P ?K by blast+
qed

section \<open>Availability and the observers\<close>

lemma available_levels_acc: "available_levels a tot ls = tot + available_levels a 0 ls"
proof (induction ls arbitrary: tot)
  case (Cons e ls)
  obtain p l where e: "e = (p, l)" by (cases e)
  from Cons [of "tot + lv_total_quantity l"] Cons [of "lv_total_quantity l"]
  show ?case by (simp add: e)
qed simp

lemma available_level:
  assumes "level_ok symb buy p l"
  shows "available a (map snd (lv_orders l) @ os) =
    (if crosses a p then lv_total_quantity l + available a os else 0)"
proof (cases "crosses a p")
  case True
  then have "takeWhile (\<lambda>r. crosses a (o_price r)) (map snd (lv_orders l) @ os) =
      map snd (lv_orders l) @ takeWhile (\<lambda>r. crosses a (o_price r)) os"
    using assms by (intro takeWhile_append2) (auto simp: level_ok_def)
  with True assms show ?thesis
    by (simp add: available_def level_ok_def level_total_def o_def)
next
  case False
  with assms show ?thesis
    by (cases "lv_orders l") (auto simp: available_def level_ok_def)
qed

lemma available_flat: "levels_ok symb buy ls \<Longrightarrow> available_levels a 0 ls = available a (flat ls)"
proof (induction ls)
  case (Cons e ls)
  obtain p l where e: "e = (p, l)" by (cases e)
  with Cons.prems have l: "level_ok symb buy p l" and ls: "levels_ok symb buy ls" by auto
  from Cons.IH [OF ls] available_level [OF l] show ?case
    using available_levels_acc [of a "lv_total_quantity l" ls] by (simp add: e)
qed (simp add: available_def)

lemma filter_price_flat:
  "levels_ok symb buy ls \<Longrightarrow> filter (\<lambda>r. o_price r = p) (flat ls) =
    (case map_of ls p of None \<Rightarrow> [] | Some l \<Rightarrow> map snd (lv_orders l))"
proof (induction ls)
  case (Cons e ls)
  obtain q l where e: "e = (q, l)" by (cases e)
  with Cons.prems have l: "level_ok symb buy q l" and ls: "levels_ok symb buy ls"
    and lt: "\<forall>e \<in> set ls. better buy q (fst e)" by auto
  show ?case
  proof (cases "q = p")
    case True
    then have "map_of ls p = None"
      using lt side_order.lt_irrefl by (fastforce simp: map_of_eq_None_iff)
    with True l Cons.IH [OF ls] show ?thesis by (auto simp: e level_ok_def filter_id_conv)
  next
    case False
    with l have "filter (\<lambda>r. o_price r = p) (map snd (lv_orders l)) = []"
      by (auto simp: level_ok_def filter_empty_conv)
    with False Cons.IH [OF ls] show ?thesis by (simp add: e)
  qed
qed simp

lemma levels_ok_find: "levels_ok symb buy ls \<Longrightarrow> map_of ls p = Some l \<Longrightarrow> level_ok symb buy p l"
  by (auto simp: levels_ok_def dest!: map_of_SomeD)

lemma level_quantity_flat:
  "levels_ok symb buy ls \<Longrightarrow> level_quantity p ls =
    sum_list (map o_remaining_quantity (filter (\<lambda>r. o_price r = p) (flat ls)))"
  using levels_ok_find [of symb buy ls p]
  by (auto simp: filter_price_flat level_quantity_def level_ok_def level_total_def o_def
      split: option.splits)

lemma level_count_flat:
  "levels_ok symb buy ls \<Longrightarrow> level_count p ls = length (filter (\<lambda>r. o_price r = p) (flat ls))"
  by (auto simp: filter_price_flat level_count_def split: option.splits)

lemma first_price_flat:
  "levels_ok symb buy ls \<Longrightarrow>
   first_price ls = (case flat ls of [] \<Rightarrow> kInvalidPrice | r # _ \<Rightarrow> o_price r)"
proof (cases ls)
  case (Cons e ls')
  assume ok: "levels_ok symb buy ls"
  obtain p l where e: "e = (p, l)" by (cases e)
  with ok Cons obtain n r ns where "lv_orders l = (n, r) # ns" "o_price r = p"
    by (cases "lv_orders l") (auto simp: level_ok_def)
  then show ?thesis by (simp add: Cons e first_price_def)
qed (simp add: first_price_def)

section \<open>Inserting, removing and amending a node\<close>

lemma place_at:
  assumes "\<forall>r \<in> set xs. \<not> better buy (o_price x) (o_price r)" "\<forall>r \<in> set ys. better buy (o_price x) (o_price r)"
  shows "place buy x (xs @ ys) = xs @ x # ys"
  using assms by (cases ys) (auto simp: place_def takeWhile_append2 dropWhile_append2)

lemma levels_ok_split:
  assumes "\<forall>e \<in> set pre. better buy (fst e) p" "\<forall>e \<in> set post. better buy p (fst e)"
  shows "levels_ok symb buy (pre @ (p, l) # post) \<longleftrightarrow>
    levels_ok symb buy (pre @ post) \<and> level_ok symb buy p l"
  using side_order.sorted_split [OF assms, of l] by (auto simp: levels_ok_def)

lemma flat_pre_post:
  assumes "levels_ok symb buy (pre @ post)"
    "\<forall>e \<in> set pre. better buy (fst e) p" "\<forall>e \<in> set post. better buy p (fst e)"
  shows "\<forall>r \<in> set (flat pre). better buy (o_price r) p" "\<forall>r \<in> set (flat post). better buy p (o_price r)"
proof -
  from assms(1) have "levels_ok symb buy pre" "levels_ok symb buy post"
    by (auto simp: levels_ok_def sorted_wrt_append)
  then show "\<forall>r \<in> set (flat pre). better buy (o_price r) p" "\<forall>r \<in> set (flat post). better buy p (o_price r)"
    using assms(2,3) levels_ok_flat by fastforce+
qed

lemma insert_level_facts:
  assumes ok: "levels_ok symb buy ls" and x: "order_ok symb buy x"
  shows "levels_ok symb buy (insert_level (better buy) n x ls)" (is ?O)
    and "flat (insert_level (better buy) n x ls) = place buy x (flat ls)" (is ?F)
    and "\<exists>A B. nodes ls = A @ B \<and> nodes (insert_level (better buy) n x ls) = A @ (n, x) # B" (is ?N)
proof -
  let ?p = "o_price x"
  have sorted: "sorted_wrt (better buy) (map fst ls)" using ok by (simp add: levels_ok_def)
  have "?O \<and> ?F \<and> ?N"
  proof (cases "map_of ls ?p")
    case None
    with sorted obtain pre post where ls: "ls = pre @ post"
      and pp: "\<forall>e \<in> set pre. better buy (fst e) ?p" "\<forall>e \<in> set post. better buy ?p (fst e)"
      by (rule side_order.split_absent)
    have ins: "insert_level (better buy) n x ls = pre @ (?p, push_order n x PriceLevel_init) # post"
      unfolding insert_level_def ls by (rule side_order.omap_at_split(1) [OF pp])
    have "level_ok symb buy ?p (push_order n x PriceLevel_init)"
      using x by (auto simp: level_ok_def push_order_def PriceLevel_init_def)
    then have O: ?O using ok unfolding ins by (simp add: ls levels_ok_split [OF pp])
    have "place buy x (flat pre @ flat post) = flat pre @ x # flat post"
      using flat_pre_post [OF ok [unfolded ls] pp] side_order.lt_asym by (intro place_at) blast+
    then have F: ?F unfolding ins by (simp add: ls push_order_def PriceLevel_init_def)
    have ?N unfolding ins
      by (intro exI [of _ "nodes pre"] exI [of _ "nodes post"])
        (simp add: ls push_order_def PriceLevel_init_def)
    with O F show ?thesis by blast
  next
    case (Some l)
    with sorted obtain pre post where ls: "ls = pre @ (?p, l) # post"
      and pp: "\<forall>e \<in> set pre. better buy (fst e) ?p" "\<forall>e \<in> set post. better buy ?p (fst e)"
      by (rule side_order.split_present)
    from ok have ok': "levels_ok symb buy (pre @ post)" "level_ok symb buy ?p l"
      by (simp_all add: ls levels_ok_split [OF pp])
    have ins: "insert_level (better buy) n x ls = pre @ (?p, push_order n x l) # post"
      unfolding insert_level_def ls by (rule side_order.omap_at_split(2) [OF pp])
    have "level_ok symb buy ?p (push_order n x l)"
      using x ok'(2) by (auto simp: level_ok_def push_order_def)
    then have O: ?O using ok' by (simp add: ins levels_ok_split [OF pp])
    have "place buy x ((flat pre @ map snd (lv_orders l)) @ flat post) =
        (flat pre @ map snd (lv_orders l)) @ x # flat post"
    proof (rule place_at)
      show "\<forall>r \<in> set (flat pre @ map snd (lv_orders l)). \<not> better buy ?p (o_price r)"
        using flat_pre_post(1) [OF ok'(1) pp] ok'(2) side_order.lt_asym side_order.lt_irrefl
        by (fastforce simp: level_ok_def)
      show "\<forall>r \<in> set (flat post). better buy ?p (o_price r)"
        by (rule flat_pre_post(2) [OF ok'(1) pp])
    qed
    then have F: ?F unfolding ins by (simp add: ls push_order_def)
    have ?N unfolding ins by (intro exI [of _ "nodes pre @ lv_orders l"] exI [of _ "nodes post"])
        (simp add: ls push_order_def)
    with O F show ?thesis by blast
  qed
  then show ?O ?F ?N by blast+
qed

lemma delete_split:
  assumes "distinct (map fst (xs @ (n, x) # ys))"
  shows "AList.delete n (xs @ (n, x) # ys) = xs @ ys"
proof -
  have "AList.delete n (xs @ (n, x) # ys) = AList.delete n xs @ AList.delete n ys"
    by (simp add: AList.delete_eq)
  with assms show ?thesis by simp
qed

lemma put_split:
  assumes "distinct (map fst (xs @ (n, x) # ys))"
  shows "omap_put n x' (xs @ (n, x) # ys) = xs @ (n, x') # ys"
  using assms by (simp add: omap_put_def map_if_fresh)

text \<open>A level that is found, and a node found in it, split the side around the node.\<close>

lemma node_split:
  assumes ok: "levels_ok symb buy ls" and l: "map_of ls p = Some l" and n: "map_of (lv_orders l) n = Some x"
  obtains pre post A B where
    "ls = pre @ (p, l) # post" "lv_orders l = A @ (n, x) # B"
    "nodes ls = (nodes pre @ A) @ (n, x) # (B @ nodes post)"
    "\<forall>e \<in> set pre. better buy (fst e) p" "\<forall>e \<in> set post. better buy p (fst e)"
    "levels_ok symb buy (pre @ post)" "level_ok symb buy p l"
proof -
  have "sorted_wrt (better buy) (map fst ls)" using ok by (simp add: levels_ok_def)
  from side_order.split_present [OF this l] obtain pre post where ls: "ls = pre @ (p, l) # post"
    and pp: "\<forall>e \<in> set pre. better buy (fst e) p" "\<forall>e \<in> set post. better buy p (fst e)" .
  obtain A B where "lv_orders l = A @ (n, x) # B"
    using map_of_SomeD [OF n] by (meson split_list)
  moreover have "levels_ok symb buy (pre @ post)" "level_ok symb buy p l"
    using ok by (simp_all add: ls levels_ok_split [OF pp])
  ultimately show thesis using ls pp by (intro that [of pre post A B]) simp_all
qed

lemma node_level:
  assumes ok: "levels_ok symb buy ls" and e: "(n, x) \<in> set (nodes ls)" and dist: "distinct (map fst (nodes ls))"
  obtains l where "map_of ls (o_price x) = Some l" "map_of (lv_orders l) n = Some x"
proof -
  from e obtain p l where pl: "(p, l) \<in> set ls" "(n, x) \<in> set (lv_orders l)"
    by (auto simp: nodes_def)
  then have p: "p = o_price x" using ok by (fastforce simp: levels_ok_def level_ok_def)
  have "distinct (map fst ls)"
    using ok by (intro side_order.sorted_distinct [of buy]) (simp add: levels_ok_def)
  then have "map_of ls (o_price x) = Some l" using pl(1) p by simp
  moreover have "distinct (map fst (lv_orders l))"
    using dist pl(1) by (auto simp: nodes_def map_concat dest!: split_list)
  then have "map_of (lv_orders l) n = Some x" using pl(2) by simp
  ultimately show thesis by (rule that)
qed

lemma remove_level_facts:
  assumes ok: "levels_ok symb buy ls" and l: "map_of ls p = Some l" and n: "map_of (lv_orders l) n = Some x"
    and dist: "distinct (map fst (nodes ls))"
  shows "\<exists>ls' A B. remove_level p l n ls = Some ls' \<and> levels_ok symb buy ls' \<and>
    nodes ls = A @ (n, x) # B \<and> nodes ls' = A @ B"
proof -
  from node_split [OF ok l n] obtain pre post A B where ls: "ls = pre @ (p, l) # post"
    and lo: "lv_orders l = A @ (n, x) # B" and ns: "nodes ls = (nodes pre @ A) @ (n, x) # (B @ nodes post)"
    and pp: "\<forall>e \<in> set pre. better buy (fst e) p" "\<forall>e \<in> set post. better buy p (fst e)"
    and ok': "levels_ok symb buy (pre @ post)" "level_ok symb buy p l" .
  have del: "AList.delete n (lv_orders l) = A @ B"
    using dist unfolding lo by (intro delete_split) (auto simp: ls lo)
  let ?l' = "l\<lparr>lv_total_quantity := lv_total_quantity l - o_remaining_quantity x, lv_orders := A @ B\<rparr>"
  have l': "A @ B \<noteq> [] \<Longrightarrow> level_ok symb buy p ?l'"
    using ok'(2) by (auto simp: level_ok_def lo)
  show ?thesis
  proof (cases "A @ B = []")
    case True
    have "remove_level p l n ls = Some (pre @ post)"
      using True n del side_order.omap_erase_split [OF pp] by (simp add: remove_level_def ls)
    with ok' ns True show ?thesis by auto
  next
    case False
    have "remove_level p l n ls = Some (pre @ (p, ?l') # post)"
      using False n del side_order.omap_put_split [OF pp] by (auto simp: remove_level_def ls)
    moreover have "levels_ok symb buy (pre @ (p, ?l') # post)"
      using ok'(1) l' False by (simp add: levels_ok_split [OF pp])
    moreover have "nodes (pre @ (p, ?l') # post) = (nodes pre @ A) @ (B @ nodes post)" by simp
    ultimately show ?thesis using ns by blast
  qed
qed

lemma amend_level_facts:
  assumes ok: "levels_ok symb buy ls" and l: "map_of ls p = Some l" and n: "map_of (lv_orders l) n = Some x"
    and dist: "distinct (map fst (nodes ls))"
    and x': "order_ok symb buy x'" "o_price x' = p" "delta = o_remaining_quantity x - o_remaining_quantity x'"
  shows "\<exists>A B. levels_ok symb buy (amend_level (better buy) p l n x' delta ls) \<and>
    nodes ls = A @ (n, x) # B \<and> nodes (amend_level (better buy) p l n x' delta ls) = A @ (n, x') # B"
proof -
  from node_split [OF ok l n] obtain pre post A B where ls: "ls = pre @ (p, l) # post"
    and lo: "lv_orders l = A @ (n, x) # B" and ns: "nodes ls = (nodes pre @ A) @ (n, x) # (B @ nodes post)"
    and pp: "\<forall>e \<in> set pre. better buy (fst e) p" "\<forall>e \<in> set post. better buy p (fst e)"
    and ok': "levels_ok symb buy (pre @ post)" "level_ok symb buy p l" .
  have put: "omap_put n x' (lv_orders l) = A @ (n, x') # B"
    using dist unfolding lo by (intro put_split) (auto simp: ls lo)
  let ?l' = "l\<lparr>lv_total_quantity := lv_total_quantity l - delta, lv_orders := A @ (n, x') # B\<rparr>"
  have am: "amend_level (better buy) p l n x' delta ls = pre @ (p, ?l') # post"
    by (simp add: amend_level_def ls put side_order.omap_put_split [OF pp] side_order.omap_at_split(2) [OF pp])
  have "level_ok symb buy p ?l'" using ok'(2) x' by (auto simp: level_ok_def lo)
  then have "levels_ok symb buy (pre @ (p, ?l') # post)"
    using ok'(1) by (simp add: levels_ok_split [OF pp])
  moreover have "nodes (pre @ (p, ?l') # post) = (nodes pre @ A) @ (n, x') # (B @ nodes post)" by simp
  ultimately show ?thesis using ns am by metis
qed

text \<open>The same on the queues, when ids are unique.\<close>

lemma withdraw_split:
  assumes "distinct (map o_id (A @ x # B))"
  shows "withdraw (o_id x) (A @ x # B) = A @ B"
  using assms by (simp add: withdraw_def filter_fresh)

lemma amend_split:
  assumes "distinct (map o_id (A @ x # B))"
  shows "amend (o_id x) f (A @ x # B) = A @ f x # B"
  using assms by (simp add: amend_def map_if_fresh)

lemma find_distinct:
  assumes "distinct (map f xs)" "x \<in> set xs"
  shows "find (\<lambda>y. f y = f x) xs = Some x"
  using assms by (induction xs) auto

lemma find_None_iff_notin: "find (\<lambda>y. f y = k) xs = None \<longleftrightarrow> k \<notin> f ` set xs"
  by (auto simp: find_None_iff)

lemma withdraw_fresh: "oid \<notin> o_id ` set os \<Longrightarrow> withdraw oid os = os"
  by (simp add: withdraw_def filter_fresh)

lemma amend_fresh: "oid \<notin> o_id ` set os \<Longrightarrow> amend oid f os = os"
  by (simp add: amend_def map_if_fresh)

text \<open>One node less on a side, or one node's order changed, seen on the queues of both sides.\<close>

lemma flat_other:
  assumes "nodes ls = A @ (n, x) # B" "distinct (node_ids (nodes ls @ nodes other))"
  shows "distinct (map o_id (map snd A @ x # map snd B))" "o_id x \<notin> o_id ` set (flat other)"
  using assms by (auto simp: flat_def o_def image_image)

lemma side_withdraw:
  assumes "nodes ls = A @ (n, x) # B" "nodes ls' = A @ B" "distinct (node_ids (nodes ls @ nodes other))"
  shows "flat ls' = withdraw (o_id x) (flat ls)" "withdraw (o_id x) (flat other) = flat other"
  using withdraw_split [OF flat_other(1) [OF assms(1,3)]] withdraw_fresh [OF flat_other(2) [OF assms(1,3)]]
  by (simp_all add: flat_def assms(1,2))

lemma side_amend:
  assumes "nodes ls = A @ (n, x) # B" "nodes ls' = A @ (n, f x) # B" "distinct (node_ids (nodes ls @ nodes other))"
  shows "flat ls' = amend (o_id x) f (flat ls)" "amend (o_id x) f (flat other) = flat other"
  using amend_split [OF flat_other(1) [OF assms(1,3)], of f] amend_fresh [OF flat_other(2) [OF assms(1,3)], of f]
  by (simp_all add: flat_def assms(1,2))

lemma levels_prices_subset:
  assumes "levels_ok symb buy ls" "levels_ok symb buy ls'" "o_price ` set (flat ls') \<subseteq> o_price ` set (flat ls)"
  shows "fst ` set ls' \<subseteq> fst ` set ls"
  using assms(3) unfolding flat_prices [OF assms(1)] flat_prices [OF assms(2)] .

section \<open>The id index\<close>

text \<open>
  Both books index their resting orders by id; they differ in what the index stores for a
  node (\<open>val\<close>). \<open>index_ok\<close> says that the index holds exactly the entries of the resting nodes.
  The locale proves once that it follows the node lists through every operation.
\<close>

definition index_ok :: "(nat \<times> order \<Rightarrow> 'v) \<Rightarrow> (order_id, 'v) unordered_map \<Rightarrow> node_list \<Rightarrow> bool" where
  "index_ok val idx ns \<longleftrightarrow>
     distinct (map fst idx) \<and> distinct (node_ids ns) \<and>
     set idx = (\<lambda>e. (o_id (snd e), val e)) ` set ns"

lemma image_filter_disjoint:
  assumes "\<forall>e \<in> S. k e \<notin> k ` T"
  shows "{p \<in> (\<lambda>e. (k e, v e)) ` (S \<union> T). fst p \<notin> k ` T} = (\<lambda>e. (k e, v e)) ` S"
  using assms by auto

lemma set_fold_delete: "set (fold AList.delete ks idx) = {e \<in> set idx. fst e \<notin> set ks}"
  by (induction ks arbitrary: idx) (auto simp: AList.delete_eq)

lemma distinct_fold_delete: "distinct (map fst idx) \<Longrightarrow> distinct (map fst (fold AList.delete ks idx))"
  by (induction ks arbitrary: idx) (auto simp: AList.distinct_delete)

lemma set_update_fresh: "k \<notin> fst ` set idx \<Longrightarrow> set (AList.update k v idx) = insert (k, v) (set idx)"
  by (induction idx) auto

lemma node_ids_key: "map node_key ns = map node_key ns' \<Longrightarrow> node_ids ns = node_ids ns'"
  by (drule arg_cong [where f = "map (\<lambda>k. fst (snd k))"]) (simp add: node_key_def o_def)

locale id_index =
  fixes val :: "nat \<times> order \<Rightarrow> 'v"
  assumes val_key: "node_key e = node_key e' \<Longrightarrow> val e = val e'"
begin

lemma index_nil: "index_ok val [] []"
  by (simp add: index_ok_def)

lemma index_keys: "index_ok val idx ns \<Longrightarrow> fst ` set idx = set (node_ids ns)"
  by (force simp: index_ok_def image_image)

lemma index_find:
  assumes "index_ok val idx ns"
  shows "map_of idx oid = None \<longleftrightarrow> oid \<notin> set (node_ids ns)"
    and "map_of idx oid = Some v \<Longrightarrow> \<exists>e \<in> set ns. o_id (snd e) = oid \<and> val e = v"
    and "e \<in> set ns \<Longrightarrow> map_of idx (o_id (snd e)) = Some (val e)"
proof -
  show "map_of idx oid = None \<longleftrightarrow> oid \<notin> set (node_ids ns)"
    using index_keys [OF assms] by (simp add: map_of_eq_None_iff)
  show "map_of idx oid = Some v \<Longrightarrow> \<exists>e \<in> set ns. o_id (snd e) = oid \<and> val e = v"
    using assms by (auto simp: index_ok_def dest!: map_of_SomeD)
  assume "e \<in> set ns"
  then have "(o_id (snd e), val e) \<in> set idx" using assms by (auto simp: index_ok_def)
  then show "map_of idx (o_id (snd e)) = Some (val e)"
    using assms by (simp add: index_ok_def)
qed

lemma index_size:
  assumes "index_ok val idx ns"
  shows "length idx = length ns"
proof -
  have "length (map fst idx) = card (set (map fst idx))" "length (node_ids ns) = card (set (node_ids ns))"
    using assms by (auto simp: index_ok_def distinct_card simp del: length_map set_map)
  with index_keys [OF assms] show ?thesis by simp
qed

lemma index_insert:
  assumes "index_ok val idx (A @ B)" "o_id x \<notin> set (node_ids (A @ B))"
  shows "index_ok val (AList.update (o_id x) (val (n, x)) idx) (A @ (n, x) # B)"
proof -
  have "o_id x \<notin> fst ` set idx" using index_keys [OF assms(1)] assms(2) by simp
  then have "set (AList.update (o_id x) (val (n, x)) idx) =
      insert (o_id x, val (n, x)) (set idx)" by (rule set_update_fresh)
  with assms show ?thesis by (auto simp: index_ok_def AList.distinct_update)
qed

lemma index_drop:
  assumes "index_ok val idx (A @ (T @ D) @ B)"
  shows "index_ok val (fold AList.delete (node_ids T) idx) (A @ D @ B)"
proof -
  let ?en = "\<lambda>e. (o_id (snd e), val e)"
  have "\<forall>e \<in> set (A @ D @ B). o_id (snd e) \<notin> set (node_ids T)"
    using assms by (auto simp: index_ok_def disjoint_iff)
  then have "{p \<in> ?en ` (set (A @ D @ B) \<union> set T). fst p \<notin> set (node_ids T)} = ?en ` set (A @ D @ B)"
    unfolding set_map by (rule image_filter_disjoint)
  moreover have "set (A @ (T @ D) @ B) = set (A @ D @ B) \<union> set T" by auto
  ultimately have "{p \<in> ?en ` set (A @ (T @ D) @ B). fst p \<notin> set (node_ids T)} = ?en ` set (A @ D @ B)"
    by (simp only:)
  then have "set (fold AList.delete (node_ids T) idx) = ?en ` set (A @ D @ B)"
    using assms unfolding index_ok_def set_fold_delete by (simp only:)
  moreover have "distinct (node_ids (A @ D @ B))" using assms by (auto simp: index_ok_def)
  moreover have "distinct (map fst (fold AList.delete (node_ids T) idx))"
    using assms by (simp add: index_ok_def distinct_fold_delete)
  ultimately show ?thesis unfolding index_ok_def by blast
qed

lemma index_rename:
  assumes "index_ok val idx (A @ D @ B)" "map node_key D' = map node_key D"
  shows "index_ok val idx (A @ D' @ B)"
proof -
  let ?en = "\<lambda>e. (o_id (snd e), val e)"
  have en: "?en e = ?en e'" if "node_key e = node_key e'" for e e'
    using that val_key [OF that] by (simp add: node_key_def)
  from assms(2) have "map ?en D' = map ?en D" by (rule map_eq_map) (rule en)
  then have "set (map ?en D') = set (map ?en D)" by (rule arg_cong)
  then have "?en ` set D' = ?en ` set D" unfolding set_map .
  moreover have "node_ids D' = node_ids D" by (rule node_ids_key [OF assms(2)])
  ultimately show ?thesis using assms(1) by (simp add: index_ok_def image_Un)
qed

lemma index_keep:
  assumes "index_ok val idx (A @ N @ B)" "map node_key N' = map node_key (drop k N)"
  shows "index_ok val (fold AList.delete (node_ids (take k N)) idx) (A @ N' @ B)"
proof (rule index_rename)
  show "index_ok val (fold AList.delete (node_ids (take k N)) idx) (A @ drop k N @ B)"
    by (rule index_drop) (simp add: assms(1))
qed (rule assms(2))

lemma index_remove:
  assumes "index_ok val idx (A @ (n, x) # B)"
  shows "index_ok val (AList.delete (o_id x) idx) (A @ B)"
  using index_keep [of idx A "[(n, x)]" B "[]" 1] assms by simp

lemma index_same:
  assumes "index_ok val idx (A @ e # B)" "node_key e' = node_key e"
  shows "index_ok val idx (A @ e' # B)"
  using index_keep [of idx A "[e]" B "[e']" 0] assms by simp

end

end
