(* ===== verification/Fast_Level.thy ===== *)
theory Fast_Level
  imports Object_Pool Price_Levels
begin

text \<open>
  The intrusive lists of \<open>fast::OrderBook\<close> (\<open>include/matching_engine/fast/order_book.hpp\<close>):
  \<open>Node\<close>, \<open>PriceLevel\<close>, \<open>PushBack\<close> and \<open>Unlink\<close>, and the loop of \<open>Match\<close> over one level. The
  nodes live in the pool; a \<open>Node*\<close> is a slot number, and following a pointer to a dead slot
  gives \<open>None\<close>.

  \<open>seg\<close> says that a list of slots and orders is threaded through the heap by its \<open>prev\<close> and
  \<open>next\<close> pointers, and \<open>level_rel\<close> that a level represents a level of \<open>Price_Levels\<close>. The
  lemmas show that each operation acts on the represented list as the list operation it
  implements and touches no node of another level.
\<close>

section \<open>Nodes and levels\<close>

record node =
  nd_order :: order
  nd_prev :: "nat option"
  nd_next :: "nat option"

record fast_level =
  fl_price :: price
  fl_total_quantity :: quantity
  fl_count :: nat
  fl_head :: "nat option"
  fl_tail :: "nat option"

type_synonym node_pool = "node object_pool"

definition Order_init :: order where
  "Order_init = \<lparr>o_id = kInvalidOrderId, o_trader_id = 0, o_symbol_id = 0, o_sequence_number = 0,
     o_timestamp = 0, o_price = Price 0, o_quantity = 0, o_remaining_quantity = 0, o_side = Buy,
     o_type = Limit, o_time_in_force = GoodTillCancel, o_status = New\<rparr>"

definition Node_init :: node where
  "Node_init = \<lparr>nd_order = Order_init, nd_prev = None, nd_next = None\<rparr>"

definition FastLevel_init :: fast_level where
  "FastLevel_init = \<lparr>fl_price = Price 0, fl_total_quantity = 0, fl_count = 0, fl_head = None, fl_tail = None\<rparr>"

text \<open>An assignment to a member of \<open>*n\<close>.\<close>

definition node_update :: "nat \<Rightarrow> (node \<Rightarrow> node) \<Rightarrow> node_pool \<Rightarrow> node_pool option" where
  "node_update n f p = do { nd \<leftarrow> pool_read n p; pool_write n (f nd) p }"

definition fast_PushBack :: "nat \<Rightarrow> fast_level \<Rightarrow> node_pool \<Rightarrow> (fast_level \<times> node_pool) option" where
  "fast_PushBack n level p =
     do {
       p1 \<leftarrow> node_update n (\<lambda>nd. nd\<lparr>nd_prev := fl_tail level, nd_next := None\<rparr>) p;
       (level1, p2) \<leftarrow>
         (case fl_tail level of
            Some t \<Rightarrow> map_option (Pair level) (node_update t (\<lambda>nd. nd\<lparr>nd_next := Some n\<rparr>) p1)
          | None \<Rightarrow> Some (level\<lparr>fl_head := Some n\<rparr>, p1));
       Some (level1\<lparr>fl_tail := Some n, fl_count := fl_count level1 + 1\<rparr>, p2)
     }"

definition fast_Unlink :: "nat \<Rightarrow> fast_level \<Rightarrow> node_pool \<Rightarrow> (fast_level \<times> node_pool) option" where
  "fast_Unlink n level p =
     do {
       nd \<leftarrow> pool_read n p;
       (level1, p1) \<leftarrow>
         (case nd_prev nd of
            Some q \<Rightarrow> map_option (Pair level) (node_update q (\<lambda>m. m\<lparr>nd_next := nd_next nd\<rparr>) p)
          | None \<Rightarrow> Some (level\<lparr>fl_head := nd_next nd\<rparr>, p));
       nd1 \<leftarrow> pool_read n p1;
       (level2, p2) \<leftarrow>
         (case nd_next nd1 of
            Some q \<Rightarrow> map_option (Pair level1) (node_update q (\<lambda>m. m\<lparr>nd_prev := nd_prev nd1\<rparr>) p1)
          | None \<Rightarrow> Some (level1\<lparr>fl_tail := nd_prev nd1\<rparr>, p1));
       p3 \<leftarrow> node_update n (\<lambda>m. m\<lparr>nd_prev := None, nd_next := None\<rparr>) p2;
       Some (level2\<lparr>fl_count := size_dec (fl_count level2)\<rparr>, p3)
     }"

text \<open>
  The inner loop of \<open>Match\<close>: from \<open>node\<close>, while the aggressor has quantity left. \<open>None\<close> would
  mean that it follows a dead pointer or does not return.
\<close>

partial_function (option) fast_match_orders ::
  "symbol_id \<Rightarrow> order_args \<Rightarrow> quantity \<Rightarrow> trade list \<Rightarrow> nat option \<Rightarrow> fast_level \<Rightarrow>
   (order_id, nat) unordered_map \<Rightarrow> node_pool \<Rightarrow>
   (quantity \<times> trade list \<times> fast_level \<times> (order_id, nat) unordered_map \<times> node_pool) option" where
  "fast_match_orders symb a remaining trades node level index p =
     (if \<not> 0 < remaining then Some (remaining, trades, level, index, p)
      else
        (case node of
           None \<Rightarrow> Some (remaining, trades, level, index, p)
         | Some n \<Rightarrow>
             Option.bind (pool_read n p) (\<lambda>nd.
               let resting = nd_order nd;
                   trade_qty = min remaining (o_remaining_quantity resting);
                   trades' = trades @ [make_trade symb a resting trade_qty];
                   left = o_remaining_quantity resting - trade_qty;
                   level1 = level\<lparr>fl_total_quantity := fl_total_quantity level - trade_qty\<rparr>
               in if left = 0 then
                    Option.bind
                      (do {
                         p1 \<leftarrow> node_update n (\<lambda>m. m\<lparr>nd_order := resting\<lparr>o_remaining_quantity := left, o_status := Filled\<rparr>\<rparr>) p;
                         (level2, p2) \<leftarrow> fast_Unlink n level1 p1;
                         p3 \<leftarrow> pool_Release n p2;
                         Some (level2, p3)
                       })
                      (\<lambda>r. fast_match_orders symb a (remaining - trade_qty) trades' (nd_next nd) (fst r)
                             (AList.delete (o_id resting) index) (snd r))
                  else
                    Option.bind
                      (node_update n (\<lambda>m. m\<lparr>nd_order := resting\<lparr>o_remaining_quantity := left, o_status := PartiallyFilled\<rparr>\<rparr>) p)
                      (\<lambda>p1. fast_match_orders symb a (remaining - trade_qty) trades' (nd_next nd) level1 index p1))))"

declare fast_match_orders.simps [code]

section \<open>Lists threaded through the heap\<close>

definition first_of :: "nat option \<Rightarrow> node_list \<Rightarrow> nat option" where
  "first_of nx ns = (case ns of [] \<Rightarrow> nx | e # _ \<Rightarrow> Some (fst e))"

definition last_of :: "nat option \<Rightarrow> node_list \<Rightarrow> nat option" where
  "last_of pr ns = (if ns = [] then pr else Some (fst (last ns)))"

fun seg :: "(nat \<Rightarrow> node option) \<Rightarrow> nat option \<Rightarrow> node_list \<Rightarrow> nat option \<Rightarrow> bool" where
  "seg h pr [] nx \<longleftrightarrow> True"
| "seg h pr ((n, x) # ns) nx \<longleftrightarrow>
     h n = Some \<lparr>nd_order = x, nd_prev = pr, nd_next = first_of nx ns\<rparr> \<and> seg h (Some n) ns nx"

lemma first_of_simps [simp]:
  "first_of nx [] = nx" "first_of nx (e # ns) = Some (fst e)"
  "first_of nx (xs @ ys) = first_of (first_of nx ys) xs"
  by (auto simp: first_of_def split: list.splits)

lemma last_of_simps [simp]:
  "last_of pr [] = pr" "last_of pr (ns @ [e]) = Some (fst e)"
  "last_of pr (xs @ ys) = last_of (last_of pr xs) ys" "last_of pr (e # ns) = last_of (Some (fst e)) ns"
  by (auto simp: last_of_def)

lemma seg_append:
  "seg h pr (xs @ ys) nx \<longleftrightarrow> seg h pr xs (first_of nx ys) \<and> seg h (last_of pr xs) ys nx"
proof (induction xs arbitrary: pr)
  case (Cons e xs)
  then show ?case by (cases e) simp
qed simp

lemma seg_frame: "\<forall>n \<in> fst ` set ns. h' n = h n \<Longrightarrow> seg h' pr ns nx = seg h pr ns nx"
  by (induction ns arbitrary: pr) auto

lemma seg_upd: "n \<notin> fst ` set ns \<Longrightarrow> seg (h(n := v)) pr ns nx = seg h pr ns nx"
  by (rule seg_frame) auto

lemma seg_live: "seg h pr ns nx \<Longrightarrow> fst ` set ns \<subseteq> dom h"
proof (induction ns arbitrary: pr)
  case (Cons e ns)
  then show ?case by (cases e) (auto simp: domI)
qed simp

lemma seg_node:
  assumes "seg h pr (A @ (n, x) # B) nx"
  shows "h n = Some \<lparr>nd_order = x, nd_prev = last_of pr A, nd_next = first_of nx B\<rparr>"
  using assms by (simp add: seg_append)

text \<open>The last or the first node of a segment can be relinked.\<close>

lemma seg_relink_next:
  assumes "seg h pr (xs @ [(n, x)]) nx" "distinct (map fst (xs @ [(n, x)]))"
  shows "seg (h(n \<mapsto> \<lparr>nd_order = x, nd_prev = last_of pr xs, nd_next = nx'\<rparr>)) pr (xs @ [(n, x)]) nx'"
  using assms by (simp add: seg_append seg_upd)

lemma seg_relink_prev:
  assumes "seg h pr ((n, x) # xs) nx" "distinct (map fst ((n, x) # xs))"
  shows "seg (h(n \<mapsto> \<lparr>nd_order = x, nd_prev = pr', nd_next = first_of nx xs\<rparr>)) pr' ((n, x) # xs) nx"
  using assms by (simp add: seg_upd)

section \<open>What an operation does to the pool\<close>

text \<open>
  \<open>touches S p p'\<close>: the pool is still well formed, the same slots are live, and only nodes in
  \<open>S\<close> may have changed.
\<close>

definition touches :: "nat set \<Rightarrow> node_pool \<Rightarrow> node_pool \<Rightarrow> bool" where
  "touches S p p' \<longleftrightarrow>
     pool_inv p' \<and> pool_capacity p' = pool_capacity p \<and> dom (pool_heap p') = dom (pool_heap p) \<and>
     (\<forall>j. j \<notin> S \<longrightarrow> pool_heap p' j = pool_heap p j)"

lemma touches_refl: "pool_inv p \<Longrightarrow> touches S p p"
  by (simp add: touches_def)

lemma touches_trans: "touches S p p1 \<Longrightarrow> touches S p1 p2 \<Longrightarrow> touches S p p2"
  by (simp add: touches_def)

lemma touches_mono: "touches S p p' \<Longrightarrow> S \<subseteq> T \<Longrightarrow> touches T p p'"
  unfolding touches_def by blast

lemma touches_inv: "touches S p p' \<Longrightarrow> pool_inv p'"
  by (simp add: touches_def)

lemma touches_heap: "touches S p p' \<Longrightarrow> j \<notin> S \<Longrightarrow> pool_heap p' j = pool_heap p j"
  by (simp add: touches_def)

lemma touches_seg:
  "touches S p p' \<Longrightarrow> fst ` set ns \<inter> S = {} \<Longrightarrow> seg (pool_heap p') pr ns nx = seg (pool_heap p) pr ns nx"
  by (rule seg_frame) (auto simp: touches_def)

lemma node_update_live:
  assumes "pool_inv p" "pool_heap p n = Some nd"
  obtains p' where "node_update n f p = Some p'" "pool_heap p' = (pool_heap p)(n \<mapsto> f nd)" "touches {n} p p'"
proof -
  from pool.store_live [OF assms, of "f nd"] obtain p' where
    "pool_write n (f nd) p = Some p'" "pool_heap p' = (pool_heap p)(n \<mapsto> f nd)" "pool_inv p'"
    "pool_capacity p' = pool_capacity p" by blast
  with assms show thesis
    by (intro that [of p']) (auto simp: node_update_def touches_def pool_heap_def)
qed

section \<open>Levels\<close>

definition level_rel :: "(nat \<Rightarrow> node option) \<Rightarrow> fast_level \<Rightarrow> price_level \<Rightarrow> bool" where
  "level_rel h fl gl \<longleftrightarrow>
     fl_price fl = lv_price gl \<and> fl_total_quantity fl = lv_total_quantity gl \<and>
     fl_count fl = length (lv_orders gl) \<and> fl_head fl = first_of None (lv_orders gl) \<and>
     fl_tail fl = last_of None (lv_orders gl) \<and> seg h None (lv_orders gl) None"

lemma level_rel_frame:
  "\<forall>n \<in> fst ` set (lv_orders gl). h' n = h n \<Longrightarrow> level_rel h' fl gl = level_rel h fl gl"
  using seg_frame [of "lv_orders gl" h' h] by (simp add: level_rel_def)

lemma level_rel_init: "level_rel h FastLevel_init PriceLevel_init"
  by (simp add: level_rel_def FastLevel_init_def PriceLevel_init_def)

lemma last_of_cases:
  obtains "ns = []" "last_of None ns = None" | xs n x where "ns = xs @ [(n, x)]" "last_of None ns = Some n"
proof (cases ns rule: rev_cases)
  case Nil
  with that(1) show thesis by simp
next
  case (snoc xs e)
  with that(2) [of xs "fst e" "snd e"] show thesis by simp
qed

lemma fast_PushBack_appends:
  assumes inv: "pool_inv p" and nd: "pool_heap p n = Some nd" and rel: "level_rel (pool_heap p) fl gl"
    and new: "n \<notin> fst ` set (lv_orders gl)" and dist: "distinct (map fst (lv_orders gl))"
  shows "\<exists>fl' p'. fast_PushBack n fl p = Some (fl', p') \<and> touches (insert n (fst ` set (lv_orders gl))) p p' \<and>
    level_rel (pool_heap p') fl' (gl\<lparr>lv_orders := lv_orders gl @ [(n, nd_order nd)]\<rparr>)"
proof -
  let ?ns = "lv_orders gl" and ?nd = "nd\<lparr>nd_prev := fl_tail fl, nd_next := None\<rparr>"
  have r: "fl_tail fl = last_of None ?ns" "fl_head fl = first_of None ?ns" "fl_count fl = length ?ns"
    "seg (pool_heap p) None ?ns None" using rel by (simp_all add: level_rel_def)
  obtain p1 where p1: "node_update n (\<lambda>nd. nd\<lparr>nd_prev := fl_tail fl, nd_next := None\<rparr>) p = Some p1"
    "pool_heap p1 = (pool_heap p)(n \<mapsto> ?nd)" "touches {n} p p1" by (rule node_update_live [OF inv nd])
  have seg1: "seg (pool_heap p1) None ?ns None" using r(4) new by (simp add: p1(2) seg_upd)
  show ?thesis
  proof (cases rule: last_of_cases [of ?ns])
    case 1
    with p1 r rel touches_mono [OF p1(3)] show ?thesis
      by (auto simp: fast_PushBack_def level_rel_def)
  next
    case (2 xs t y)
    have t: "t \<noteq> n" "t \<in> fst ` set ?ns" using new 2(1) by auto
    have ht: "pool_heap p1 t = Some \<lparr>nd_order = y, nd_prev = last_of None xs, nd_next = None\<rparr>"
      using seg_node [of _ None xs t y "[]"] seg1 2(1) by simp
    obtain p2 where p2: "node_update t (\<lambda>nd. nd\<lparr>nd_next := Some n\<rparr>) p1 = Some p2"
      "pool_heap p2 = (pool_heap p1)(t \<mapsto> \<lparr>nd_order = y, nd_prev = last_of None xs, nd_next = None\<rparr>\<lparr>nd_next := Some n\<rparr>)"
      "touches {t} p1 p2"
      by (rule node_update_live [OF touches_inv [OF p1(3)] ht])
    have "seg (pool_heap p2) None ?ns (Some n)"
      using seg_relink_next [of "pool_heap p1" None xs t y None "Some n"] seg1 dist 2(1) by (simp add: p2(2))
    moreover have "pool_heap p2 n = Some ?nd" using t(1) by (simp add: p2(2) p1(2))
    ultimately have "seg (pool_heap p2) None (?ns @ [(n, nd_order nd)]) None"
      using r(1) by (simp add: seg_append)
    moreover have "touches (insert n (fst ` set ?ns)) p p2"
      using touches_trans touches_mono [OF p1(3)] touches_mono [OF p2(3)] t(2) by (metis empty_subsetI insert_subset subset_insertI insertI1 insertI2)
    moreover have "first_of (Some n) ?ns = first_of None ?ns" using 2(1) by (cases xs) auto
    ultimately show ?thesis
      using p1(1) p2(1) 2(2) r rel by (simp add: fast_PushBack_def level_rel_def)
  qed
qed

text \<open>The two halves of \<open>Unlink\<close>: the link from the predecessor, then the one from the successor.\<close>

lemma unlink_prev:
  assumes inv: "pool_inv p" and sg: "seg (pool_heap p) None (A @ (n, x) # B) None"
    and dist: "distinct (map fst (A @ (n, x) # B))" and head: "fl_head fl = first_of None (A @ (n, x) # B)"
  obtains p1 where
    "(case last_of None A of
        Some q \<Rightarrow> map_option (Pair fl) (node_update q (\<lambda>m. m\<lparr>nd_next := first_of None B\<rparr>) p)
      | None \<Rightarrow> Some (fl\<lparr>fl_head := first_of None B\<rparr>, p)) =
       Some (fl\<lparr>fl_head := first_of None (A @ B)\<rparr>, p1)"
    "touches (fst ` set A) p p1" "seg (pool_heap p1) None A (first_of None B)"
proof (cases rule: last_of_cases [of A])
  case 1
  with inv that [of p] show thesis by (simp add: touches_refl)
next
  case (2 xs q y)
  have segA: "seg (pool_heap p) None A (Some n)" using sg by (simp add: seg_append)
  have hq: "pool_heap p q = Some \<lparr>nd_order = y, nd_prev = last_of None xs, nd_next = Some n\<rparr>"
    using seg_node [of _ None xs q y "[]" "Some n"] segA 2(1) by simp
  obtain p1 where p1: "node_update q (\<lambda>m. m\<lparr>nd_next := first_of None B\<rparr>) p = Some p1"
    "pool_heap p1 = (pool_heap p)(q \<mapsto> \<lparr>nd_order = y, nd_prev = last_of None xs, nd_next = Some n\<rparr>\<lparr>nd_next := first_of None B\<rparr>)"
    "touches {q} p p1" by (rule node_update_live [OF inv hq])
  have "seg (pool_heap p1) None A (first_of None B)"
    using seg_relink_next [of "pool_heap p" None xs q y "Some n" "first_of None B"] segA dist 2(1)
    by (simp add: p1(2))
  moreover have "fl\<lparr>fl_head := first_of None (A @ B)\<rparr> = fl" using head 2(1) by (cases xs) simp_all
  moreover have "touches (fst ` set A) p p1" using touches_mono [OF p1(3)] 2(1) by simp
  ultimately show thesis using p1(1) 2(2) by (intro that [of p1]) simp_all
qed

lemma unlink_next:
  assumes inv: "pool_inv p" and sg: "seg (pool_heap p) (Some n) B None"
    and dist: "distinct (map fst B)" and tail: "fl_tail fl = last_of (Some n) B"
  obtains p1 where
    "(case first_of None B of
        Some q \<Rightarrow> map_option (Pair fl) (node_update q (\<lambda>m. m\<lparr>nd_prev := pr\<rparr>) p)
      | None \<Rightarrow> Some (fl\<lparr>fl_tail := pr\<rparr>, p)) =
       Some (fl\<lparr>fl_tail := last_of pr B\<rparr>, p1)"
    "touches (fst ` set B) p p1" "seg (pool_heap p1) pr B None"
proof (cases B)
  case Nil
  with inv that [of p] show thesis by (simp add: touches_refl)
next
  case (Cons e B')
  obtain q y where e: "e = (q, y)" by (cases e)
  have hq: "pool_heap p q = Some \<lparr>nd_order = y, nd_prev = Some n, nd_next = first_of None B'\<rparr>"
    using sg Cons e by simp
  obtain p1 where p1: "node_update q (\<lambda>m. m\<lparr>nd_prev := pr\<rparr>) p = Some p1"
    "pool_heap p1 = (pool_heap p)(q \<mapsto> \<lparr>nd_order = y, nd_prev = Some n, nd_next = first_of None B'\<rparr>\<lparr>nd_prev := pr\<rparr>)"
    "touches {q} p p1" by (rule node_update_live [OF inv hq])
  have "seg (pool_heap p1) pr B None"
    using seg_relink_prev [of "pool_heap p" "Some n" q y B' None pr] sg dist Cons e by (simp add: p1(2))
  moreover have "fl\<lparr>fl_tail := last_of pr B\<rparr> = fl" using tail Cons e by simp
  moreover have "touches (fst ` set B) p p1" using touches_mono [OF p1(3)] Cons e by simp
  ultimately show thesis using p1(1) Cons e by (intro that [of p1]) simp_all
qed

lemma fast_Unlink_removes:
  assumes inv: "pool_inv p" and rel: "level_rel (pool_heap p) fl gl"
    and ns: "lv_orders gl = A @ (n, x) # B" and dist: "distinct (map fst (lv_orders gl))"
  shows "\<exists>fl' p'. fast_Unlink n fl p = Some (fl', p') \<and> touches (fst ` set (lv_orders gl)) p p' \<and>
    level_rel (pool_heap p') fl' (gl\<lparr>lv_orders := A @ B\<rparr>)"
proof -
  let ?ns = "A @ (n, x) # B" and ?S = "fst ` set (lv_orders gl)"
  have r: "seg (pool_heap p) None ?ns None" "fl_head fl = first_of None ?ns" "fl_tail fl = last_of None ?ns"
    "fl_count fl = length ?ns" using rel ns by (simp_all add: level_rel_def)
  have d: "distinct (map fst ?ns)" using dist ns by simp
  then have apart: "fst ` set B \<inter> fst ` set A = {}" "fst ` set A \<inter> fst ` set B = {}"
    "fst ` set (A @ B) \<inter> {n} = {}" by auto
  have parts: "fst ` set A \<subseteq> ?S" "fst ` set B \<subseteq> ?S" "{n} \<subseteq> ?S" using ns by auto
  have hn: "pool_heap p n = Some \<lparr>nd_order = x, nd_prev = last_of None A, nd_next = first_of None B\<rparr>"
    by (rule seg_node [OF r(1)])
  obtain p1 where p1: "(case last_of None A of
        Some q \<Rightarrow> map_option (Pair fl) (node_update q (\<lambda>m. m\<lparr>nd_next := first_of None B\<rparr>) p)
      | None \<Rightarrow> Some (fl\<lparr>fl_head := first_of None B\<rparr>, p)) =
       Some (fl\<lparr>fl_head := first_of None (A @ B)\<rparr>, p1)" (is "?e1 = Some (?fl1, p1)")
    "touches (fst ` set A) p p1" "seg (pool_heap p1) None A (first_of None B)"
    by (rule unlink_prev [OF inv r(1) d r(2)])
  have hn1: "pool_heap p1 n = Some \<lparr>nd_order = x, nd_prev = last_of None A, nd_next = first_of None B\<rparr>"
    using touches_heap [OF p1(2), of n] d hn by auto
  have segB: "seg (pool_heap p1) (Some n) B None"
    using touches_seg [OF p1(2) apart(1)] r(1) by (simp add: seg_append)
  have dB: "distinct (map fst B)" and tail: "fl_tail ?fl1 = last_of (Some n) B" using d r(3) by simp_all
  obtain p2 where p2: "(case first_of None B of
        Some q \<Rightarrow> map_option (Pair ?fl1) (node_update q (\<lambda>m. m\<lparr>nd_prev := last_of None A\<rparr>) p1)
      | None \<Rightarrow> Some (?fl1\<lparr>fl_tail := last_of None A\<rparr>, p1)) =
       Some (?fl1\<lparr>fl_tail := last_of (last_of None A) B\<rparr>, p2)" (is "?e2 = Some (?fl2, p2)")
    "touches (fst ` set B) p1 p2" "seg (pool_heap p2) (last_of None A) B None"
    by (rule unlink_next [OF touches_inv [OF p1(2)] segB dB tail])
  have hn2: "pool_heap p2 n = Some \<lparr>nd_order = x, nd_prev = last_of None A, nd_next = first_of None B\<rparr>"
    using touches_heap [OF p2(2), of n] d hn1 by auto
  obtain p3 where p3: "node_update n (\<lambda>m. m\<lparr>nd_prev := None, nd_next := None\<rparr>) p2 = Some p3" "touches {n} p2 p3"
    using node_update_live [OF touches_inv [OF p2(2)] hn2] by blast
  have "seg (pool_heap p2) None A (first_of None B)"
    using touches_seg [OF p2(2) apart(2)] p1(3) by simp
  with p2(3) have "seg (pool_heap p2) None (A @ B) None" by (simp add: seg_append)
  then have "seg (pool_heap p3) None (A @ B) None"
    using touches_seg [OF p3(2) apart(3)] by simp
  moreover have "touches ?S p p3"
    by (rule touches_trans [OF touches_trans [OF touches_mono [OF p1(2) parts(1)]
          touches_mono [OF p2(2) parts(2)]] touches_mono [OF p3(2) parts(3)]])
  moreover have "fast_Unlink n fl p = Some (?fl2\<lparr>fl_count := size_dec (fl_count ?fl2)\<rparr>, p3)"
    unfolding fast_Unlink_def
    using hn hn1 p1(1) p2(1) p3(1)
    by (simp only: pool_heap_def bind.simps node.select_convs prod.case)
  ultimately show ?thesis
    using r(4) rel by (simp add: level_rel_def size_dec_def)
qed

text \<open>An assignment to the order of a node changes that order in the list.\<close>

lemma level_set_order:
  assumes inv: "pool_inv p" and rel: "level_rel (pool_heap p) fl gl"
    and ns: "lv_orders gl = A @ (n, x) # B" and dist: "distinct (map fst (lv_orders gl))"
  obtains p' where "node_update n (\<lambda>m. m\<lparr>nd_order := x'\<rparr>) p = Some p'" "touches {n} p p'"
    "level_rel (pool_heap p') fl (gl\<lparr>lv_orders := A @ (n, x') # B\<rparr>)"
proof -
  have sg: "seg (pool_heap p) None (A @ (n, x) # B) None" using rel ns by (simp add: level_rel_def)
  obtain p' where p': "node_update n (\<lambda>m. m\<lparr>nd_order := x'\<rparr>) p = Some p'"
    "pool_heap p' = (pool_heap p)(n \<mapsto> \<lparr>nd_order = x, nd_prev = last_of None A, nd_next = first_of None B\<rparr>\<lparr>nd_order := x'\<rparr>)"
    "touches {n} p p'" by (rule node_update_live [OF inv seg_node [OF sg]])
  have "seg (pool_heap p') None (A @ (n, x') # B) None"
    using sg dist by (simp add: ns p'(2) seg_append seg_upd)
  with p' rel ns show thesis by (intro that [of p']) (simp_all add: level_rel_def)
qed

section \<open>The loop over one level\<close>

text \<open>
  \<open>frees S R p p'\<close>: as \<open>touches S\<close>, except that of the slots in \<open>S\<close> only those in \<open>R\<close> are still
  live.
\<close>

definition frees :: "nat set \<Rightarrow> nat set \<Rightarrow> node_pool \<Rightarrow> node_pool \<Rightarrow> bool" where
  "frees S R p p' \<longleftrightarrow>
     pool_inv p' \<and> pool_capacity p' = pool_capacity p \<and>
     dom (pool_heap p') = dom (pool_heap p) - (S - R) \<and>
     (\<forall>j. j \<notin> S \<longrightarrow> pool_heap p' j = pool_heap p j)"

lemma touches_frees: "touches S p p' \<Longrightarrow> S \<subseteq> T \<Longrightarrow> frees T T p p'"
  unfolding touches_def frees_def by auto

lemma frees_refl: "pool_inv p \<Longrightarrow> frees S S p p"
  by (simp add: frees_def)

lemma frees_trans:
  assumes "frees S R p p1" "frees R Q p1 p2" "Q \<subseteq> R" "R \<subseteq> S"
  shows "frees S Q p p2"
  using assms unfolding frees_def by (auto; blast)

text \<open>A filled node is unlinked and its slot given back.\<close>

lemma consume_front:
  assumes inv: "pool_inv p" and rel: "level_rel (pool_heap p) fl gl"
    and ns: "lv_orders gl = (n, x) # B" and dist: "distinct (map fst (lv_orders gl))"
  obtains p1 fl2 p2 p3 where
    "node_update n (\<lambda>m. m\<lparr>nd_order := x'\<rparr>) p = Some p1"
    "fast_Unlink n (fl\<lparr>fl_total_quantity := tot\<rparr>) p1 = Some (fl2, p2)" "pool_Release n p2 = Some p3"
    "level_rel (pool_heap p3) fl2 (gl\<lparr>lv_total_quantity := tot, lv_orders := B\<rparr>)"
    "frees (fst ` set (lv_orders gl)) (fst ` set B) p p3"
proof -
  let ?S = "fst ` set (lv_orders gl)" and ?gl = "gl\<lparr>lv_total_quantity := tot, lv_orders := (n, x') # B\<rparr>"
  have ns': "lv_orders gl = [] @ (n, x) # B" using ns by simp
  obtain p1 where p1: "node_update n (\<lambda>m. m\<lparr>nd_order := x'\<rparr>) p = Some p1" "touches {n} p p1"
    "level_rel (pool_heap p1) fl (gl\<lparr>lv_orders := [] @ (n, x') # B\<rparr>)"
    by (rule level_set_order [OF inv rel ns' dist])
  then have rel1: "level_rel (pool_heap p1) (fl\<lparr>fl_total_quantity := tot\<rparr>) ?gl" by (simp add: level_rel_def)
  have "lv_orders ?gl = [] @ (n, x') # B" "distinct (map fst (lv_orders ?gl))" using dist ns by simp_all
  from fast_Unlink_removes [OF touches_inv [OF p1(2)] rel1 this] obtain fl2 p2 where
    p2: "fast_Unlink n (fl\<lparr>fl_total_quantity := tot\<rparr>) p1 = Some (fl2, p2)" "touches (fst ` set (lv_orders ?gl)) p1 p2"
      "level_rel (pool_heap p2) fl2 (?gl\<lparr>lv_orders := [] @ B\<rparr>)" by blast
  have sg: "seg (pool_heap p) None ((n, x) # B) None" using rel ns by (simp add: level_rel_def)
  have "n \<in> dom (pool_heap p2)"
    using sg p1(2) p2(2) unfolding touches_def by auto
  then obtain nd where nd: "pool_heap p2 n = Some nd" by blast
  from pool.release_live [OF touches_inv [OF p2(2)] nd] obtain p3 where
    p3: "pool_Release n p2 = Some p3" "pool_heap p3 = (pool_heap p2)(n := None)" "pool_inv p3"
      "pool_capacity p3 = pool_capacity p2" by blast
  have fresh: "n \<notin> fst ` set B" using dist ns by simp
  then have "level_rel (pool_heap p3) fl2 (gl\<lparr>lv_total_quantity := tot, lv_orders := B\<rparr>)"
    using p2(3) by (simp add: p3(2) level_rel_def seg_upd)
  moreover have "frees ?S (fst ` set B) p p3"
    using p1(2) p2(2) p3 fresh ns unfolding touches_def frees_def by auto
  ultimately show thesis using p1(1) p2(1) p3(1) by (intro that [of p1 fl2 p2 p3])
qed

text \<open>The loop does on the nodes what \<open>match_orders\<close> does on the list; in particular it returns.\<close>

lemma fast_match_orders_stop:
  "fast_match_orders symb a 0 trades node fl idx p = Some (0, trades, fl, idx, p)"
  by (simp add: fast_match_orders.simps)

lemma fast_match_orders_end:
  "fast_match_orders symb a rem trades None fl idx p = Some (rem, trades, fl, idx, p)"
  by (simp add: fast_match_orders.simps)

lemma fast_match_orders_fill:
  assumes "0 < rem" "pool_read n p = Some nd" "o_remaining_quantity (nd_order nd) \<le> rem"
    "node_update n (\<lambda>m. m\<lparr>nd_order := (nd_order nd)\<lparr>o_remaining_quantity := 0, o_status := Filled\<rparr>\<rparr>) p = Some p1"
    "fast_Unlink n (fl\<lparr>fl_total_quantity := fl_total_quantity fl - o_remaining_quantity (nd_order nd)\<rparr>) p1 = Some (fl2, p2)"
    "pool_Release n p2 = Some p3"
  shows "fast_match_orders symb a rem trades (Some n) fl idx p =
    fast_match_orders symb a (rem - o_remaining_quantity (nd_order nd))
      (trades @ [make_trade symb a (nd_order nd) (o_remaining_quantity (nd_order nd))]) (nd_next nd) fl2
      (AList.delete (o_id (nd_order nd)) idx) p3"
  using assms by (subst fast_match_orders.simps) (simp add: min_absorb2 Let_def)

lemma fast_match_orders_part:
  assumes "0 < rem" "pool_read n p = Some nd" "\<not> o_remaining_quantity (nd_order nd) \<le> rem"
    "node_update n (\<lambda>m. m\<lparr>nd_order := (nd_order nd)\<lparr>o_remaining_quantity := o_remaining_quantity (nd_order nd) - rem,
       o_status := PartiallyFilled\<rparr>\<rparr>) p = Some p1"
  shows "fast_match_orders symb a rem trades (Some n) fl idx p =
    Some (0, trades @ [make_trade symb a (nd_order nd) rem],
      fl\<lparr>fl_total_quantity := fl_total_quantity fl - rem\<rparr>, idx, p1)"
  using assms by (subst fast_match_orders.simps) (auto simp: min_absorb1 Let_def fast_match_orders_stop)

lemma fast_match_orders_refines:
  assumes "pool_inv p" "level_rel (pool_heap p) fl gl" "distinct (map fst (lv_orders gl))"
    "match_orders symb a rem (lv_orders gl) (lv_total_quantity gl) idx = (rem', ts, ns', tot', idx')"
  shows "\<exists>fl' p'. fast_match_orders symb a rem trades (fl_head fl) fl idx p = Some (rem', trades @ ts, fl', idx', p') \<and>
    level_rel (pool_heap p') fl' (gl\<lparr>lv_total_quantity := tot', lv_orders := ns'\<rparr>) \<and>
    frees (fst ` set (lv_orders gl)) (fst ` set ns') p p' \<and> fst ` set ns' \<subseteq> fst ` set (lv_orders gl)"
  using assms
proof (induction "lv_orders gl" arbitrary: gl fl p rem trades idx ts rem' ns' tot' idx')
  case Nil
  then have "fl_head fl = None" by (simp add: level_rel_def)
  with Nil show ?case by (auto simp: fast_match_orders_end frees_refl level_rel_def)
next
  case (Cons e B)
  obtain n x where e: "e = (n, x)" by (cases e)
  with Cons.hyps(2) have ns: "lv_orders gl = (n, x) # B" by simp
  have h: "fl_head fl = Some n" and tot: "fl_total_quantity fl = lv_total_quantity gl"
    using Cons.prems(2) ns by (simp_all add: level_rel_def)
  have nd: "pool_read n p = Some \<lparr>nd_order = x, nd_prev = None, nd_next = first_of None B\<rparr>"
    using Cons.prems(2) ns by (simp add: level_rel_def pool_heap_def)
  let ?q = "o_remaining_quantity x"
  consider "rem = 0" | "0 < rem" "?q \<le> rem" | "0 < rem" "\<not> ?q \<le> rem" by (auto simp: word_gt_0)
  then show ?case
  proof cases
    case 1
    with Cons.prems h show ?thesis by (auto simp: fast_match_orders_stop frees_refl level_rel_def)
  next
    case 2
    let ?gl = "gl\<lparr>lv_total_quantity := lv_total_quantity gl - ?q, lv_orders := B\<rparr>"
    from Cons.prems(4) obtain ts1 where
      m: "match_orders symb a (rem - ?q) (lv_orders ?gl) (lv_total_quantity ?gl) (AList.delete (o_id x) idx) =
        (rem', ts1, ns', tot', idx')" "ts = make_trade symb a x ?q # ts1"
      unfolding ns match_orders_step(1) [OF 2] by (auto split: prod.splits)
    obtain p1 fl2 p2 p3 where c:
      "node_update n (\<lambda>m. m\<lparr>nd_order := x\<lparr>o_remaining_quantity := 0, o_status := Filled\<rparr>\<rparr>) p = Some p1"
      "fast_Unlink n (fl\<lparr>fl_total_quantity := lv_total_quantity gl - ?q\<rparr>) p1 = Some (fl2, p2)"
      "pool_Release n p2 = Some p3" "level_rel (pool_heap p3) fl2 ?gl"
      "frees (fst ` set (lv_orders gl)) (fst ` set B) p p3"
      by (rule consume_front [OF Cons.prems(1,2) ns Cons.prems(3)])
    have inv3: "pool_inv p3" and B: "B = lv_orders ?gl" "distinct (map fst (lv_orders ?gl))"
      using c(5) Cons.prems(3) ns by (simp_all add: frees_def)
    from Cons.hyps(1) [OF B(1) inv3 c(4) B(2) m(1), of "trades @ [make_trade symb a x ?q]"] obtain fl' p' where
      r: "fast_match_orders symb a (rem - ?q) (trades @ [make_trade symb a x ?q]) (fl_head fl2) fl2
            (AList.delete (o_id x) idx) p3 = Some (rem', (trades @ [make_trade symb a x ?q]) @ ts1, fl', idx', p')"
        "level_rel (pool_heap p') fl' (?gl\<lparr>lv_total_quantity := tot', lv_orders := ns'\<rparr>)"
        "frees (fst ` set (lv_orders ?gl)) (fst ` set ns') p3 p'" "fst ` set ns' \<subseteq> fst ` set (lv_orders ?gl)"
      by blast
    have "fl_head fl2 = first_of None B" using c(4) by (simp add: level_rel_def)
    then have "fast_match_orders symb a rem trades (fl_head fl) fl idx p = Some (rem', trades @ ts, fl', idx', p')"
      using fast_match_orders_fill [of rem n p "\<lparr>nd_order = x, nd_prev = None, nd_next = first_of None B\<rparr>" p1 fl fl2 p2 p3
          symb a trades idx] 2 nd c(1-3) r(1) m(2) h tot by simp
    moreover have "frees (fst ` set (lv_orders gl)) (fst ` set ns') p p'"
      using r(3,4) by (intro frees_trans [OF c(5)]) (simp_all add: ns subset_insertI)
    ultimately show ?thesis using r(2,4) ns by auto
  next
    case 3
    let ?x = "x\<lparr>o_remaining_quantity := ?q - rem, o_status := PartiallyFilled\<rparr>"
    have ns0: "lv_orders gl = [] @ (n, x) # B" using ns by simp
    obtain p1 where p1: "node_update n (\<lambda>m. m\<lparr>nd_order := ?x\<rparr>) p = Some p1" "touches {n} p p1"
      "level_rel (pool_heap p1) fl (gl\<lparr>lv_orders := [] @ (n, ?x) # B\<rparr>)"
      by (rule level_set_order [OF Cons.prems(1,2) ns0 Cons.prems(3)])
    from Cons.prems(4) have m: "rem' = 0" "ts = [make_trade symb a x rem]" "ns' = (n, ?x) # B"
      "tot' = lv_total_quantity gl - rem" "idx' = idx"
      unfolding ns match_orders_step(2) [OF 3] by auto
    have "fast_match_orders symb a rem trades (fl_head fl) fl idx p =
        Some (0, trades @ ts, fl\<lparr>fl_total_quantity := fl_total_quantity fl - rem\<rparr>, idx, p1)"
      using fast_match_orders_part [of rem n p "\<lparr>nd_order = x, nd_prev = None, nd_next = first_of None B\<rparr>" p1
          symb a trades fl idx] 3 nd p1(1) h m(2) by simp
    moreover have "frees (fst ` set (lv_orders gl)) (fst ` set ns') p p1"
      using touches_frees [OF p1(2), of "fst ` set (lv_orders gl)"] by (simp add: ns m(3))
    ultimately show ?thesis using p1(3) tot by (auto simp: m ns level_rel_def)
  qed
qed

end
