(* ===== verification/Book_Laws.thy ===== *)
theory Book_Laws
  imports Book_Spec
begin

text \<open>
  What a client of the contract relies on: the shape of an execution (which resting orders
  trade, at which price, for how much, and what is left), the conservation of quantity on both
  sides, the all-or-nothing law of fill-or-kill, and the exact effect of an accepted order.
  The laws are about \<open>Book_Spec\<close> only, so that they hold of every book that refines it.
\<close>

section \<open>The shape of an execution\<close>

text \<open>The total of a queue, without wrap-around.\<close>

definition queue_depth :: "order list \<Rightarrow> nat" where
  "queue_depth os = sum_list (map (\<lambda>r. unat (o_remaining_quantity r)) os)"

lemma queue_depth_simps [simp]:
  "queue_depth [] = 0" "queue_depth (r # os) = unat (o_remaining_quantity r) + queue_depth os"
  "queue_depth (xs @ ys) = queue_depth xs + queue_depth ys"
  by (simp_all add: queue_depth_def)

definition whole_trade :: "symbol_id \<Rightarrow> order_args \<Rightarrow> order \<Rightarrow> trade" where
  "whole_trade symb a r = make_trade symb a r (o_remaining_quantity r)"

text \<open>
  An execution consumes the first \<open>k\<close> resting orders whole. Either it ends there, because the
  aggressor is exhausted or the next order does not cross, or it takes the last of the
  aggressor from order \<open>k\<close>, which stays at the front.
\<close>

definition execution :: "symbol_id \<Rightarrow> order_args \<Rightarrow> quantity \<Rightarrow> order list \<Rightarrow>
    nat \<Rightarrow> quantity \<Rightarrow> trade list \<Rightarrow> order list \<Rightarrow> bool" where
  "execution symb a rem os k rem' ts os' \<longleftrightarrow>
     k \<le> length os \<and> (\<forall>r \<in> set (take k os). crosses a (o_price r)) \<and>
     (ts = map (whole_trade symb a) (take k os) \<and> os' = drop k os \<and>
        unat rem = unat rem' + queue_depth (take k os) \<and>
        (rem' = 0 \<or> k = length os \<or> \<not> crosses a (o_price (os ! k))) \<or>
      (\<exists>q. k < length os \<and> crosses a (o_price (os ! k)) \<and> rem' = 0 \<and>
         0 < q \<and> q < o_remaining_quantity (os ! k) \<and> unat rem = unat q + queue_depth (take k os) \<and>
         ts = map (whole_trade symb a) (take k os) @ [make_trade symb a (os ! k) q] \<and>
         os' = (os ! k)\<lparr>o_remaining_quantity := o_remaining_quantity (os ! k) - q,
                        o_status := PartiallyFilled\<rparr> # drop (Suc k) os))"

lemma execution_Cons:
  assumes "execution symb a (rem - o_remaining_quantity r) os k rem' ts os'"
    "crosses a (o_price r)" "o_remaining_quantity r \<le> rem"
  shows "execution symb a rem (r # os) (Suc k) rem' (whole_trade symb a r # ts) os'"
proof -
  have "unat (rem - o_remaining_quantity r) = unat rem - unat (o_remaining_quantity r)"
    "unat (o_remaining_quantity r) \<le> unat rem"
    using assms(3) by (auto simp: unat_sub word_le_nat_alt)
  then have c: "unat rem = n + queue_depth (take (Suc k) (r # os)) \<longleftrightarrow>
      unat (rem - o_remaining_quantity r) = n + queue_depth (take k os)" for n by auto
  have "k \<le> length os \<and> (\<forall>x \<in> set (take k os). crosses a (o_price x))"
    using assms(1) unfolding execution_def by blast
  then have "Suc k \<le> length (r # os)" "\<forall>x \<in> set (take (Suc k) (r # os)). crosses a (o_price x)"
    using assms(2) by simp_all
  with assms(1) show ?thesis unfolding execution_def c by simp
qed

lemma fill_execution:
  "fill symb a rem os = (rem', ts, os') \<Longrightarrow> \<exists>k. execution symb a rem os k rem' ts os'"
proof (induction symb a rem os arbitrary: rem' ts os' rule: fill.induct)
  case (1 symb a rem)
  then show ?case by (auto simp: execution_def)
next
  case (2 symb a rem r rs)
  consider "rem = 0 \<or> \<not> crosses a (o_price r)"
    | "rem \<noteq> 0" "crosses a (o_price r)" "o_remaining_quantity r \<le> rem"
    | "rem \<noteq> 0" "crosses a (o_price r)" "\<not> o_remaining_quantity r \<le> rem" by blast
  then show ?case
  proof cases
    case 1
    with "2.prems" show ?thesis by (intro exI [of _ 0]) (auto simp: execution_def)
  next
    case 2
    then obtain ts1 where rec: "fill symb a (rem - o_remaining_quantity r) rs = (rem', ts1, os')"
      and ts: "ts = whole_trade symb a r # ts1"
      using "2.prems" by (auto simp: whole_trade_def split: prod.splits)
    from 2 rec obtain k where "execution symb a (rem - o_remaining_quantity r) rs k rem' ts1 os'"
      using "2.IH" by blast
    from execution_Cons [OF this 2(2,3)] show ?thesis unfolding ts by blast
  next
    case 3
    then have "0 < rem" "rem < o_remaining_quantity r" by (auto simp: word_gt_0)
    with 3 "2.prems" show ?thesis by (intro exI [of _ 0]) (auto simp: execution_def)
  qed
qed

section \<open>Conservation\<close>

text \<open>The resting side loses what the aggressor fills.\<close>

lemma sum_whole_trades: "sum_list (map unat (map t_quantity (map (whole_trade symb a) os))) = queue_depth os"
  by (induction os) (simp_all add: whole_trade_def make_trade_def)

lemma queue_depth_split_nth: "k < length os \<Longrightarrow> queue_depth os = queue_depth (take k os) + unat (o_remaining_quantity (os ! k)) + queue_depth (drop (Suc k) os)"
  by (subst id_take_nth_drop [of k os]) simp_all

lemma execution_depth:
  assumes "execution symb a rem os k rem' ts os'"
  shows "queue_depth os = queue_depth os' + (unat rem - unat rem')"
proof -
  have cut: "queue_depth os = queue_depth (take k os) + queue_depth (drop k os)"
    by (metis append_take_drop_id queue_depth_simps(3))
  consider "os' = drop k os" "unat rem = unat rem' + queue_depth (take k os)"
    | q where "k < length os" "rem' = 0" "q < o_remaining_quantity (os ! k)"
      "unat rem = unat q + queue_depth (take k os)"
      "os' = (os ! k)\<lparr>o_remaining_quantity := o_remaining_quantity (os ! k) - q,
                        o_status := PartiallyFilled\<rparr> # drop (Suc k) os"
    using assms unfolding execution_def by blast
  then show ?thesis
  proof cases
    case 1
    with cut show ?thesis by simp
  next
    case 2
    have "unat (o_remaining_quantity (os ! k) - q) = unat (o_remaining_quantity (os ! k)) - unat q"
      "unat q \<le> unat (o_remaining_quantity (os ! k))"
      using 2(3) by (auto simp: unat_sub word_less_nat_alt word_le_nat_alt)
    with 2 queue_depth_split_nth [OF 2(1)] show ?thesis by simp
  qed
qed

lemma fill_depth:
  "fill symb a rem os = (rem', ts, os') \<Longrightarrow> queue_depth os = queue_depth os' + (unat rem - unat rem')"
  using fill_execution execution_depth by blast

lemma queue_depth_place: "queue_depth (place buy x os) = unat (o_remaining_quantity x) + queue_depth os"
  by (rule place_split [of os buy x]) auto

section \<open>Liquidity and fill-or-kill\<close>

text \<open>The crossing part of a queue, and its total without wrap-around.\<close>

definition crossing :: "order_args \<Rightarrow> order list \<Rightarrow> order list" where
  "crossing a os = takeWhile (\<lambda>r. crosses a (o_price r)) os"

lemma available_depth:
  assumes "queue_depth (crossing a os) < 2 ^ 64"
  shows "unat (available a os) = queue_depth (crossing a os)"
proof -
  have "unat (sum_list (map o_remaining_quantity (crossing a os))) =
      sum_list (map unat (map o_remaining_quantity (crossing a os)))"
    using assms by (intro unat_sum_list) (simp add: queue_depth_def o_def)
  then show ?thesis by (simp add: available_def crossing_def queue_depth_def o_def)
qed

lemma fill_crossing:
  "fill symb a rem os = (rem', ts, os') \<Longrightarrow> rem' \<noteq> 0 \<Longrightarrow>
   unat rem = unat rem' + queue_depth (crossing a os)"
proof (induction symb a rem os arbitrary: rem' ts os' rule: fill.induct)
  case (2 symb a rem r rs)
  show ?case
  proof (cases "crosses a (o_price r) \<and> o_remaining_quantity r \<le> rem \<and> rem \<noteq> 0")
    case True
    then obtain ts1 where "fill symb a (rem - o_remaining_quantity r) rs = (rem', ts1, os')"
      using "2.prems" by (auto split: prod.splits)
    then have "unat (rem - o_remaining_quantity r) = unat rem' + queue_depth (crossing a rs)"
      using True "2.prems" "2.IH" by blast
    moreover have "unat (rem - o_remaining_quantity r) = unat rem - unat (o_remaining_quantity r)"
      "unat (o_remaining_quantity r) \<le> unat rem"
      using True by (auto simp: unat_sub word_le_nat_alt)
    ultimately show ?thesis using True by (simp add: crossing_def)
  next
    case False
    with "2.prems" show ?thesis by (auto simp: crossing_def split: if_splits)
  qed
qed (auto simp: crossing_def)

lemma fill_all:
  assumes f: "fill symb a rem os = (rem', ts, os')" and le: "rem \<le> available a os"
  shows "rem' = 0"
proof (rule ccontr)
  assume "rem' \<noteq> 0"
  from fill_crossing [OF f this] have c: "unat rem = unat rem' + queue_depth (crossing a os)" .
  have "0 < unat rem'" using \<open>rem' \<noteq> 0\<close> by (simp add: unat_gt_0)
  moreover have "unat rem < 2 ^ 64" using unsigned_less [of rem, where 'a = nat] by simp
  ultimately have "unat (available a os) = queue_depth (crossing a os)" using c by (intro available_depth) simp
  with le c \<open>0 < unat rem'\<close> show False by (simp add: word_le_nat_alt)
qed

section \<open>An accepted order\<close>

lemma set_queue_simps [simp]:
  "queue buy (set_queue buy os b) = os" "queue (\<not> buy) (set_queue buy os b) = queue (\<not> buy) b"
  "queue buy (set_queue (\<not> buy) os b) = queue buy b"
  "sb_symbol_id (set_queue buy os b) = sb_symbol_id b"
  by (cases buy; simp add: set_queue_def)+

text \<open>The effect of \<open>spec_add\<close> on an accepted order, with the execution spelled out.\<close>

lemma spec_add_accepted:
  assumes "spec_add a b = (res, b')" "ar_accepted res"
  obtains rem ts where
    "spec_reject a b = None"
    "fill (sb_symbol_id b) a (a_quantity a) (queue (a_side a \<noteq> Buy) b) =
       (rem, ts, queue (a_side a \<noteq> Buy) b')"
    "ar_trades res = ts" "ar_filled_quantity res = a_quantity a - rem"
    "ar_remaining_quantity res = (if can_rest a rem then rem else 0)"
    "ar_reject_reason res = NoReason" "sb_symbol_id b' = sb_symbol_id b"
    "res = (if can_rest a rem then rest_result (sb_symbol_id b) a rem ts else done_result a rem ts)"
    "queue (a_side a = Buy) b' =
       (if can_rest a rem then
          place (a_side a = Buy) (resting_order (sb_symbol_id b) a rem) (queue (a_side a = Buy) b)
        else queue (a_side a = Buy) b)"
proof -
  have none: "spec_reject a b = None"
    using assms by (auto simp: spec_add_def AddResult_init_def split: option.splits)
  obtain rem ts opp where f:
    "fill (sb_symbol_id b) a (a_quantity a) (queue (a_side a \<noteq> Buy) b) = (rem, ts, opp)"
    by (metis prod_cases3)
  have qs: "queue (a_side a = Buy) (set_queue (a_side a \<noteq> Buy) os b) = queue (a_side a = Buy) b"
    "queue (a_side a \<noteq> Buy) (set_queue (a_side a = Buy) os b) = queue (a_side a \<noteq> Buy) b" for os b
    by (cases "a_side a = Buy"; simp add: set_queue_def)+
  from assms(1) none f have e: "res = (if can_rest a rem then rest_result (sb_symbol_id b) a rem ts else done_result a rem ts)"
    "queue (a_side a \<noteq> Buy) b' = opp" "sb_symbol_id b' = sb_symbol_id b"
    "queue (a_side a = Buy) b' =
       (if can_rest a rem then
          place (a_side a = Buy) (resting_order (sb_symbol_id b) a rem) (queue (a_side a = Buy) b)
        else queue (a_side a = Buy) b)"
    by (auto simp: spec_add_def spec_execute_def Let_def qs split: if_splits)
  show thesis
    by (rule that [of rem ts]) (use none f e in \<open>auto simp: result_defs\<close>)
qed

lemma spec_add_rejected:
  assumes "spec_add a b = (res, b')" "\<not> ar_accepted res"
  obtains r where "spec_reject a b = Some r" "res = add_reject r" "b' = b"
  using assms by (auto simp: spec_add_def spec_execute_def result_defs Let_def
      split: option.splits prod.splits if_splits)

lemma spec_reject_NoReason: "spec_reject a b \<noteq> Some NoReason"
  by (simp add: spec_reject_def)

lemma spec_add_accepted_iff:
  assumes "spec_add a b = (res, b')"
  shows "ar_accepted res \<longleftrightarrow> spec_reject a b = None"
  using assms by (auto simp: spec_add_def spec_execute_def result_defs Let_def
      split: option.splits prod.splits if_splits)

text \<open>Fill-or-kill is all or nothing.\<close>

lemma spec_add_fok:
  assumes "spec_add a b = (res, b')" "ar_accepted res" "a_tif a = FillOrKill"
  shows "ar_filled_quantity res = a_quantity a" "ar_final_status res = Filled"
    "queue (a_side a = Buy) b' = queue (a_side a = Buy) b"
proof -
  from assms(1,2) obtain rem ts where r: "spec_reject a b = None"
    "fill (sb_symbol_id b) a (a_quantity a) (queue (a_side a \<noteq> Buy) b) =
       (rem, ts, queue (a_side a \<noteq> Buy) b')"
    "ar_filled_quantity res = a_quantity a - rem"
    "res = (if can_rest a rem then rest_result (sb_symbol_id b) a rem ts else done_result a rem ts)"
    "queue (a_side a = Buy) b' =
       (if can_rest a rem then
          place (a_side a = Buy) (resting_order (sb_symbol_id b) a rem) (queue (a_side a = Buy) b)
        else queue (a_side a = Buy) b)" by (rule spec_add_accepted)
  have "a_quantity a \<le> available a (queue (a_side a \<noteq> Buy) b)"
    using r(1) assms(3) by (auto simp: spec_reject_def split: if_splits)
  from fill_all [OF r(2) this] assms(3) r(3,4,5)
  show "ar_filled_quantity res = a_quantity a" "ar_final_status res = Filled"
    "queue (a_side a = Buy) b' = queue (a_side a = Buy) b"
    by (simp_all add: can_rest_def done_result_def AddResult_init_def)
qed

section \<open>Cancelling and modifying\<close>

lemma spec_find_split:
  assumes "spec_inv b" "spec_find oid b = Some r"
  obtains buy xs ys where "queue buy b = xs @ r # ys" "o_id r = oid" "(o_side r = Buy) = buy"
    "oid \<notin> o_id ` set xs" "oid \<notin> o_id ` set ys" "oid \<notin> o_id ` set (queue (\<not> buy) b)"
proof -
  from spec_find_mem [OF assms(2)] have mem: "r \<in> set (all_orders b)" "o_id r = oid" by auto
  define buy where "buy = (r \<in> set (sb_bids b))"
  have "r \<in> set (queue buy b)" using mem by (auto simp: all_orders_def buy_def queue_def)
  then obtain xs ys where q: "queue buy b = xs @ r # ys" by (meson split_list)
  have "distinct (map o_id (queue buy b))" "o_id ` set (queue buy b) \<inter> o_id ` set (queue (\<not> buy) b) = {}"
    using assms(1) by (auto simp: spec_inv_sides queue_def)
  moreover have "(o_side r = Buy) = buy"
    using \<open>r \<in> set (queue buy b)\<close> assms(1) by (auto simp: spec_inv_def order_ok_def)
  ultimately show thesis using q mem(2) by (intro that [of buy xs ys]) auto
qed

text \<open>Once an order is out of the book, putting it back with a new price and quantity is accepted.\<close>

lemma spec_replace_accepted:
  assumes "spec_inv b" "spec_find oid b = Some r" "q \<noteq> 0" "Price 0 < p"
  shows "spec_reject (replace_args r p q seq ts) (spec_remove oid b) = None"
proof -
  from spec_find_mem [OF assms(2)] have mem: "r \<in> set (all_orders b)" "o_id r = oid" by auto
  with assms(1) have "o_id r \<noteq> 0" "o_type r = Limit" "o_time_in_force r = GoodTillCancel"
    by (auto simp: spec_inv_def order_ok_def all_orders_def all_bool_eq)
  with assms(3,4) mem show ?thesis
    by (auto simp: spec_reject_def replace_args_def spec_remove_def all_orders_def withdraw_def)
qed

end
