(* ===== verification/Fast_Book.thy ===== *)
theory Fast_Book
  imports Fast_Level Book_Laws
begin

text \<open>
  \<open>fast::OrderBook\<close> (\<open>include/matching_engine/fast/order_book.hpp\<close>, \<open>src/fast/order_book.cpp\<close>):
  the book whose orders live in a preallocated pool and whose levels are intrusive lists. Every
  operation follows pointers, so every one returns an option, \<open>None\<close> being undefined behaviour.

  The lemmas show that, as long as the pool has room for one more order, every operation is
  defined and refines the contract of \<open>Book_Spec\<close>, so that the book is interchangeable with
  the naive one; the branch taken when the pool is exhausted is characterised separately.
\<close>

section \<open>State and observers\<close>

type_synonym fast_levels = "(price, fast_level) ordered_map"

record fast_book =
  fb_symbol_id :: symbol_id
  fb_bids :: fast_levels
  fb_asks :: fast_levels
  fb_index :: "(order_id, nat) unordered_map"
  fb_pool :: node_pool

definition fast_new :: "symbol_id \<Rightarrow> nat \<Rightarrow> fast_book" where
  "fast_new symb max_orders = \<lparr>fb_symbol_id = symb, fb_bids = [], fb_asks = [], fb_index = [],
     fb_pool = ObjectPool_new max_orders\<rparr>"

definition fast_HasOrder :: "order_id \<Rightarrow> fast_book \<Rightarrow> bool" where
  "fast_HasOrder oid b = (map_of (fb_index b) oid \<noteq> None)"

definition fast_HasBestBid :: "fast_book \<Rightarrow> bool" where
  "fast_HasBestBid b = (fb_bids b \<noteq> [])"

definition fast_HasBestAsk :: "fast_book \<Rightarrow> bool" where
  "fast_HasBestAsk b = (fb_asks b \<noteq> [])"

definition fast_BestBid :: "fast_book \<Rightarrow> price" where
  "fast_BestBid b = first_price (fb_bids b)"

definition fast_BestAsk :: "fast_book \<Rightarrow> price" where
  "fast_BestAsk b = first_price (fb_asks b)"

definition fast_QuantityAt :: "side \<Rightarrow> price \<Rightarrow> fast_book \<Rightarrow> quantity" where
  "fast_QuantityAt s p b =
     (case map_of (if s = Buy then fb_bids b else fb_asks b) p of
        None \<Rightarrow> 0 | Some l \<Rightarrow> fl_total_quantity l)"

definition fast_OrderCountAt :: "side \<Rightarrow> price \<Rightarrow> fast_book \<Rightarrow> nat" where
  "fast_OrderCountAt s p b =
     (case map_of (if s = Buy then fb_bids b else fb_asks b) p of
        None \<Rightarrow> 0 | Some l \<Rightarrow> fl_count l)"

definition fast_TotalOrderCount :: "fast_book \<Rightarrow> nat" where
  "fast_TotalOrderCount b = length (fb_index b)"

definition fast_PoolAvailable :: "fast_book \<Rightarrow> nat" where
  "fast_PoolAvailable b = pool_available (fb_pool b)"

section \<open>Mutators\<close>

fun fast_available_levels :: "order_args \<Rightarrow> quantity \<Rightarrow> fast_levels \<Rightarrow> quantity" where
  "fast_available_levels a tot [] = tot"
| "fast_available_levels a tot ((p, level) # levels) =
     (if \<not> crosses a p then tot
      else fast_available_levels a (tot + fl_total_quantity level) levels)"

definition fast_AvailableCrossingQuantity :: "order_args \<Rightarrow> fast_book \<Rightarrow> quantity" where
  "fast_AvailableCrossingQuantity a b =
     (if a_side a = Buy then fast_available_levels a 0 (fb_asks b)
      else fast_available_levels a 0 (fb_bids b))"

text \<open>The loop of \<open>match_against\<close> over the levels of one side.\<close>

fun fast_match_levels ::
  "symbol_id \<Rightarrow> order_args \<Rightarrow> quantity \<Rightarrow> trade list \<Rightarrow> fast_levels \<Rightarrow> (order_id, nat) unordered_map \<Rightarrow>
   node_pool \<Rightarrow>
   (quantity \<times> trade list \<times> fast_levels \<times> (order_id, nat) unordered_map \<times> node_pool) option" where
  "fast_match_levels symb a remaining trades [] index p = Some (remaining, trades, [], index, p)"
| "fast_match_levels symb a remaining trades ((lp, level) # levels) index p =
     (if \<not> 0 < remaining \<or> \<not> crosses a lp then Some (remaining, trades, (lp, level) # levels, index, p)
      else
        do {
          (rem1, ts1, level1, index1, p1) \<leftarrow>
            fast_match_orders symb a remaining trades (fl_head level) level index p;
          (rem2, ts2, levels2, index2, p2) \<leftarrow> fast_match_levels symb a rem1 ts1 levels index1 p1;
          Some (rem2, ts2, (if fl_count level1 = 0 then levels2 else (lp, level1) # levels2), index2, p2)
        })"

definition fast_Match :: "order_args \<Rightarrow> quantity \<Rightarrow> fast_book \<Rightarrow> (quantity \<times> trade list \<times> fast_book) option" where
  "fast_Match a remaining b =
     (if a_side a = Buy then
        do {
          (rem', ts, ls, idx, p) \<leftarrow>
            fast_match_levels (fb_symbol_id b) a remaining [] (fb_asks b) (fb_index b) (fb_pool b);
          Some (rem', ts, b\<lparr>fb_asks := ls, fb_index := idx, fb_pool := p\<rparr>)
        }
      else
        do {
          (rem', ts, ls, idx, p) \<leftarrow>
            fast_match_levels (fb_symbol_id b) a remaining [] (fb_bids b) (fb_index b) (fb_pool b);
          Some (rem', ts, b\<lparr>fb_bids := ls, fb_index := idx, fb_pool := p\<rparr>)
        })"

text \<open>\<open>PriceLevel& level = levels[order.price]\<close> and the three statements on it.\<close>

definition fast_insert_level ::
  "(price \<Rightarrow> price \<Rightarrow> bool) \<Rightarrow> nat \<Rightarrow> order \<Rightarrow> fast_levels \<Rightarrow> node_pool \<Rightarrow> (fast_levels \<times> node_pool) option" where
  "fast_insert_level lt n x ls p =
     (let level = (case map_of ls (o_price x) of None \<Rightarrow> FastLevel_init | Some l \<Rightarrow> l) in
      do {
        (level', p') \<leftarrow>
          fast_PushBack n (level\<lparr>fl_price := o_price x,
            fl_total_quantity := fl_total_quantity level + o_remaining_quantity x\<rparr>) p;
        Some (omap_at lt (o_price x) FastLevel_init (\<lambda>_. level') ls, p')
      })"

text \<open>The result is the null pointer (\<open>None\<close>) when the pool is exhausted.\<close>

definition fast_InsertResting :: "order \<Rightarrow> fast_book \<Rightarrow> (nat option \<times> fast_book) option" where
  "fast_InsertResting x b =
     do {
       (node, p0) \<leftarrow> pool_Acquire Node_init (fb_pool b);
       (case node of
          None \<Rightarrow> Some (None, b\<lparr>fb_pool := p0\<rparr>)
        | Some n \<Rightarrow>
            do {
              p1 \<leftarrow> node_update n (\<lambda>nd. nd\<lparr>nd_order := x\<rparr>) p0;
              p2 \<leftarrow> node_update n (\<lambda>nd. nd\<lparr>nd_prev := None, nd_next := None\<rparr>) p1;
              b' \<leftarrow>
                (if o_side x = Buy then
                   do { (ls, p3) \<leftarrow> fast_insert_level (>) n x (fb_bids b) p2;
                        Some (b\<lparr>fb_bids := ls, fb_pool := p3\<rparr>) }
                 else
                   do { (ls, p3) \<leftarrow> fast_insert_level (<) n x (fb_asks b) p2;
                        Some (b\<lparr>fb_asks := ls, fb_pool := p3\<rparr>) });
              Some (Some n, b'\<lparr>fb_index := AList.update (o_id x) n (fb_index b')\<rparr>)
            })
     }"

definition fast_remove_level :: "nat \<Rightarrow> price \<Rightarrow> fast_level \<Rightarrow> fast_levels \<Rightarrow> node_pool \<Rightarrow> (fast_levels \<times> node_pool) option" where
  "fast_remove_level n pr level ls p =
     do {
       nd \<leftarrow> pool_read n p;
       (level', p') \<leftarrow>
         fast_Unlink n (level\<lparr>fl_total_quantity :=
           fl_total_quantity level - o_remaining_quantity (nd_order nd)\<rparr>) p;
       Some (if fl_count level' = 0 then omap_erase pr ls else omap_put pr level' ls, p')
     }"

text \<open>When the level is not found, \<open>RemoveFromBook\<close> returns at once.\<close>

definition fast_RemoveFromBook :: "nat \<Rightarrow> side \<Rightarrow> price \<Rightarrow> order_id \<Rightarrow> fast_book \<Rightarrow> fast_book option" where
  "fast_RemoveFromBook n s pr oid b =
     (if s = Buy then
        (case map_of (fb_bids b) pr of
           None \<Rightarrow> Some b
         | Some level \<Rightarrow>
             do {
               (ls, p1) \<leftarrow> fast_remove_level n pr level (fb_bids b) (fb_pool b);
               p2 \<leftarrow> pool_Release n p1;
               Some (b\<lparr>fb_bids := ls, fb_index := AList.delete oid (fb_index b), fb_pool := p2\<rparr>)
             })
      else
        (case map_of (fb_asks b) pr of
           None \<Rightarrow> Some b
         | Some level \<Rightarrow>
             do {
               (ls, p1) \<leftarrow> fast_remove_level n pr level (fb_asks b) (fb_pool b);
               p2 \<leftarrow> pool_Release n p1;
               Some (b\<lparr>fb_asks := ls, fb_index := AList.delete oid (fb_index b), fb_pool := p2\<rparr>)
             }))"

text \<open>The results have the fields and the initial values of those of the naive book.\<close>

type_synonym fast_add_result = add_result
type_synonym fast_cancel_result = cancel_result
type_synonym fast_modify_result = modify_result

text \<open>The result when the remainder cannot rest because the pool is exhausted.\<close>

definition exhausted_result :: "order_args \<Rightarrow> quantity \<Rightarrow> trade list \<Rightarrow> fast_add_result" where
  "exhausted_result a remaining trades =
     AddResult_init\<lparr>ar_accepted := a_quantity a - remaining > 0, ar_reject_reason := PoolExhausted,
       ar_filled_quantity := a_quantity a - remaining, ar_remaining_quantity := 0, ar_trades := trades,
       ar_final_status := (if a_quantity a - remaining > 0 then Filled else Rejected)\<rparr>"

definition fast_AddOrder :: "order_args \<Rightarrow> fast_book \<Rightarrow> (fast_add_result \<times> fast_book) option" where
  "fast_AddOrder a b =
     (if a_id a = kInvalidOrderId then Some (add_reject UnknownOrder, b)
      else if map_of (fb_index b) (a_id a) \<noteq> None then Some (add_reject DuplicateOrderId, b)
      else if a_quantity a = 0 then Some (add_reject InvalidQuantity, b)
      else if a_type a = Limit \<and> a_price a \<le> Price 0 then Some (add_reject InvalidPrice, b)
      else if a_type a = Market \<and> (if a_side a = Buy then fb_asks b = [] else fb_bids b = [])
        then Some (add_reject MarketOrderNoLiquidity, b)
      else if a_tif a = FillOrKill \<and> fast_AvailableCrossingQuantity a b < a_quantity a
        then Some (add_reject FillOrKillNotFilled, b)
      else
        do {
          (rem, ts, b1) \<leftarrow> fast_Match a (a_quantity a) b;
          if can_rest a rem then
            do {
              (node, b2) \<leftarrow> fast_InsertResting (resting_order (fb_symbol_id b) a rem) b1;
              Some (if node = None then exhausted_result a rem ts
                    else rest_result (fb_symbol_id b) a rem ts, b2)
            }
          else Some (done_result a rem ts, b1)
        })"

definition fast_CancelOrder :: "order_id \<Rightarrow> fast_book \<Rightarrow> (fast_cancel_result \<times> fast_book) option" where
  "fast_CancelOrder oid b =
     (case map_of (fb_index b) oid of
        None \<Rightarrow> Some (cancel_reject UnknownOrder, b)
      | Some n \<Rightarrow>
          do {
            nd \<leftarrow> pool_read n (fb_pool b);
            b' \<leftarrow> fast_RemoveFromBook n (o_side (nd_order nd)) (o_price (nd_order nd)) oid b;
            Some (CancelResult_init\<lparr>cr_success := True, cr_symbol_id := o_symbol_id (nd_order nd),
                    cr_trader_id := o_trader_id (nd_order nd)\<rparr>, b')
          })"

definition fast_AmendInPlace :: "nat \<Rightarrow> order \<Rightarrow> quantity \<Rightarrow> fast_book \<Rightarrow> fast_book option" where
  "fast_AmendInPlace n snapshot new_quantity b =
     (let delta = o_remaining_quantity snapshot - new_quantity in
      do {
        p \<leftarrow> node_update n (\<lambda>nd. nd\<lparr>nd_order := (nd_order nd)\<lparr>o_remaining_quantity := new_quantity,
               o_quantity := o_quantity snapshot - delta\<rparr>\<rparr>) (fb_pool b);
        Some (if o_side snapshot = Buy then
                b\<lparr>fb_bids := omap_at (>) (o_price snapshot) FastLevel_init
                     (\<lambda>l. l\<lparr>fl_total_quantity := fl_total_quantity l - delta\<rparr>) (fb_bids b), fb_pool := p\<rparr>
              else
                b\<lparr>fb_asks := omap_at (<) (o_price snapshot) FastLevel_init
                     (\<lambda>l. l\<lparr>fl_total_quantity := fl_total_quantity l - delta\<rparr>) (fb_asks b), fb_pool := p\<rparr>)
      })"

definition fast_ModifyOrder ::
  "order_id \<Rightarrow> price \<Rightarrow> quantity \<Rightarrow> sequence_number \<Rightarrow> timestamp \<Rightarrow> fast_book \<Rightarrow>
   (fast_modify_result \<times> fast_book) option" where
  "fast_ModifyOrder oid new_price new_quantity seq ts b =
     (case map_of (fb_index b) oid of
        None \<Rightarrow> Some (modify_reject UnknownOrder, b)
      | Some n \<Rightarrow>
          if new_quantity = 0 then Some (modify_reject InvalidQuantity, b)
          else if new_price \<le> Price 0 then Some (modify_reject InvalidPrice, b)
          else do {
            nd \<leftarrow> pool_read n (fb_pool b);
            let snapshot = nd_order nd in
            if new_price = o_price snapshot \<and> new_quantity \<le> o_remaining_quantity snapshot then
              do {
                b' \<leftarrow> fast_AmendInPlace n snapshot new_quantity b;
                Some (amend_result new_quantity, b')
              }
            else
              do {
                b1 \<leftarrow> fast_RemoveFromBook n (o_side snapshot) (o_price snapshot) oid b;
                (add, b2) \<leftarrow> fast_AddOrder
                  \<lparr>a_id = oid, a_trader_id = o_trader_id snapshot, a_side = o_side snapshot,
                   a_type = o_type snapshot, a_price = new_price, a_quantity = new_quantity,
                   a_tif = o_time_in_force snapshot, a_seq = seq, a_ts = ts\<rparr> b1;
                Some (replace_result add, b2)
              }
          })"

section \<open>Representation\<close>

text \<open>A side of the fast book represents a side of \<open>Price_Levels\<close>, level by level.\<close>

definition side_rel :: "(nat \<Rightarrow> node option) \<Rightarrow> fast_levels \<Rightarrow> levels \<Rightarrow> bool" where
  "side_rel h = list_all2 (\<lambda>e g. fst e = fst g \<and> level_rel h (snd e) (snd g))"

lemma side_rel_simps [simp]:
  "side_rel h [] gls \<longleftrightarrow> gls = []" "side_rel h fls [] \<longleftrightarrow> fls = []"
  "side_rel h (e # fls) (g # gls) \<longleftrightarrow> fst e = fst g \<and> level_rel h (snd e) (snd g) \<and> side_rel h fls gls"
  by (simp_all add: side_rel_def)

lemma side_rel_Cons2:
  "side_rel h fls ((q, gl) # gls) \<longleftrightarrow>
     (\<exists>fl fls'. fls = (q, fl) # fls' \<and> level_rel h fl gl \<and> side_rel h fls' gls)"
  by (cases fls) (auto simp: side_rel_def)

lemma side_rel_append2:
  assumes "side_rel h fls (g1 @ g2)"
  obtains f1 f2 where "fls = f1 @ f2" "side_rel h f1 g1" "side_rel h f2 g2"
  using assms unfolding side_rel_def list_all2_append2 by blast

lemma side_rel_appendI: "side_rel h f1 g1 \<Longrightarrow> side_rel h f2 g2 \<Longrightarrow> side_rel h (f1 @ f2) (g1 @ g2)"
  by (simp add: side_rel_def list_all2_appendI)

lemma side_rel_frame:
  assumes "side_rel h fls gls" "\<forall>n \<in> fst ` set (nodes gls). h' n = h n"
  shows "side_rel h' fls gls"
  using assms
proof (induction gls arbitrary: fls)
  case (Cons g gls)
  obtain q gl where g: "g = (q, gl)" by (cases g)
  from Cons.prems(2) have "\<forall>n \<in> fst ` set (lv_orders gl). h' n = h n" "\<forall>n \<in> fst ` set (nodes gls). h' n = h n"
    by (auto simp: g image_Un)
  note same = this
  from Cons.prems(1) obtain fl fls' where fls: "fls = (q, fl) # fls'" "level_rel h fl gl" "side_rel h fls' gls"
    by (auto simp: g side_rel_Cons2)
  have "level_rel h' fl gl" using level_rel_frame [OF same(1)] fls(2) by simp
  with Cons.IH [OF fls(3) same(2)] show ?case by (simp add: g fls(1))
qed simp

lemma side_rel_keys: "side_rel h fls gls \<Longrightarrow> map fst fls = map fst gls"
  unfolding side_rel_def by (induction rule: list_all2_induct) auto

lemma side_rel_empty: "side_rel h fls gls \<Longrightarrow> fls = [] \<longleftrightarrow> gls = []"
  by (auto simp: side_rel_def)

text \<open>Looking up a level on both sides.\<close>

lemma side_rel_find:
  assumes "side_rel h fls gls"
  shows "(map_of fls q = None \<and> map_of gls q = None) \<or>
    (\<exists>fl gl. map_of fls q = Some fl \<and> map_of gls q = Some gl \<and> level_rel h fl gl)"
  using assms
proof (induction gls arbitrary: fls)
  case (Cons g gls)
  obtain q' gl where g: "g = (q', gl)" by (cases g)
  with Cons.prems obtain fl fls' where fls: "fls = (q', fl) # fls'" "level_rel h fl gl" "side_rel h fls' gls"
    by (auto simp: side_rel_Cons2)
  from Cons.IH [OF fls(3)] fls(2) show ?case by (cases "q = q'") (simp_all add: g fls(1))
qed simp

lemma fast_available_refines:
  assumes "side_rel h fls gls"
  shows "fast_available_levels a tot fls = available_levels a tot gls"
  using assms
proof (induction gls arbitrary: fls tot)
  case (Cons g gls)
  obtain q gl where g: "g = (q, gl)" by (cases g)
  with Cons show ?case by (auto simp: side_rel_Cons2 level_rel_def)
qed simp

subsection \<open>The loop over the levels\<close>

lemma frees_union:
  assumes "frees S1 R1 p p1" "frees S2 R2 p1 p2" "S1 \<inter> S2 = {}" "R1 \<subseteq> S1" "R2 \<subseteq> S2"
  shows "frees (S1 \<union> S2) (R1 \<union> R2) p p2"
proof -
  have "dom (pool_heap p2) = dom (pool_heap p) - (S1 - R1) - (S2 - R2)"
    using assms(1,2) unfolding frees_def by simp
  also have "\<dots> = dom (pool_heap p) - ((S1 \<union> S2) - (R1 \<union> R2))" using assms(3-5) by blast
  finally show ?thesis using assms(1,2) unfolding frees_def by simp
qed

lemma fast_match_levels_refines:
  assumes "pool_inv p" "side_rel (pool_heap p) fls gls" "distinct (map fst (nodes gls))"
    "match_levels symb a rem gls idx = (rem', ts, gls', idx')"
  shows "\<exists>fls' p'. fast_match_levels symb a rem trades fls idx p = Some (rem', trades @ ts, fls', idx', p') \<and>
    side_rel (pool_heap p') fls' gls' \<and>
    frees (fst ` set (nodes gls)) (fst ` set (nodes gls')) p p' \<and>
    fst ` set (nodes gls') \<subseteq> fst ` set (nodes gls)"
  using assms
proof (induction gls arbitrary: fls p rem trades idx ts rem' gls' idx')
  case Nil
  then show ?case by (auto simp: frees_refl)
next
  case (Cons g gls)
  obtain q gl where g: "g = (q, gl)" by (cases g)
  from Cons.prems(2) obtain fl fls1 where fls: "fls = (q, fl) # fls1" "level_rel (pool_heap p) fl gl"
    "side_rel (pool_heap p) fls1 gls" unfolding g side_rel_Cons2 by blast
  let ?S1 = "fst ` set (lv_orders gl)" and ?S2 = "fst ` set (nodes gls)"
  have d: "distinct (map fst (lv_orders gl))" "distinct (map fst (nodes gls))" "?S1 \<inter> ?S2 = {}"
    using Cons.prems(3) by (simp_all add: g)
  show ?case
  proof (cases "\<not> 0 < rem \<or> \<not> crosses a q")
    case True
    with Cons.prems fls show ?thesis by (auto simp: g frees_refl)
  next
    case False
    obtain rem1 ts1 ns1 tot1 idx1 where m1:
      "match_orders symb a rem (lv_orders gl) (lv_total_quantity gl) idx = (rem1, ts1, ns1, tot1, idx1)"
      by (metis prod_cases5)
    obtain rem2 ts2 gls2 idx2 where m2: "match_levels symb a rem1 gls idx1 = (rem2, ts2, gls2, idx2)"
      by (metis prod_cases4)
    let ?gl = "gl\<lparr>lv_total_quantity := tot1, lv_orders := ns1\<rparr>"
    have out: "rem' = rem2" "ts = ts1 @ ts2" "gls' = (if ns1 = [] then gls2 else (q, ?gl) # gls2)" "idx' = idx2"
      using Cons.prems(4) False by (auto simp: g m1 m2)
    from fast_match_orders_refines [OF Cons.prems(1) fls(2) d(1) m1, of trades] obtain fl1 p1 where
      f1: "fast_match_orders symb a rem trades (fl_head fl) fl idx p = Some (rem1, trades @ ts1, fl1, idx1, p1)"
        "level_rel (pool_heap p1) fl1 ?gl" "frees ?S1 (fst ` set ns1) p p1" "fst ` set ns1 \<subseteq> ?S1" by blast
    have "\<forall>n \<in> ?S2. pool_heap p1 n = pool_heap p n" using f1(3) d(3) unfolding frees_def by blast
    then have rel1: "side_rel (pool_heap p1) fls1 gls" using side_rel_frame [OF fls(3)] by blast
    have inv1: "pool_inv p1" using f1(3) by (simp add: frees_def)
    from Cons.IH [OF inv1 rel1 d(2) m2, of "trades @ ts1"] obtain fls2 p2 where
      f2: "fast_match_levels symb a rem1 (trades @ ts1) fls1 idx1 p1 = Some (rem2, (trades @ ts1) @ ts2, fls2, idx2, p2)"
        "side_rel (pool_heap p2) fls2 gls2" "frees ?S2 (fst ` set (nodes gls2)) p1 p2"
        "fst ` set (nodes gls2) \<subseteq> ?S2" by blast
    have "\<forall>n \<in> fst ` set ns1. pool_heap p2 n = pool_heap p1 n"
      using f2(3) f1(4) d(3) unfolding frees_def by blast
    then have lev: "level_rel (pool_heap p2) fl1 ?gl" using f1(2) level_rel_frame [of ?gl "pool_heap p2" "pool_heap p1" fl1] by simp
    have cnt: "fl_count fl1 = 0 \<longleftrightarrow> ns1 = []" using f1(2) by (simp add: level_rel_def)
    have nd: "fst ` set (nodes gls') = fst ` set ns1 \<union> fst ` set (nodes gls2)" by (auto simp: out image_Un)
    have "frees (fst ` set (nodes (g # gls))) (fst ` set (nodes gls')) p p2"
      using frees_union [OF f1(3) f2(3) d(3) f1(4) f2(4)] by (simp add: nd g image_Un)
    moreover have "fst ` set (nodes gls') \<subseteq> fst ` set (nodes (g # gls))"
      using f1(4) f2(4) by (auto simp: nd g)
    ultimately show ?thesis
      using False f1(1) f2(1,2) lev cnt by (simp add: fls(1) out)
  qed
qed

subsection \<open>Updates of one level\<close>

lemma side_rel_ball:
  assumes "side_rel h fls gls"
  shows "(\<forall>e \<in> set fls. P (fst e)) \<longleftrightarrow> (\<forall>e \<in> set gls. P (fst e))"
proof -
  have "(\<forall>e \<in> set fls. P (fst e)) \<longleftrightarrow> (\<forall>k \<in> set (map fst fls). P k)" by simp
  then show ?thesis unfolding side_rel_keys [OF assms] by simp
qed

text \<open>A level that is present, on both sides, with what stands before and after it.\<close>

lemma side_rel_split:
  assumes rel: "side_rel h fls (pre @ (q, gl) # post)"
    and pre: "\<forall>e \<in> set pre. better buy (fst e) q" and post: "\<forall>e \<in> set post. better buy q (fst e)"
  obtains fpre fl fpost where "fls = fpre @ (q, fl) # fpost" "side_rel h fpre pre" "level_rel h fl gl"
    "side_rel h fpost post" "\<forall>e \<in> set fpre. better buy (fst e) q" "\<forall>e \<in> set fpost. better buy q (fst e)"
    "map_of fls q = Some fl"
proof -
  from rel obtain fpre f2 where f: "fls = fpre @ f2" "side_rel h fpre pre" "side_rel h f2 ((q, gl) # post)"
    by (rule side_rel_append2)
  then obtain fl fpost where f2: "f2 = (q, fl) # fpost" "level_rel h fl gl" "side_rel h fpost post"
    unfolding side_rel_Cons2 by blast
  have bounds: "\<forall>e \<in> set fpre. better buy (fst e) q" "\<forall>e \<in> set fpost. better buy q (fst e)"
    using pre post side_rel_ball [OF f(2), where P = "\<lambda>k. better buy k q"]
      side_rel_ball [OF f2(3), where P = "\<lambda>k. better buy q k"] by blast+
  then have "map_of fls q = Some fl"
    using side_order.map_of_split [OF bounds, of fl] by (simp add: f(1) f2(1) del: map_of_append)
  with f f2 bounds show thesis by (intro that [of fpre fl fpost]) simp_all
qed

lemma side_rel_put:
  assumes "side_rel h fpre pre" "side_rel h fpost post" "level_rel h' fl' gl'"
    "\<forall>n \<in> fst ` set (nodes pre). h' n = h n" "\<forall>n \<in> fst ` set (nodes post). h' n = h n"
  shows "side_rel h' (fpre @ (q, fl') # fpost) (pre @ (q, gl') # post)" "side_rel h' (fpre @ fpost) (pre @ post)"
  using assms(3) side_rel_frame [OF assms(1,4)] side_rel_frame [OF assms(2,5)]
  by (auto intro: side_rel_appendI)

lemma push_order_refines:
  assumes inv: "pool_inv p" and nd: "pool_heap p n = Some nd" "nd_order nd = x"
    and rel: "level_rel (pool_heap p) fl gl"
    and new: "n \<notin> fst ` set (lv_orders gl)" and dist: "distinct (map fst (lv_orders gl))"
  obtains fl' p' where
    "fast_PushBack n (fl\<lparr>fl_price := o_price x,
       fl_total_quantity := fl_total_quantity fl + o_remaining_quantity x\<rparr>) p = Some (fl', p')"
    "touches (insert n (fst ` set (lv_orders gl))) p p'" "level_rel (pool_heap p') fl' (push_order n x gl)"
proof -
  let ?gl = "gl\<lparr>lv_price := o_price x, lv_total_quantity := lv_total_quantity gl + o_remaining_quantity x\<rparr>"
  have "level_rel (pool_heap p) (fl\<lparr>fl_price := o_price x,
      fl_total_quantity := fl_total_quantity fl + o_remaining_quantity x\<rparr>) ?gl"
    using rel by (simp add: level_rel_def)
  from fast_PushBack_appends [OF inv nd(1) this] new dist nd(2) that show thesis
    by (auto simp: push_order_def)
qed

lemma fast_insert_level_refines:
  assumes inv: "pool_inv p" and rel: "side_rel (pool_heap p) fls gls"
    and sorted: "sorted_wrt (better buy) (map fst gls)" and dist: "distinct (map fst (nodes gls))"
    and nd: "pool_heap p n = Some nd" "nd_order nd = x" and new: "n \<notin> fst ` set (nodes gls)"
  obtains fls' p' where "fast_insert_level (better buy) n x fls p = Some (fls', p')"
    "side_rel (pool_heap p') fls' (insert_level (better buy) n x gls)"
    "touches (insert n (fst ` set (nodes gls))) p p'"
proof (cases "map_of gls (o_price x)")
  case None
  then have fnone: "map_of fls (o_price x) = None" using side_rel_find [OF rel, of "o_price x"] by auto
  from side_order.split_absent [OF sorted None] obtain pre post where
    gls: "gls = pre @ post" "\<forall>e \<in> set pre. better buy (fst e) (o_price x)"
      "\<forall>e \<in> set post. better buy (o_price x) (fst e)" .
  from rel obtain fpre fpost where fls: "fls = fpre @ fpost" "side_rel (pool_heap p) fpre pre"
    "side_rel (pool_heap p) fpost post" unfolding gls(1) by (rule side_rel_append2)
  have bounds: "\<forall>e \<in> set fpre. better buy (fst e) (o_price x)" "\<forall>e \<in> set fpost. better buy (o_price x) (fst e)"
    using gls(2,3) side_rel_ball [OF fls(2), where P = "\<lambda>k. better buy k (o_price x)"]
      side_rel_ball [OF fls(3), where P = "\<lambda>k. better buy (o_price x) k"] by blast+
  obtain fl' p' where push: "fast_PushBack n (FastLevel_init\<lparr>fl_price := o_price x,
       fl_total_quantity := fl_total_quantity FastLevel_init + o_remaining_quantity x\<rparr>) p = Some (fl', p')"
    "touches (insert n (fst ` set (lv_orders PriceLevel_init))) p p'"
    "level_rel (pool_heap p') fl' (push_order n x PriceLevel_init)"
    by (rule push_order_refines [OF inv nd level_rel_init]) (simp_all add: PriceLevel_init_def)
  have t: "touches {n} p p'" using push(2) by (simp add: PriceLevel_init_def)
  have "\<forall>m \<in> fst ` set (nodes pre). pool_heap p' m = pool_heap p m"
    "\<forall>m \<in> fst ` set (nodes post). pool_heap p' m = pool_heap p m"
    using t new unfolding touches_def gls(1) by auto
  note side = side_rel_put(1) [OF fls(2,3) push(3) this, of "o_price x"]
  have "fast_insert_level (better buy) n x fls p = Some (fpre @ (o_price x, fl') # fpost, p')"
    using push(1) unfolding fast_insert_level_def Let_def fnone
    by (simp add: fls(1) side_order.omap_at_split [OF bounds])
  moreover have "insert_level (better buy) n x gls = pre @ (o_price x, push_order n x PriceLevel_init) # post"
    by (simp add: insert_level_def gls(1) side_order.omap_at_split [OF gls(2,3)])
  ultimately show thesis
    using side touches_mono [OF t, of "insert n (fst ` set (nodes gls))"] by (intro that) simp_all
next
  case (Some gl)
  from side_order.split_present [OF sorted Some] obtain pre post where
    gls: "gls = pre @ (o_price x, gl) # post" "\<forall>e \<in> set pre. better buy (fst e) (o_price x)"
      "\<forall>e \<in> set post. better buy (o_price x) (fst e)" .
  from side_rel_split [OF rel [unfolded gls(1)] gls(2,3)] obtain fpre fl fpost where
    fls: "fls = fpre @ (o_price x, fl) # fpost" "side_rel (pool_heap p) fpre pre" "level_rel (pool_heap p) fl gl"
    "side_rel (pool_heap p) fpost post" and bounds: "\<forall>e \<in> set fpre. better buy (fst e) (o_price x)"
    "\<forall>e \<in> set fpost. better buy (o_price x) (fst e)" and find: "map_of fls (o_price x) = Some fl" .
  have d: "n \<notin> fst ` set (lv_orders gl)" "distinct (map fst (lv_orders gl))"
    "fst ` set (nodes pre) \<inter> insert n (fst ` set (lv_orders gl)) = {}"
    "fst ` set (nodes post) \<inter> insert n (fst ` set (lv_orders gl)) = {}"
    using new dist by (auto simp: gls(1))
  obtain fl' p' where push: "fast_PushBack n (fl\<lparr>fl_price := o_price x,
       fl_total_quantity := fl_total_quantity fl + o_remaining_quantity x\<rparr>) p = Some (fl', p')"
    "touches (insert n (fst ` set (lv_orders gl))) p p'" "level_rel (pool_heap p') fl' (push_order n x gl)"
    by (rule push_order_refines [OF inv nd fls(3) d(1,2)])
  have "\<forall>m \<in> fst ` set (nodes pre). pool_heap p' m = pool_heap p m"
    "\<forall>m \<in> fst ` set (nodes post). pool_heap p' m = pool_heap p m"
    using push(2) d(3,4) unfolding touches_def by blast+
  note side = side_rel_put(1) [OF fls(2,4) push(3) this, of "o_price x"]
  have "touches (insert n (fst ` set (nodes gls))) p p'"
    by (rule touches_mono [OF push(2)]) (auto simp: gls(1))
  moreover have "fast_insert_level (better buy) n x fls p = Some (fpre @ (o_price x, fl') # fpost, p')"
    using push(1) unfolding fast_insert_level_def Let_def find
    by (simp add: fls(1) side_order.omap_at_split [OF bounds])
  moreover have "insert_level (better buy) n x gls = pre @ (o_price x, push_order n x gl) # post"
    by (simp add: insert_level_def gls(1) side_order.omap_at_split [OF gls(2,3)])
  ultimately show thesis using side by (intro that) simp_all
qed

text \<open>A node that is found in a level, on both sides.\<close>

lemma located_node:
  assumes rel: "side_rel (pool_heap p) fls gls" and ok: "levels_ok symb buy gls"
    and l: "map_of gls q = Some gl" and n: "map_of (lv_orders gl) n = Some x"
    and dist: "distinct (map fst (nodes gls))"
  obtains pre post A B fpre fl fpost where
    "gls = pre @ (q, gl) # post" "lv_orders gl = A @ (n, x) # B"
    "\<forall>e \<in> set pre. better buy (fst e) q" "\<forall>e \<in> set post. better buy q (fst e)"
    "fls = fpre @ (q, fl) # fpost" "side_rel (pool_heap p) fpre pre" "side_rel (pool_heap p) fpost post"
    "\<forall>e \<in> set fpre. better buy (fst e) q" "\<forall>e \<in> set fpost. better buy q (fst e)"
    "map_of fls q = Some fl" "level_rel (pool_heap p) fl gl" "distinct (map fst (lv_orders gl))"
    "fst ` set (nodes pre) \<inter> fst ` set (lv_orders gl) = {}"
    "fst ` set (nodes post) \<inter> fst ` set (lv_orders gl) = {}"
    "\<exists>pr nx. pool_heap p n = Some \<lparr>nd_order = x, nd_prev = pr, nd_next = nx\<rparr>"
proof -
  from node_split [OF ok l n] obtain pre post A B where
    g: "gls = pre @ (q, gl) # post" "lv_orders gl = A @ (n, x) # B"
      "\<forall>e \<in> set pre. better buy (fst e) q" "\<forall>e \<in> set post. better buy q (fst e)" by metis
  from side_rel_split [OF rel [unfolded g(1)] g(3,4)] obtain fpre fl fpost where
    f: "fls = fpre @ (q, fl) # fpost" "side_rel (pool_heap p) fpre pre" "level_rel (pool_heap p) fl gl"
      "side_rel (pool_heap p) fpost post" "\<forall>e \<in> set fpre. better buy (fst e) q"
      "\<forall>e \<in> set fpost. better buy q (fst e)" "map_of fls q = Some fl" .
  have "seg (pool_heap p) None (A @ (n, x) # B) None" using f(3) g(2) by (simp add: level_rel_def)
  from seg_node [OF this] have "\<exists>pr nx. pool_heap p n = Some \<lparr>nd_order = x, nd_prev = pr, nd_next = nx\<rparr>" by blast
  moreover have "distinct (map fst (lv_orders gl))" "fst ` set (nodes pre) \<inter> fst ` set (lv_orders gl) = {}"
    "fst ` set (nodes post) \<inter> fst ` set (lv_orders gl) = {}"
    using dist by (auto simp: g(1))
  ultimately show thesis using g f by (intro that)
qed

lemma fast_remove_level_refines:
  assumes inv: "pool_inv p" and rel: "side_rel (pool_heap p) fls gls" and ok: "levels_ok symb buy gls"
    and l: "map_of gls q = Some gl" and n: "map_of (lv_orders gl) n = Some x"
    and dist: "distinct (map fst (nodes gls))"
  obtains fl fls' p' gls' where "map_of fls q = Some fl" "fast_remove_level n q fl fls p = Some (fls', p')"
    "remove_level q gl n gls = Some gls'" "side_rel (pool_heap p') fls' gls'"
    "touches (fst ` set (nodes gls)) p p'"
proof (rule located_node [OF rel ok l n dist])
  fix pre post A B fpre fl fpost
  assume g: "gls = pre @ (q, gl) # post" "lv_orders gl = A @ (n, x) # B"
      "\<forall>e \<in> set pre. better buy (fst e) q" "\<forall>e \<in> set post. better buy q (fst e)"
    and f: "fls = fpre @ (q, fl) # fpost" "side_rel (pool_heap p) fpre pre" "side_rel (pool_heap p) fpost post"
      "\<forall>e \<in> set fpre. better buy (fst e) q" "\<forall>e \<in> set fpost. better buy q (fst e)"
      "map_of fls q = Some fl" "level_rel (pool_heap p) fl gl"
    and d: "distinct (map fst (lv_orders gl))" "fst ` set (nodes pre) \<inter> fst ` set (lv_orders gl) = {}"
      "fst ` set (nodes post) \<inter> fst ` set (lv_orders gl) = {}"
    and "\<exists>pr nx. pool_heap p n = Some \<lparr>nd_order = x, nd_prev = pr, nd_next = nx\<rparr>"
  then obtain nd where nd: "pool_read n p = Some nd" "nd_order nd = x" by (auto simp: pool_heap_def)
  let ?tot = "lv_total_quantity gl - o_remaining_quantity x"
  let ?gl = "gl\<lparr>lv_total_quantity := ?tot, lv_orders := A @ B\<rparr>"
  have "level_rel (pool_heap p) (fl\<lparr>fl_total_quantity := ?tot\<rparr>) (gl\<lparr>lv_total_quantity := ?tot\<rparr>)"
    "fl_total_quantity fl = lv_total_quantity gl"
    using f(7) by (simp_all add: level_rel_def)
  note lev = this
  have "lv_orders (gl\<lparr>lv_total_quantity := ?tot\<rparr>) = A @ (n, x) # B"
    "distinct (map fst (lv_orders (gl\<lparr>lv_total_quantity := ?tot\<rparr>)))" using g(2) d(1) by simp_all
  from fast_Unlink_removes [OF inv lev(1) this] obtain fl' p' where
    u: "fast_Unlink n (fl\<lparr>fl_total_quantity := ?tot\<rparr>) p = Some (fl', p')"
      "touches (fst ` set (lv_orders gl)) p p'" "level_rel (pool_heap p') fl' ?gl" by auto
  have "\<forall>m \<in> fst ` set (nodes pre). pool_heap p' m = pool_heap p m"
    "\<forall>m \<in> fst ` set (nodes post). pool_heap p' m = pool_heap p m"
    using u(2) d(2,3) unfolding touches_def by blast+
  note side = side_rel_put(1) [OF f(2,3) u(3) this, of q] side_rel_put(2) [OF f(2,3) u(3) this]
  have cnt: "fl_count fl' = 0 \<longleftrightarrow> A @ B = []" using u(3) by (simp add: level_rel_def)
  let ?fls = "if A @ B = [] then fpre @ fpost else fpre @ (q, fl') # fpost"
  let ?gls = "if A @ B = [] then pre @ post else pre @ (q, ?gl) # post"
  have "fast_remove_level n q fl fls p = Some (?fls, p')"
    using nd u(1) lev(2) cnt
    by (simp add: fast_remove_level_def f(1) side_order.omap_erase_split [OF f(4,5)] side_order.omap_put_split [OF f(4,5)])
  moreover have "remove_level q gl n gls = Some ?gls"
    using n d(1) by (simp add: remove_level_def Let_def g(1,2) delete_split
        side_order.omap_erase_split [OF g(3,4)] side_order.omap_put_split [OF g(3,4)])
  moreover have "touches (fst ` set (nodes gls)) p p'"
    by (rule touches_mono [OF u(2)]) (auto simp: g(1))
  moreover have "side_rel (pool_heap p') ?fls ?gls" using side by simp
  ultimately show thesis using f(6) by (intro that [of fl ?fls p' ?gls])
qed

lemma fast_amend_level_refines:
  assumes inv: "pool_inv p" and rel: "side_rel (pool_heap p) fls gls" and ok: "levels_ok symb buy gls"
    and l: "map_of gls q = Some gl" and n: "map_of (lv_orders gl) n = Some x"
    and dist: "distinct (map fst (nodes gls))"
  obtains p' where "node_update n (\<lambda>nd. nd\<lparr>nd_order := x'\<rparr>) p = Some p'"
    "side_rel (pool_heap p')
       (omap_at (better buy) q FastLevel_init (\<lambda>l. l\<lparr>fl_total_quantity := fl_total_quantity l - delta\<rparr>) fls)
       (amend_level (better buy) q gl n x' delta gls)"
    "touches (fst ` set (nodes gls)) p p'"
proof (rule located_node [OF rel ok l n dist])
  fix pre post A B fpre fl fpost
  assume g: "gls = pre @ (q, gl) # post" "lv_orders gl = A @ (n, x) # B"
      "\<forall>e \<in> set pre. better buy (fst e) q" "\<forall>e \<in> set post. better buy q (fst e)"
    and f: "fls = fpre @ (q, fl) # fpost" "side_rel (pool_heap p) fpre pre" "side_rel (pool_heap p) fpost post"
      "\<forall>e \<in> set fpre. better buy (fst e) q" "\<forall>e \<in> set fpost. better buy q (fst e)"
      "map_of fls q = Some fl" "level_rel (pool_heap p) fl gl"
    and d: "distinct (map fst (lv_orders gl))" "fst ` set (nodes pre) \<inter> fst ` set (lv_orders gl) = {}"
      "fst ` set (nodes post) \<inter> fst ` set (lv_orders gl) = {}"
  obtain p' where p': "node_update n (\<lambda>m. m\<lparr>nd_order := x'\<rparr>) p = Some p'" "touches {n} p p'"
    "level_rel (pool_heap p') fl (gl\<lparr>lv_orders := A @ (n, x') # B\<rparr>)"
    by (rule level_set_order [OF inv f(7) g(2) d(1)])
  let ?fl = "fl\<lparr>fl_total_quantity := fl_total_quantity fl - delta\<rparr>"
  let ?gl = "gl\<lparr>lv_orders := A @ (n, x') # B, lv_total_quantity := lv_total_quantity gl - delta\<rparr>"
  have lev: "level_rel (pool_heap p') ?fl ?gl" using p'(3) by (simp add: level_rel_def)
  have t: "touches (fst ` set (lv_orders gl)) p p'" by (rule touches_mono [OF p'(2)]) (simp add: g(2))
  then have "\<forall>m \<in> fst ` set (nodes pre). pool_heap p' m = pool_heap p m"
    "\<forall>m \<in> fst ` set (nodes post). pool_heap p' m = pool_heap p m"
    using d(2,3) unfolding touches_def by blast+
  note side = side_rel_put(1) [OF f(2,3) lev this, of q]
  have "amend_level (better buy) q gl n x' delta gls = pre @ (q, ?gl) # post"
    using d(1) by (simp add: amend_level_def g(1,2) put_split side_order.omap_put_split [OF g(3,4)]
        side_order.omap_at_split [OF g(3,4)])
  moreover have "touches (fst ` set (nodes gls)) p p'"
    by (rule touches_mono [OF t]) (auto simp: g(1))
  ultimately show thesis
    using side p'(1) by (intro that) (simp_all add: f(1) side_order.omap_at_split [OF f(4,5)])
qed

end
