(* ===== verification/Fast_Refine.thy ===== *)
theory Fast_Refine
  imports Fast_Book
begin

text \<open>
  The fast book refines the contract. \<open>fast_rep f G\<close> says that the book \<open>f\<close> represents the
  price levels \<open>G True\<close> (bids) and \<open>G False\<close> (asks) of \<open>Price_Levels\<close>: its lists are threaded
  through the pool, its live slots are exactly the nodes of the levels, and its index leads to
  them. Each operation is shown to be defined, to keep such a representation and to act on the
  queues as the contract does.
\<close>

section \<open>Representation of a book\<close>

definition fast_side :: "bool \<Rightarrow> fast_book \<Rightarrow> fast_levels" where
  "fast_side buy f = (if buy then fb_bids f else fb_asks f)"

definition all_nodes :: "(bool \<Rightarrow> levels) \<Rightarrow> node_list" where
  "all_nodes G = nodes (G True) @ nodes (G False)"

definition fast_rep :: "fast_book \<Rightarrow> (bool \<Rightarrow> levels) \<Rightarrow> bool" where
  "fast_rep f G \<longleftrightarrow>
     pool_inv (fb_pool f) \<and>
     (\<forall>s. side_rel (pool_heap (fb_pool f)) (fast_side s f) (G s) \<and> levels_ok (fb_symbol_id f) s (G s)) \<and>
     distinct (map fst (all_nodes G)) \<and>
     dom (pool_heap (fb_pool f)) = fst ` set (all_nodes G) \<and>
     index_ok fst (fb_index f) (all_nodes G) \<and>
     (\<forall>p \<in> fst ` set (G True). \<forall>q \<in> fst ` set (G False). p < q)"

definition fast_spec :: "fast_book \<Rightarrow> (bool \<Rightarrow> levels) \<Rightarrow> spec_book" where
  "fast_spec f G = \<lparr>sb_symbol_id = fb_symbol_id f, sb_bids = flat (G True), sb_asks = flat (G False)\<rparr>"

interpretation fast_index: id_index fst
  by unfold_locales (auto simp: node_key_def)

lemma fast_spec_simps [simp]:
  "sb_symbol_id (fast_spec f G) = fb_symbol_id f" "queue s (fast_spec f G) = flat (G s)"
  "all_orders (fast_spec f G) = map snd (all_nodes G)"
  "sb_bids (fast_spec f G) = flat (G True)" "sb_asks (fast_spec f G) = flat (G False)"
  by (cases s; simp add: fast_spec_def all_orders_def all_nodes_def flat_def)+

lemma fast_side_simps [simp]: "fast_side True f = fb_bids f" "fast_side False f = fb_asks f"
  by (simp_all add: fast_side_def)

lemma fast_repD:
  assumes "fast_rep f G"
  shows "pool_inv (fb_pool f)" "side_rel (pool_heap (fb_pool f)) (fast_side s f) (G s)"
    "levels_ok (fb_symbol_id f) s (G s)" "distinct (map fst (nodes (G s)))"
    "fst ` set (nodes (G s)) \<inter> fst ` set (nodes (G (\<not> s))) = {}"
    "dom (pool_heap (fb_pool f)) = fst ` set (nodes (G s)) \<union> fst ` set (nodes (G (\<not> s)))"
    "index_ok fst (fb_index f) (all_nodes G)"
    "\<forall>p \<in> fst ` set (G s). \<forall>q \<in> fst ` set (G (\<not> s)). better (\<not> s) p q"
proof -
  show "pool_inv (fb_pool f)" "side_rel (pool_heap (fb_pool f)) (fast_side s f) (G s)"
    "levels_ok (fb_symbol_id f) s (G s)" "index_ok fst (fb_index f) (all_nodes G)"
    using assms unfolding fast_rep_def by blast+
  have d: "distinct (map fst (all_nodes G))" using assms unfolding fast_rep_def by blast
  show "distinct (map fst (nodes (G s)))" using d by (cases s) (simp_all add: all_nodes_def)
  show "fst ` set (nodes (G s)) \<inter> fst ` set (nodes (G (\<not> s))) = {}"
    using d by (cases s) (auto simp: all_nodes_def)
  have "dom (pool_heap (fb_pool f)) = fst ` set (all_nodes G)" using assms unfolding fast_rep_def by blast
  then show "dom (pool_heap (fb_pool f)) = fst ` set (nodes (G s)) \<union> fst ` set (nodes (G (\<not> s)))"
    by (cases s) (auto simp: all_nodes_def image_Un)
  have "\<forall>p \<in> fst ` set (G True). \<forall>q \<in> fst ` set (G False). p < q" using assms unfolding fast_rep_def by blast
  then show "\<forall>p \<in> fst ` set (G s). \<forall>q \<in> fst ` set (G (\<not> s)). better (\<not> s) p q"
    by (cases s) (simp_all add: better_def)
qed

lemma fast_rep_inv:
  assumes "fast_rep f G"
  shows "spec_inv (fast_spec f G)"
proof -
  have lv: "levels_ok (fb_symbol_id f) s (G s)" for s using fast_repD(3) [OF assms] .
  have "\<forall>x \<in> set (flat (G True)). \<forall>y \<in> set (flat (G False)). o_price x < o_price y"
  proof -
    have "\<forall>p \<in> fst ` set (G True). \<forall>q \<in> fst ` set (G False). p < q" using assms unfolding fast_rep_def by blast
    then show ?thesis unfolding flat_prices [OF lv, symmetric] by simp
  qed
  moreover have "distinct (map o_id (all_orders (fast_spec f G)))"
    using fast_repD(7) [OF assms] by (simp add: index_ok_def o_def)
  ultimately show ?thesis
    using levels_ok_flat [OF lv] prioritised_flat [OF lv] unfolding spec_inv_def fast_spec_simps
    by blast
qed

text \<open>The nodes of one side within the nodes of the book.\<close>

lemma all_nodes_context:
  obtains A B where "all_nodes G = A @ nodes (G s) @ B" "\<forall>ls. all_nodes (G(s := ls)) = A @ nodes ls @ B"
    "set A \<union> set B = set (nodes (G (\<not> s)))"
proof (cases s)
  case True
  then show thesis by (intro that [of "[]" "nodes (G False)"]) (simp_all add: all_nodes_def)
next
  case False
  then show thesis by (intro that [of "nodes (G True)" "[]"]) (simp_all add: all_nodes_def)
qed

text \<open>Replacing one side of a represented book.\<close>

lemma fast_rep_update:
  assumes rep: "fast_rep f G"
    and same: "fast_side (\<not> s) f' = fast_side (\<not> s) f" "fb_symbol_id f' = fb_symbol_id f"
    and pool: "pool_inv (fb_pool f')" "\<forall>n \<in> fst ` set (nodes (G (\<not> s))). pool_heap (fb_pool f') n = pool_heap (fb_pool f) n"
      "dom (pool_heap (fb_pool f')) = fst ` set (nodes ls) \<union> fst ` set (nodes (G (\<not> s)))"
    and side: "side_rel (pool_heap (fb_pool f')) (fast_side s f') ls" "levels_ok (fb_symbol_id f) s ls"
      "distinct (map fst (nodes ls))" "fst ` set (nodes ls) \<inter> fst ` set (nodes (G (\<not> s))) = {}"
    and idx: "index_ok fst (fb_index f') (all_nodes (G(s := ls)))"
    and sep: "\<forall>p \<in> fst ` set ls. \<forall>q \<in> fst ` set (G (\<not> s)). better (\<not> s) p q"
  shows "fast_rep f' (G(s := ls))" "fast_spec f' (G(s := ls)) = set_queue s (flat ls) (fast_spec f G)"
proof -
  have other: "side_rel (pool_heap (fb_pool f')) (fast_side (\<not> s) f') (G (\<not> s))"
    unfolding same by (rule side_rel_frame [OF fast_repD(2) [OF rep] pool(2)])
  have lev: "levels_ok (fb_symbol_id f) (\<not> s) (G (\<not> s))" "distinct (map fst (nodes (G (\<not> s))))"
    using fast_repD(3,4) [OF rep] by blast+
  have "\<forall>t. side_rel (pool_heap (fb_pool f')) (fast_side t f') ((G(s := ls)) t) \<and>
      levels_ok (fb_symbol_id f') t ((G(s := ls)) t)"
    using side(1,2) other lev(1) unfolding same(2) by (cases s) (simp_all add: all_bool_eq)
  moreover have "distinct (map fst (all_nodes (G(s := ls))))"
    using side(3,4) lev(2) by (cases s) (auto simp: all_nodes_def)
  moreover have "dom (pool_heap (fb_pool f')) = fst ` set (all_nodes (G(s := ls)))"
    unfolding pool(3) by (cases s) (auto simp: all_nodes_def image_Un)
  moreover have "\<forall>p \<in> fst ` set ((G(s := ls)) True). \<forall>q \<in> fst ` set ((G(s := ls)) False). p < q"
    using sep by (cases s) (auto simp: better_def)
  ultimately show "fast_rep f' (G(s := ls))" using pool(1) idx unfolding fast_rep_def by blast
  show "fast_spec f' (G(s := ls)) = set_queue s (flat ls) (fast_spec f G)"
    by (cases s) (simp_all add: fast_spec_def set_queue_def same(2))
qed

lemma fast_rep_count:
  assumes "fast_rep f G"
  shows "card (dom (pool_heap (fb_pool f))) = length (all_orders (fast_spec f G))"
    "length (fb_index f) = length (all_orders (fast_spec f G))"
proof -
  have "dom (pool_heap (fb_pool f)) = set (map fst (all_nodes G))" "distinct (map fst (all_nodes G))"
    using assms unfolding fast_rep_def by simp_all
  then have "card (dom (pool_heap (fb_pool f))) = length (map fst (all_nodes G))"
    by (metis distinct_card)
  then show "card (dom (pool_heap (fb_pool f))) = length (all_orders (fast_spec f G))" by simp
  show "length (fb_index f) = length (all_orders (fast_spec f G))"
    using fast_index.index_size [OF fast_repD(7) [OF assms]] by simp
qed

lemma fast_rep_new: "fast_rep (fast_new symb n) (\<lambda>_. [])" "fast_spec (fast_new symb n) (\<lambda>_. []) = spec_empty symb"
  using fast_index.index_nil
  by (simp_all add: fast_rep_def fast_new_def pool_inv_new pool_heap_new all_nodes_def fast_spec_def
      spec_empty_def fast_side_def)

section \<open>Matching\<close>

lemma fast_Match_side:
  "fast_Match a q f =
     do {
       (rem, ts, ls, idx, p) \<leftarrow>
         fast_match_levels (fb_symbol_id f) a q [] (fast_side (a_side a \<noteq> Buy) f) (fb_index f) (fb_pool f);
       Some (rem, ts, (if a_side a \<noteq> Buy then f\<lparr>fb_bids := ls\<rparr> else f\<lparr>fb_asks := ls\<rparr>)\<lparr>fb_index := idx, fb_pool := p\<rparr>)
     }"
  by (cases "a_side a = Buy") (simp_all add: fast_Match_def)

lemma fast_Match_refines:
  assumes rep: "fast_rep f G" and s: "s = (a_side a \<noteq> Buy)"
  obtains rem ts f' ls where "fast_Match a q f = Some (rem, ts, f')"
    "fill (fb_symbol_id f) a q (flat (G s)) = (rem, ts, flat ls)"
    "fast_rep f' (G(s := ls))" "fast_spec f' (G(s := ls)) = set_queue s (flat ls) (fast_spec f G)"
    "fb_symbol_id f' = fb_symbol_id f" "pool_capacity (fb_pool f') = pool_capacity (fb_pool f)"
proof -
  note D = fast_repD(1) [OF rep] fast_repD(2-6) [OF rep, of s] fast_repD(7) [OF rep] fast_repD(8) [OF rep, of s]
  obtain rem ts ls idx where m: "match_levels (fb_symbol_id f) a q (G s) (fb_index f) = (rem, ts, ls, idx)"
    by (metis prod_cases4)
  note facts = match_levels_facts [OF m D(3)]
  from fast_match_levels_refines [OF D(1,2,4) m, of "[]"] obtain fls p where
    fm: "fast_match_levels (fb_symbol_id f) a q [] (fast_side s f) (fb_index f) (fb_pool f) = Some (rem, ts, fls, idx, p)"
      "side_rel (pool_heap p) fls ls" "frees (fst ` set (nodes (G s))) (fst ` set (nodes ls)) (fb_pool f) p"
      "fst ` set (nodes ls) \<subseteq> fst ` set (nodes (G s))" by auto
  define f' where "f' = (if s then f\<lparr>fb_bids := fls\<rparr> else f\<lparr>fb_asks := fls\<rparr>)\<lparr>fb_index := idx, fb_pool := p\<rparr>"
  have f': "fast_side s f' = fls" "fast_side (\<not> s) f' = fast_side (\<not> s) f" "fb_symbol_id f' = fb_symbol_id f"
    "fb_index f' = idx" "fb_pool f' = p" by (cases s; simp add: f'_def)+
  have match: "fast_Match a q f = Some (rem, ts, f')"
    using fm(1) by (simp add: fast_Match_side s [symmetric] f'_def)
  obtain A B where ctx: "all_nodes G = A @ nodes (G s) @ B" "\<forall>ls. all_nodes (G(s := ls)) = A @ nodes ls @ B"
    "set A \<union> set B = set (nodes (G (\<not> s)))" by (rule all_nodes_context [of G s])
  from facts(4) obtain k where k: "map node_key (nodes ls) = map node_key (drop k (nodes (G s)))"
    "idx = fold AList.delete (node_ids (take k (nodes (G s)))) (fb_index f)" by blast
  have ix: "index_ok fst (fb_index f') (all_nodes (G(s := ls)))"
    using fast_index.index_keep [OF D(7) [unfolded ctx(1)] k(1)] unfolding f'(4) k(2) by (simp add: ctx(2))
  have "map fst (nodes ls) = drop k (map fst (nodes (G s)))"
    using arg_cong [OF k(1), of "map fst"] by (simp add: node_key_def o_def drop_map)
  then have dist: "distinct (map fst (nodes ls))" using D(4) by simp
  have fr: "pool_inv p" "pool_capacity p = pool_capacity (fb_pool f)"
    "dom (pool_heap p) = dom (pool_heap (fb_pool f)) - (fst ` set (nodes (G s)) - fst ` set (nodes ls))"
    "\<forall>j. j \<notin> fst ` set (nodes (G s)) \<longrightarrow> pool_heap p j = pool_heap (fb_pool f) j"
    using fm(3) unfolding frees_def by blast+
  have heap: "\<forall>n \<in> fst ` set (nodes (G (\<not> s))). pool_heap (fb_pool f') n = pool_heap (fb_pool f) n"
    using fr(4) D(5) unfolding f'(5) by blast
  have dom: "dom (pool_heap (fb_pool f')) = fst ` set (nodes ls) \<union> fst ` set (nodes (G (\<not> s)))"
    unfolding f'(5) fr(3) D(6) using fm(4) D(5) by blast
  have disj: "fst ` set (nodes ls) \<inter> fst ` set (nodes (G (\<not> s))) = {}" using fm(4) D(5) by blast
  have sep: "\<forall>p \<in> fst ` set ls. \<forall>q \<in> fst ` set (G (\<not> s)). better (\<not> s) p q"
    using D(8) facts(3) by blast
  have inv': "pool_inv (fb_pool f')" and side': "side_rel (pool_heap (fb_pool f')) (fast_side s f') ls"
    using fr(1) fm(2) by (simp_all add: f')
  note upd = fast_rep_update [OF rep f'(2,3) inv' heap dom side' facts(2) dist disj ix sep]
  show thesis by (rule that [OF match facts(1) upd f'(3)]) (simp add: f'(5) fr(2))
qed

section \<open>Inserting a resting order\<close>

lemma fast_InsertResting_full:
  assumes "fast_rep f G" "length (all_orders (fast_spec f G)) = pool_capacity (fb_pool f)"
  shows "fast_InsertResting x f = Some (None, f)"
  using pool.acquire_full [OF fast_repD(1) [OF assms(1)], of Node_init] fast_rep_count(1) [OF assms(1)] assms(2)
  by (simp add: fast_InsertResting_def)

text \<open>The pool after a node for the order has been acquired and filled in.\<close>

lemma acquire_node:
  assumes inv: "pool_inv p" and room: "card (dom (pool_heap p)) < pool_capacity p"
  obtains n p0 p1 p2 where "pool_Acquire Node_init p = Some (Some n, p0)"
    "node_update n (\<lambda>nd. nd\<lparr>nd_order := x\<rparr>) p0 = Some p1"
    "node_update n (\<lambda>nd. nd\<lparr>nd_prev := None, nd_next := None\<rparr>) p1 = Some p2"
    "n \<notin> dom (pool_heap p)" "pool_inv p2" "pool_capacity p2 = pool_capacity p"
    "pool_heap p2 = (pool_heap p)(n \<mapsto> \<lparr>nd_order = x, nd_prev = None, nd_next = None\<rparr>)"
proof -
  from pool.acquire_free [OF inv room, of Node_init] obtain n p0 where
    a: "pool_Acquire Node_init p = Some (Some n, p0)" "pool_heap p n = None"
      "pool_heap p0 = (pool_heap p)(n \<mapsto> Node_init)" "pool_inv p0" "pool_capacity p0 = pool_capacity p" by blast
  have h0: "pool_heap p0 n = Some Node_init" by (simp add: a(3))
  obtain p1 where p1: "node_update n (\<lambda>nd. nd\<lparr>nd_order := x\<rparr>) p0 = Some p1"
    "pool_heap p1 = (pool_heap p0)(n \<mapsto> Node_init\<lparr>nd_order := x\<rparr>)" "touches {n} p0 p1"
    by (rule node_update_live [OF a(4) h0])
  have h1: "pool_heap p1 n = Some (Node_init\<lparr>nd_order := x\<rparr>)" by (simp add: p1(2))
  obtain p2 where p2: "node_update n (\<lambda>nd. nd\<lparr>nd_prev := None, nd_next := None\<rparr>) p1 = Some p2"
    "pool_heap p2 = (pool_heap p1)(n \<mapsto> Node_init\<lparr>nd_order := x\<rparr>\<lparr>nd_prev := None, nd_next := None\<rparr>)" "touches {n} p1 p2"
    by (rule node_update_live [OF touches_inv [OF p1(3)] h1])
  have "pool_heap p2 = (pool_heap p)(n \<mapsto> \<lparr>nd_order = x, nd_prev = None, nd_next = None\<rparr>)"
    by (simp add: p2(2) p1(2) a(3) Node_init_def)
  moreover have "pool_inv p2" "pool_capacity p2 = pool_capacity p"
    using p1(3) p2(3) a(5) by (simp_all add: touches_def)
  ultimately show thesis using a(1,2) p1(1) p2(1) by (intro that [of n p0 p1 p2]) auto
qed

lemma fast_InsertResting_refines:
  assumes rep: "fast_rep f G" and s: "s = (o_side x = Buy)"
    and room: "length (all_orders (fast_spec f G)) < pool_capacity (fb_pool f)"
    and ok: "order_ok (fb_symbol_id f) s x" and fresh: "o_id x \<notin> o_id ` set (all_orders (fast_spec f G))"
    and sep: "\<forall>y \<in> set (flat (G (\<not> s))). better (\<not> s) (o_price x) (o_price y)"
  obtains n f' G' where "fast_InsertResting x f = Some (Some n, f')" "fast_rep f' G'"
    "fast_spec f' G' = set_queue s (place s x (flat (G s))) (fast_spec f G)"
    "pool_capacity (fb_pool f') = pool_capacity (fb_pool f)"
proof -
  note D = fast_repD(1) [OF rep] fast_repD(2-6) [OF rep, of s] fast_repD(7) [OF rep] fast_repD(8) [OF rep, of s]
  have "card (dom (pool_heap (fb_pool f))) < pool_capacity (fb_pool f)"
    using room fast_rep_count(1) [OF rep] by simp
  from acquire_node [OF D(1) this, of x] obtain n p0 p1 p2 where
    acq: "pool_Acquire Node_init (fb_pool f) = Some (Some n, p0)"
      "node_update n (\<lambda>nd. nd\<lparr>nd_order := x\<rparr>) p0 = Some p1"
      "node_update n (\<lambda>nd. nd\<lparr>nd_prev := None, nd_next := None\<rparr>) p1 = Some p2"
    and new: "n \<notin> dom (pool_heap (fb_pool f))" and p2: "pool_inv p2" "pool_capacity p2 = pool_capacity (fb_pool f)"
      "pool_heap p2 = (pool_heap (fb_pool f))(n \<mapsto> \<lparr>nd_order = x, nd_prev = None, nd_next = None\<rparr>)" .
  have n: "n \<notin> fst ` set (nodes (G s))" "n \<notin> fst ` set (nodes (G (\<not> s)))" using new D(6) by blast+
  then have rel2: "side_rel (pool_heap p2) (fast_side s f) (G s)"
    by (intro side_rel_frame [OF D(2)]) (auto simp: p2(3))
  have sorted: "sorted_wrt (better s) (map fst (G s))" using D(3) by (simp add: levels_ok_def)
  let ?ls = "insert_level (better s) n x (G s)"
  obtain fls p3 where ins: "fast_insert_level (better s) n x (fast_side s f) p2 = Some (fls, p3)"
    "side_rel (pool_heap p3) fls ?ls" "touches (insert n (fst ` set (nodes (G s)))) p2 p3"
    by (rule fast_insert_level_refines [OF p2(1) rel2 sorted D(4), of n "\<lparr>nd_order = x, nd_prev = None, nd_next = None\<rparr>" x])
      (use n p2(3) in simp_all)
  note lv = insert_level_facts [OF D(3) ok, of n]
  from lv(3) obtain A1 B1 where ab: "nodes (G s) = A1 @ B1" "nodes ?ls = A1 @ (n, x) # B1" by blast
  define f' where "f' = (if s then f\<lparr>fb_bids := fls\<rparr> else f\<lparr>fb_asks := fls\<rparr>)
    \<lparr>fb_index := AList.update (o_id x) n (fb_index f), fb_pool := p3\<rparr>"
  have f': "fast_side s f' = fls" "fast_side (\<not> s) f' = fast_side (\<not> s) f" "fb_symbol_id f' = fb_symbol_id f"
    "fb_index f' = AList.update (o_id x) n (fb_index f)" "fb_pool f' = p3" by (cases s; simp add: f'_def)+
  have res: "fast_InsertResting x f = Some (Some n, f')"
    using acq ins(1) s by (cases s) (simp_all add: fast_InsertResting_def f'_def better_std)
  obtain A B where ctx: "all_nodes G = A @ nodes (G s) @ B" "\<forall>ls. all_nodes (G(s := ls)) = A @ nodes ls @ B"
    "set A \<union> set B = set (nodes (G (\<not> s)))" by (rule all_nodes_context [of G s])
  have ids: "o_id x \<notin> set (node_ids ((A @ A1) @ (B1 @ B)))"
    using fresh by (simp add: ctx(1) ab(1) image_Un image_image)
  have ix: "index_ok fst (fb_index f') (all_nodes (G(s := ?ls)))"
    using fast_index.index_insert [of "fb_index f" "A @ A1" "B1 @ B" x n] D(7) ids
    by (simp add: ctx(1,2) ab f'(4))
  have nds: "fst ` set (nodes ?ls) = insert n (fst ` set (nodes (G s)))" by (auto simp: ab image_Un)
  have heap: "\<forall>m \<in> fst ` set (nodes (G (\<not> s))). pool_heap (fb_pool f') m = pool_heap (fb_pool f) m"
  proof
    fix m assume m: "m \<in> fst ` set (nodes (G (\<not> s)))"
    then have "m \<notin> insert n (fst ` set (nodes (G s)))" using n(2) D(5) by blast
    then show "pool_heap (fb_pool f') m = pool_heap (fb_pool f) m"
      using touches_heap [OF ins(3)] p2(3) by (simp add: f'(5))
  qed
  have dom: "dom (pool_heap (fb_pool f')) = fst ` set (nodes ?ls) \<union> fst ` set (nodes (G (\<not> s)))"
    using ins(3) D(6) by (simp add: touches_def f'(5) p2(3) nds)
  have dist: "distinct (map fst (nodes ?ls))" using D(4) n(1) by (auto simp: ab)
  have disj: "fst ` set (nodes ?ls) \<inter> fst ` set (nodes (G (\<not> s))) = {}" using D(5) n(2) by (auto simp: nds)
  have sep': "\<forall>p \<in> fst ` set ?ls. \<forall>q \<in> fst ` set (G (\<not> s)). better (\<not> s) p q"
  proof -
    have "\<forall>q \<in> fst ` set (G (\<not> s)). better (\<not> s) (o_price x) q"
      unfolding flat_prices [OF fast_repD(3) [OF rep], symmetric] using sep by blast
    moreover have "fst ` set ?ls = insert (o_price x) (fst ` set (G s))"
      unfolding flat_prices [OF lv(1), symmetric] flat_prices [OF D(3), symmetric] lv(2) by simp
    ultimately show ?thesis using D(8) by simp
  qed
  have inv': "pool_inv (fb_pool f')" and side': "side_rel (pool_heap (fb_pool f')) (fast_side s f') ?ls"
    using ins(2,3) by (simp_all add: f' touches_def)
  note upd = fast_rep_update [OF rep f'(2,3) inv' heap dom side' lv(1) dist disj ix sep']
  have cap: "pool_capacity (fb_pool f') = pool_capacity (fb_pool f)"
    using ins(3) p2(2) by (simp add: f'(5) touches_def)
  show thesis by (rule that [OF res upd(1) _ cap]) (simp add: upd(2) lv(2))
qed

section \<open>Removing and amending a resting order\<close>

lemma fast_index_None:
  assumes "fast_rep f G"
  shows "map_of (fb_index f) oid = None \<longleftrightarrow> oid \<notin> o_id ` set (all_orders (fast_spec f G))"
    "map_of (fb_index f) oid = None \<longleftrightarrow> spec_find oid (fast_spec f G) = None"
  using fast_index.index_find(1) [OF fast_repD(7) [OF assms], of oid]
  unfolding spec_find_def find_None_iff_notin by (simp_all add: image_image)

text \<open>An index entry leads to a live node that is linked into the level of its price.\<close>

lemma fast_locate:
  assumes rep: "fast_rep f G" and idx: "map_of (fb_index f) oid = Some n"
  obtains x nd gl where "o_id x = oid" "pool_read n (fb_pool f) = Some nd" "nd_order nd = x"
    "map_of (G (o_side x = Buy)) (o_price x) = Some gl" "map_of (lv_orders gl) n = Some x"
    "spec_find oid (fast_spec f G) = Some x"
proof -
  from fast_index.index_find(2) [OF fast_repD(7) [OF rep] idx] obtain x where
    x: "(n, x) \<in> set (all_nodes G)" "o_id x = oid" by auto
  have "\<exists>s. (n, x) \<in> set (nodes (G s))" using x(1) by (auto simp: all_nodes_def)
  then obtain s where s: "(n, x) \<in> set (nodes (G s))" by blast
  have "order_ok (fb_symbol_id f) s x" using levels_ok_nodes(1) [OF fast_repD(3) [OF rep] s] by simp
  then have side: "s = (o_side x = Buy)" by (simp add: order_ok_def)
  obtain gl where gl: "map_of (G s) (o_price x) = Some gl" "map_of (lv_orders gl) n = Some x"
    by (rule node_level [OF fast_repD(3) [OF rep] s fast_repD(4) [OF rep]])
  have "\<exists>pr nx. pool_heap (fb_pool f) n = Some \<lparr>nd_order = x, nd_prev = pr, nd_next = nx\<rparr>"
    by (rule located_node [OF fast_repD(2) [OF rep] fast_repD(3) [OF rep] gl fast_repD(4) [OF rep]])
  then obtain nd where nd: "pool_read n (fb_pool f) = Some nd" "nd_order nd = x" by (auto simp: pool_heap_def)
  have "spec_find (o_id x) (fast_spec f G) = Some x"
    unfolding spec_find_def
  proof (rule find_distinct)
    show "distinct (map o_id (all_orders (fast_spec f G)))"
      using fast_rep_inv [OF rep] unfolding spec_inv_def by blast
    show "x \<in> set (all_orders (fast_spec f G))" using x(1) by force
  qed
  with x(2) nd gl side show thesis by (intro that [of x nd gl]) simp_all
qed

text \<open>The effect on both queues of taking out, or changing, one node of a side.\<close>

lemma fast_node_ids:
  assumes "fast_rep f G"
  shows "distinct (node_ids (nodes (G s) @ nodes (G (\<not> s))))"
proof -
  have "distinct (node_ids (all_nodes G))" using fast_repD(7) [OF assms] by (simp add: index_ok_def)
  then show ?thesis by (cases s) (auto simp: all_nodes_def)
qed

lemma fast_spec_remove:
  assumes "fast_rep f G" "nodes (G s) = A @ (n, x) # B" "nodes ls = A @ B"
  shows "spec_remove (o_id x) (fast_spec f G) = set_queue s (flat ls) (fast_spec f G)"
  using side_withdraw [OF assms(2,3) fast_node_ids [OF assms(1), of s]]
  by (cases s) (simp_all add: spec_remove_def set_queue_def fast_spec_def)

lemma fast_spec_amend:
  assumes "fast_rep f G" "nodes (G s) = A @ (n, x) # B" "nodes ls = A @ (n, g x) # B"
  shows "(fast_spec f G)\<lparr>sb_bids := amend (o_id x) g (flat (G True)), sb_asks := amend (o_id x) g (flat (G False))\<rparr> =
    set_queue s (flat ls) (fast_spec f G)"
  using side_amend [where f = g, OF assms(2,3) fast_node_ids [OF assms(1), of s]]
  by (cases s) (simp_all add: set_queue_def fast_spec_def)

lemma fast_RemoveFromBook_side:
  "fast_RemoveFromBook n sd pr oid f =
     (case map_of (fast_side (sd = Buy) f) pr of
        None \<Rightarrow> Some f
      | Some level \<Rightarrow>
          do {
            (ls, p1) \<leftarrow> fast_remove_level n pr level (fast_side (sd = Buy) f) (fb_pool f);
            p2 \<leftarrow> pool_Release n p1;
            Some ((if sd = Buy then f\<lparr>fb_bids := ls\<rparr> else f\<lparr>fb_asks := ls\<rparr>)
                    \<lparr>fb_index := AList.delete oid (fb_index f), fb_pool := p2\<rparr>)
          })"
  by (simp add: fast_RemoveFromBook_def fast_side_def split: option.split)

lemma fast_RemoveFromBook_refines:
  assumes rep: "fast_rep f G" and s: "s = (o_side x = Buy)"
    and gl: "map_of (G s) (o_price x) = Some gl" and n: "map_of (lv_orders gl) n = Some x"
  obtains f' G' where "fast_RemoveFromBook n (o_side x) (o_price x) (o_id x) f = Some f'" "fast_rep f' G'"
    "fast_spec f' G' = spec_remove (o_id x) (fast_spec f G)" "fb_symbol_id f' = fb_symbol_id f"
    "pool_capacity (fb_pool f') = pool_capacity (fb_pool f)"
proof -
  note D = fast_repD(1) [OF rep] fast_repD(2-6) [OF rep, of s] fast_repD(7) [OF rep] fast_repD(8) [OF rep, of s]
  obtain fl fls p1 ls where rm: "map_of (fast_side s f) (o_price x) = Some fl"
    "fast_remove_level n (o_price x) fl (fast_side s f) (fb_pool f) = Some (fls, p1)"
    "remove_level (o_price x) gl n (G s) = Some ls" "side_rel (pool_heap p1) fls ls"
    "touches (fst ` set (nodes (G s))) (fb_pool f) p1"
    by (rule fast_remove_level_refines [OF D(1,2,3) gl n D(4)])
  from remove_level_facts [OF D(3) gl n D(4)] rm(3) obtain A1 B1 where
    ok: "levels_ok (fb_symbol_id f) s ls" and ab: "nodes (G s) = A1 @ (n, x) # B1" "nodes ls = A1 @ B1" by auto
  have dom1: "dom (pool_heap p1) = dom (pool_heap (fb_pool f))" using rm(5) by (simp add: touches_def)
  have "n \<in> dom (pool_heap p1)" unfolding dom1 D(6) by (simp add: ab(1))
  then obtain nd where nd: "pool_heap p1 n = Some nd" by blast
  from pool.release_live [OF touches_inv [OF rm(5)] nd] obtain p2 where
    p2: "pool_Release n p1 = Some p2" "pool_heap p2 = (pool_heap p1)(n := None)" "pool_inv p2"
      "pool_capacity p2 = pool_capacity p1" by blast
  define f' where "f' = (if s then f\<lparr>fb_bids := fls\<rparr> else f\<lparr>fb_asks := fls\<rparr>)
    \<lparr>fb_index := AList.delete (o_id x) (fb_index f), fb_pool := p2\<rparr>"
  have f': "fast_side s f' = fls" "fast_side (\<not> s) f' = fast_side (\<not> s) f" "fb_symbol_id f' = fb_symbol_id f"
    "fb_index f' = AList.delete (o_id x) (fb_index f)" "fb_pool f' = p2" by (cases s; simp add: f'_def)+
  have res: "fast_RemoveFromBook n (o_side x) (o_price x) (o_id x) f = Some f'"
    using rm(1,2) p2(1) by (simp add: fast_RemoveFromBook_side s [symmetric] f'_def)
  obtain A B where ctx: "all_nodes G = A @ nodes (G s) @ B" "\<forall>ls. all_nodes (G(s := ls)) = A @ nodes ls @ B"
    "set A \<union> set B = set (nodes (G (\<not> s)))" by (rule all_nodes_context [of G s])
  have ix: "index_ok fst (fb_index f') (all_nodes (G(s := ls)))"
    using fast_index.index_remove [of "fb_index f" "A @ A1" n x "B1 @ B"] D(7) by (simp add: ctx(1,2) ab f'(4))
  have dist: "distinct (map fst (nodes ls))" "n \<notin> fst ` set (nodes ls)" using D(4) by (auto simp: ab)
  have nds: "fst ` set (nodes ls) = fst ` set (nodes (G s)) - {n}" using D(4) by (auto simp: ab image_Un)
  have n': "n \<notin> fst ` set (nodes (G (\<not> s)))" using D(5) by (auto simp: ab)
  have heap: "\<forall>m \<in> fst ` set (nodes (G (\<not> s))). pool_heap (fb_pool f') m = pool_heap (fb_pool f) m"
    using touches_heap [OF rm(5)] D(5) n' by (auto simp: f'(5) p2(2))
  have dom: "dom (pool_heap (fb_pool f')) = fst ` set (nodes ls) \<union> fst ` set (nodes (G (\<not> s)))"
    using n' by (simp add: f'(5) p2(2) dom1 D(6) nds Un_Diff)
  have disj: "fst ` set (nodes ls) \<inter> fst ` set (nodes (G (\<not> s))) = {}" using D(5) nds by blast
  have "o_price ` set (flat ls) \<subseteq> o_price ` set (flat (G s))" by (auto simp: flat_def ab)
  then have sep: "\<forall>p \<in> fst ` set ls. \<forall>q \<in> fst ` set (G (\<not> s)). better (\<not> s) p q"
    using D(8) levels_prices_subset [OF D(3) ok] by blast
  have removed: "\<forall>m \<in> fst ` set (nodes ls). pool_heap p2 m = pool_heap p1 m" using dist(2) by (auto simp: p2(2))
  have inv': "pool_inv (fb_pool f')" and side': "side_rel (pool_heap (fb_pool f')) (fast_side s f') ls"
    using p2(3) side_rel_frame [OF rm(4), of "pool_heap p2"] removed by (simp_all add: f'(1,5))
  note upd = fast_rep_update [OF rep f'(2,3) inv' heap dom side' ok dist(1) disj ix sep]
  have "pool_capacity (fb_pool f') = pool_capacity (fb_pool f)" using rm(5) p2(4) by (simp add: f'(5) touches_def)
  then show thesis
    using that [OF res upd(1)] upd(2) fast_spec_remove [OF rep ab] f'(3) by simp
qed

lemma fast_AmendInPlace_refines:
  assumes rep: "fast_rep f G" and s: "s = (o_side x = Buy)" and nd: "pool_read n (fb_pool f) = Some nd" "nd_order nd = x"
    and gl: "map_of (G s) (o_price x) = Some gl" and n: "map_of (lv_orders gl) n = Some x"
    and q: "0 < q" "q \<le> o_remaining_quantity x"
  obtains f' G' where "fast_AmendInPlace n x q f = Some f'" "fast_rep f' G'"
    "fast_spec f' G' = (fast_spec f G)\<lparr>sb_bids := amend (o_id x) (amend_order q) (sb_bids (fast_spec f G)),
       sb_asks := amend (o_id x) (amend_order q) (sb_asks (fast_spec f G))\<rparr>"
    "pool_capacity (fb_pool f') = pool_capacity (fb_pool f)"
proof -
  note D = fast_repD(1) [OF rep] fast_repD(2-6) [OF rep, of s] fast_repD(7) [OF rep] fast_repD(8) [OF rep, of s]
  let ?x = "amend_order q x" and ?delta = "o_remaining_quantity x - q"
  let ?ls = "amend_level (better s) (o_price x) gl n ?x ?delta (G s)"
  let ?fls = "omap_at (better s) (o_price x) FastLevel_init
    (\<lambda>l. l\<lparr>fl_total_quantity := fl_total_quantity l - ?delta\<rparr>) (fast_side s f)"
  have mem: "(n, x) \<in> set (nodes (G s))"
    using map_of_SomeD [OF n] map_of_SomeD [OF gl] by (force simp: nodes_def)
  have ok: "order_ok (fb_symbol_id f) s ?x"
    using levels_ok_nodes(1) [OF D(3) mem] q by (intro order_ok_amend) simp_all
  obtain p where upd: "node_update n (\<lambda>nd. nd\<lparr>nd_order := ?x\<rparr>) (fb_pool f) = Some p"
    "side_rel (pool_heap p) ?fls ?ls" "touches (fst ` set (nodes (G s))) (fb_pool f) p"
    by (rule fast_amend_level_refines [OF D(1,2,3) gl n D(4)])
  have "o_remaining_quantity ?x = q" "o_price ?x = o_price x" by (simp_all add: amend_order_def)
  with amend_level_facts [OF D(3) gl n D(4) ok, of ?delta] obtain A1 B1 where
    lv: "levels_ok (fb_symbol_id f) s ?ls" and ab: "nodes (G s) = A1 @ (n, x) # B1" "nodes ?ls = A1 @ (n, ?x) # B1"
    by auto
  define f' where "f' = (if s then f\<lparr>fb_bids := ?fls\<rparr> else f\<lparr>fb_asks := ?fls\<rparr>)\<lparr>fb_pool := p\<rparr>"
  have f': "fast_side s f' = ?fls" "fast_side (\<not> s) f' = fast_side (\<not> s) f" "fb_symbol_id f' = fb_symbol_id f"
    "fb_index f' = fb_index f" "fb_pool f' = p" by (cases s; simp add: f'_def)+
  have node: "node_update n (\<lambda>nd. nd\<lparr>nd_order := (nd_order nd)\<lparr>o_remaining_quantity := q,
      o_quantity := o_quantity x - ?delta\<rparr>\<rparr>) (fb_pool f) = Some p"
    using upd(1) nd by (simp add: node_update_def amend_order_def)
  have res: "fast_AmendInPlace n x q f = Some f'"
    using node s by (cases s) (simp_all add: fast_AmendInPlace_def f'_def better_std Let_def)
  obtain A B where ctx: "all_nodes G = A @ nodes (G s) @ B" "\<forall>ls. all_nodes (G(s := ls)) = A @ nodes ls @ B"
    "set A \<union> set B = set (nodes (G (\<not> s)))" by (rule all_nodes_context [of G s])
  have "node_key (n, ?x) = node_key (n, x)" by (simp add: node_key_def amend_order_def)
  then have ix: "index_ok fst (fb_index f') (all_nodes (G(s := ?ls)))"
    using fast_index.index_same [of "fb_index f" "A @ A1" "(n, x)" "B1 @ B" "(n, ?x)"] D(7)
    by (simp add: ctx(1,2) ab f'(4))
  have nds: "map fst (nodes ?ls) = map fst (nodes (G s))" by (simp add: ab)
  then have nds': "fst ` set (nodes ?ls) = fst ` set (nodes (G s))" by (metis list.set_map)
  have heap: "\<forall>m \<in> fst ` set (nodes (G (\<not> s))). pool_heap (fb_pool f') m = pool_heap (fb_pool f) m"
    using touches_heap [OF upd(3)] D(5) by (auto simp: f'(5))
  have dom: "dom (pool_heap (fb_pool f')) = fst ` set (nodes ?ls) \<union> fst ` set (nodes (G (\<not> s)))"
    using upd(3) D(6) by (simp add: f'(5) touches_def nds')
  have disj: "fst ` set (nodes ?ls) \<inter> fst ` set (nodes (G (\<not> s))) = {}" using D(5) by (simp add: nds')
  have dist: "distinct (map fst (nodes ?ls))" using D(4) by (simp only: nds)
  have "o_price ` set (flat ?ls) \<subseteq> o_price ` set (flat (G s))" by (auto simp: flat_def ab)
  then have sep: "\<forall>p \<in> fst ` set ?ls. \<forall>q \<in> fst ` set (G (\<not> s)). better (\<not> s) p q"
    using D(8) levels_prices_subset [OF D(3) lv] by blast
  have inv': "pool_inv (fb_pool f')" and side': "side_rel (pool_heap (fb_pool f')) (fast_side s f') ?ls"
    using upd(2,3) by (simp_all add: f' touches_def)
  note rep' = fast_rep_update [OF rep f'(2,3) inv' heap dom side' lv dist disj ix sep]
  have "pool_capacity (fb_pool f') = pool_capacity (fb_pool f)" using upd(3) by (simp add: f'(5) touches_def)
  with that [OF res rep'(1)] show thesis using rep'(2) fast_spec_amend [where g = "amend_order q", OF rep ab] by simp
qed

section \<open>The operations refine the contract\<close>

text \<open>
  The contract of \<open>AddOrder\<close> with a bound on the number of resting orders: an order that would
  rest when the book is full executes, and its remainder is dropped.
\<close>

definition bounded_add :: "nat \<Rightarrow> order_args \<Rightarrow> spec_book \<Rightarrow> add_result \<times> spec_book" where
  "bounded_add cap a b =
     (case spec_reject a b of
        Some r \<Rightarrow> (add_reject r, b)
      | None \<Rightarrow>
          (case fill (sb_symbol_id b) a (a_quantity a) (queue (a_side a \<noteq> Buy) b) of
             (rem, ts, opp) \<Rightarrow>
               if can_rest a rem \<and> length (all_orders (set_queue (a_side a \<noteq> Buy) opp b)) = cap
               then (exhausted_result a rem ts, set_queue (a_side a \<noteq> Buy) opp b)
               else spec_execute a b))"

lemma bounded_add_room:
  assumes "length (all_orders b) < cap"
  shows "bounded_add cap a b = spec_add a b"
proof (cases "spec_reject a b")
  case None
  obtain rem ts opp where f: "fill (sb_symbol_id b) a (a_quantity a) (queue (a_side a \<noteq> Buy) b) = (rem, ts, opp)"
    by (metis prod_cases3)
  have "length (all_orders (set_queue (a_side a \<noteq> Buy) opp b)) \<le> length (all_orders b)"
    using fill_length [OF f] length_all_orders [of b "a_side a \<noteq> Buy"] by (simp add: length_set_queue)
  with assms None f show ?thesis by (simp add: bounded_add_def spec_add_def)
qed (simp add: bounded_add_def spec_add_def)

lemma fast_reject_refines:
  assumes rep: "fast_rep f G"
  shows "fast_AddOrder a f =
    (case spec_reject a (fast_spec f G) of
       Some r \<Rightarrow> Some (add_reject r, f)
     | None \<Rightarrow>
        do {
          (rem, ts, b1) \<leftarrow> fast_Match a (a_quantity a) f;
          if can_rest a rem then
            do {
              (node, b2) \<leftarrow> fast_InsertResting (resting_order (fb_symbol_id f) a rem) b1;
              Some (if node = None then exhausted_result a rem ts
                    else rest_result (fb_symbol_id f) a rem ts, b2)
            }
          else Some (done_result a rem ts, b1)
        })"
proof -
  have known: "map_of (fb_index f) (a_id a) \<noteq> None \<longleftrightarrow> a_id a \<in> o_id ` set (all_orders (fast_spec f G))"
    unfolding fast_index_None(1) [OF rep] by simp
  have e: "fast_side s f = [] \<longleftrightarrow> flat (G s) = []" for s
    using side_rel_empty [OF fast_repD(2) [OF rep]] flat_eq_Nil [OF fast_repD(3) [OF rep]] by blast
  have empty: "(if a_side a = Buy then fb_asks f = [] else fb_bids f = []) \<longleftrightarrow>
      queue (a_side a \<noteq> Buy) (fast_spec f G) = []"
    using e [of True] e [of False] by simp
  have "fast_available_levels a 0 (fast_side s f) = available a (flat (G s))" for s
    using fast_available_refines [OF fast_repD(2) [OF rep]] available_flat [OF fast_repD(3) [OF rep]] by simp
  from this [of True] this [of False]
  have avail: "fast_AvailableCrossingQuantity a f = available a (queue (a_side a \<noteq> Buy) (fast_spec f G))"
    by (simp add: fast_AvailableCrossingQuantity_def)
  show ?thesis
    unfolding fast_AddOrder_def spec_reject_def known empty avail by (simp split: if_splits)
qed

lemma fast_AddOrder_refines:
  assumes rep: "fast_rep f G"
  obtains r f' G' where "fast_AddOrder a f = Some (r, f')" "fast_rep f' G'"
    "bounded_add (pool_capacity (fb_pool f)) a (fast_spec f G) = (r, fast_spec f' G')"
    "pool_capacity (fb_pool f') = pool_capacity (fb_pool f)"
proof (cases "spec_reject a (fast_spec f G)")
  case (Some rr)
  then show thesis
    by (intro that [of "add_reject rr" f G]) (simp_all add: fast_reject_refines [OF rep] bounded_add_def rep)
next
  case None
  let ?s = "a_side a \<noteq> Buy" and ?symb = "fb_symbol_id f" and ?cap = "pool_capacity (fb_pool f)"
  obtain rem ts f1 ls where m: "fast_Match a (a_quantity a) f = Some (rem, ts, f1)"
    "fill ?symb a (a_quantity a) (flat (G ?s)) = (rem, ts, flat ls)"
    "fast_rep f1 (G(?s := ls))" "fast_spec f1 (G(?s := ls)) = set_queue ?s (flat ls) (fast_spec f G)"
    "fb_symbol_id f1 = ?symb" "pool_capacity (fb_pool f1) = ?cap"
    by (rule fast_Match_refines [OF rep refl])
  let ?G1 = "G(?s := ls)" and ?x = "resting_order ?symb a rem"
  have f: "fill (sb_symbol_id (fast_spec f G)) a (a_quantity a) (queue ?s (fast_spec f G)) = (rem, ts, flat ls)"
    using m(2) by simp
  have le: "length (all_orders (fast_spec f1 ?G1)) \<le> ?cap"
    using fast_rep_count(1) [OF m(3)] pool.heap_finite [OF fast_repD(1) [OF m(3)]] m(6) by simp
  consider "\<not> can_rest a rem" | "can_rest a rem" "length (all_orders (fast_spec f1 ?G1)) = ?cap"
    | "can_rest a rem" "length (all_orders (fast_spec f1 ?G1)) < ?cap" using le by linarith
  then show thesis
  proof cases
    case 1
    have "bounded_add ?cap a (fast_spec f G) = (done_result a rem ts, fast_spec f1 ?G1)"
      unfolding bounded_add_def None using f 1 by (simp add: spec_execute_def m(4))
    with 1 None m(1) show thesis
      by (intro that [OF _ m(3) _ m(6)]) (simp_all add: fast_reject_refines [OF rep])
  next
    case 2
    have "bounded_add ?cap a (fast_spec f G) = (exhausted_result a rem ts, fast_spec f1 ?G1)"
      unfolding bounded_add_def None using f 2 m(4) by simp
    moreover have "fast_InsertResting ?x f1 = Some (None, f1)"
      using fast_InsertResting_full [OF m(3), of ?x] 2(2) m(6) by simp
    ultimately show thesis
      using 2(1) None m(1) by (intro that [OF _ m(3) _ m(6)]) (simp_all add: fast_reject_refines [OF rep])
  next
    case 3
    note rest = spec_execute_rest [OF fast_rep_inv [OF rep] None f 3(1), folded m(4)]
    have x: "(a_side a = Buy) = (o_side ?x = Buy)" by (simp add: resting_order_def)
    have ok: "order_ok (fb_symbol_id f1) (a_side a = Buy) ?x" using rest(1) m(5) by simp
    have fresh: "o_id ?x \<notin> o_id ` set (all_orders (fast_spec f1 ?G1))" using rest(2) by simp
    have sep: "\<forall>y \<in> set (flat (?G1 (\<not> (a_side a = Buy)))). better (\<not> (a_side a = Buy)) (o_price ?x) (o_price y)"
      using rest(3) by simp
    have room: "length (all_orders (fast_spec f1 ?G1)) < pool_capacity (fb_pool f1)" using 3(2) m(6) by simp
    obtain n f2 G2 where ins: "fast_InsertResting ?x f1 = Some (Some n, f2)" "fast_rep f2 G2"
      "fast_spec f2 G2 = set_queue (a_side a = Buy) (place (a_side a = Buy) ?x (flat (?G1 (a_side a = Buy)))) (fast_spec f1 ?G1)"
      "pool_capacity (fb_pool f2) = pool_capacity (fb_pool f1)"
      by (rule fast_InsertResting_refines [OF m(3) x room ok fresh sep])
    have len: "length (all_orders (set_queue ?s (flat ls) (fast_spec f G))) \<noteq> ?cap" using 3(2) m(4) by simp
    have q: "queue (a_side a = Buy) (set_queue ?s (flat ls) (fast_spec f G)) = flat (?G1 (a_side a = Buy))"
      unfolding m(4) [symmetric] by simp
    have "bounded_add ?cap a (fast_spec f G) = (rest_result ?symb a rem ts, fast_spec f2 G2)"
      unfolding bounded_add_def None using f len 3(1) ins(3) m(4) by (simp add: spec_execute_def Let_def q)
    with 3(1) None m(1,6) ins(1,4) show thesis
      by (intro that [OF _ ins(2)]) (simp_all add: fast_reject_refines [OF rep])
  qed
qed

lemma fast_CancelOrder_refines:
  assumes rep: "fast_rep f G"
  obtains r f' G' where "fast_CancelOrder oid f = Some (r, f')" "fast_rep f' G'"
    "spec_cancel oid (fast_spec f G) = (r, fast_spec f' G')" "pool_capacity (fb_pool f') = pool_capacity (fb_pool f)"
proof (cases "map_of (fb_index f) oid")
  case None
  then have "spec_find oid (fast_spec f G) = None" using fast_index_None(2) [OF rep] by blast
  with None rep show thesis by (intro that [of "cancel_reject UnknownOrder" f G]) (simp_all add: fast_CancelOrder_def spec_cancel_def)
next
  case (Some n)
  obtain x nd gl where x: "o_id x = oid" "pool_read n (fb_pool f) = Some nd" "nd_order nd = x"
    "map_of (G (o_side x = Buy)) (o_price x) = Some gl" "map_of (lv_orders gl) n = Some x"
    "spec_find oid (fast_spec f G) = Some x" by (rule fast_locate [OF rep Some])
  obtain f' G' where rm: "fast_RemoveFromBook n (o_side x) (o_price x) (o_id x) f = Some f'" "fast_rep f' G'"
    "fast_spec f' G' = spec_remove (o_id x) (fast_spec f G)" "fb_symbol_id f' = fb_symbol_id f"
    "pool_capacity (fb_pool f') = pool_capacity (fb_pool f)"
    by (rule fast_RemoveFromBook_refines [OF rep refl x(4,5)])
  with x Some show thesis
    by (intro that [OF _ rm(2)]) (simp_all add: fast_CancelOrder_def spec_cancel_def)
qed

lemma fast_ModifyOrder_refines:
  assumes rep: "fast_rep f G"
  obtains r f' G' where "fast_ModifyOrder oid p q seq ts f = Some (r, f')" "fast_rep f' G'"
    "spec_modify oid p q seq ts (fast_spec f G) = (r, fast_spec f' G')" "pool_capacity (fb_pool f') = pool_capacity (fb_pool f)"
proof (cases "map_of (fb_index f) oid")
  case None
  then have "spec_find oid (fast_spec f G) = None" using fast_index_None(2) [OF rep] by blast
  with None rep show thesis by (intro that [of "modify_reject UnknownOrder" f G]) (simp_all add: fast_ModifyOrder_def spec_modify_def)
next
  case (Some n)
  obtain x nd gl where x: "o_id x = oid" "pool_read n (fb_pool f) = Some nd" "nd_order nd = x"
    "map_of (G (o_side x = Buy)) (o_price x) = Some gl" "map_of (lv_orders gl) n = Some x"
    "spec_find oid (fast_spec f G) = Some x" by (rule fast_locate [OF rep Some])
  consider "q = 0 \<or> p \<le> Price 0" | "q \<noteq> 0" "\<not> p \<le> Price 0" "p = o_price x \<and> q \<le> o_remaining_quantity x"
    | "q \<noteq> 0" "\<not> p \<le> Price 0" "\<not> (p = o_price x \<and> q \<le> o_remaining_quantity x)" by blast
  then show thesis
  proof cases
    case 1
    with Some x(6) rep show thesis
      by (intro that [of "modify_reject (if q = 0 then InvalidQuantity else InvalidPrice)" f G])
        (auto simp: fast_ModifyOrder_def spec_modify_def)
  next
    case 2
    then have q: "0 < q" "q \<le> o_remaining_quantity x" by (simp_all add: word_gt_0)
    obtain f' G' where am: "fast_AmendInPlace n x q f = Some f'" "fast_rep f' G'"
      "fast_spec f' G' = (fast_spec f G)\<lparr>sb_bids := amend (o_id x) (amend_order q) (sb_bids (fast_spec f G)),
         sb_asks := amend (o_id x) (amend_order q) (sb_asks (fast_spec f G))\<rparr>"
      "pool_capacity (fb_pool f') = pool_capacity (fb_pool f)"
      by (rule fast_AmendInPlace_refines [OF rep refl x(2,3,4,5) q])
    have "fast_ModifyOrder oid p q seq ts f = Some (amend_result q, f')"
      using 2 Some x(2,3) am(1) by (simp add: fast_ModifyOrder_def Let_def)
    moreover have "spec_modify oid p q seq ts (fast_spec f G) = (amend_result q, fast_spec f' G')"
      using 2 x(1,6) am(3) by (simp add: spec_modify_def)
    ultimately show thesis by (intro that [OF _ am(2) _ am(4)])
  next
    case 3
    obtain f1 G1 where rm: "fast_RemoveFromBook n (o_side x) (o_price x) (o_id x) f = Some f1" "fast_rep f1 G1"
      "fast_spec f1 G1 = spec_remove (o_id x) (fast_spec f G)" "fb_symbol_id f1 = fb_symbol_id f"
      "pool_capacity (fb_pool f1) = pool_capacity (fb_pool f)"
      by (rule fast_RemoveFromBook_refines [OF rep refl x(4,5)])
    let ?a = "replace_args x p q seq ts"
    obtain add f2 G2 where add: "fast_AddOrder ?a f1 = Some (add, f2)" "fast_rep f2 G2"
      "bounded_add (pool_capacity (fb_pool f1)) ?a (fast_spec f1 G1) = (add, fast_spec f2 G2)"
      "pool_capacity (fb_pool f2) = pool_capacity (fb_pool f1)"
      by (rule fast_AddOrder_refines [OF rm(2)])
    have "length (all_orders (fast_spec f1 G1)) < length (all_orders (fast_spec f G))"
      unfolding rm(3) x(1) by (rule length_spec_remove(2) [OF x(6)])
    moreover have "length (all_orders (fast_spec f G)) \<le> pool_capacity (fb_pool f)"
      using fast_rep_count(1) [OF rep] pool.heap_finite [OF fast_repD(1) [OF rep]] by simp
    ultimately have "length (all_orders (fast_spec f1 G1)) < pool_capacity (fb_pool f1)" using rm(5) by linarith
    then have "spec_add ?a (spec_remove oid (fast_spec f G)) = (add, fast_spec f2 G2)"
      using add(3) bounded_add_room rm(3) x(1) by metis
    then have "spec_modify oid p q seq ts (fast_spec f G) = (replace_result add, fast_spec f2 G2)"
      unfolding spec_modify_def using 3 x(6) by auto
    moreover have "fast_ModifyOrder oid p q seq ts f = Some (replace_result add, f2)"
      unfolding fast_ModifyOrder_def using 3 Some x(1-3) rm(1) add(1) by (auto simp: Let_def replace_args_def)
    ultimately show thesis using add(4) rm(5) by (intro that [OF _ add(2)]) simp_all
  qed
qed

section \<open>Runs\<close>

fun fast_step :: "book_op \<Rightarrow> fast_book \<Rightarrow> (book_out \<times> fast_book) option" where
  "fast_step (Add a) f = map_option (\<lambda>(r, f'). (AddOut r, f')) (fast_AddOrder a f)"
| "fast_step (Cancel oid) f = map_option (\<lambda>(r, f'). (CancelOut r, f')) (fast_CancelOrder oid f)"
| "fast_step (Modify oid p q seq ts) f =
     map_option (\<lambda>(r, f'). (ModifyOut r, f')) (fast_ModifyOrder oid p q seq ts f)"

definition fast_rel :: "fast_book \<Rightarrow> spec_book \<Rightarrow> bool" where
  "fast_rel f sb \<longleftrightarrow> (\<exists>G. fast_rep f G \<and> sb = fast_spec f G)"

text \<open>The contract with the bound: only \<open>AddOrder\<close> can meet it.\<close>

fun bounded_step :: "nat \<Rightarrow> book_op \<Rightarrow> spec_book \<Rightarrow> book_out \<times> spec_book" where
  "bounded_step cap (Add a) b = (case bounded_add cap a b of (r, b') \<Rightarrow> (AddOut r, b'))"
| "bounded_step cap op b = spec_step op b"

lemma fast_step_bounded:
  assumes "fast_rel f b"
  shows "\<exists>f'. fast_step op f = Some (fst (bounded_step (pool_capacity (fb_pool f)) op b), f') \<and>
    fast_rel f' (snd (bounded_step (pool_capacity (fb_pool f)) op b)) \<and>
    pool_capacity (fb_pool f') = pool_capacity (fb_pool f)"
proof -
  from assms obtain G where rep: "fast_rep f G" and b: "b = fast_spec f G" by (auto simp: fast_rel_def)
  show ?thesis
  proof (cases op)
    case (Add a)
    obtain r f' G' where "fast_AddOrder a f = Some (r, f')" "fast_rep f' G'"
      "bounded_add (pool_capacity (fb_pool f)) a (fast_spec f G) = (r, fast_spec f' G')"
      "pool_capacity (fb_pool f') = pool_capacity (fb_pool f)" by (rule fast_AddOrder_refines [OF rep])
    then show ?thesis unfolding b Add fast_rel_def by auto
  next
    case (Cancel oid)
    obtain r f' G' where "fast_CancelOrder oid f = Some (r, f')" "fast_rep f' G'"
      "spec_cancel oid (fast_spec f G) = (r, fast_spec f' G')"
      "pool_capacity (fb_pool f') = pool_capacity (fb_pool f)" by (rule fast_CancelOrder_refines [OF rep])
    then show ?thesis unfolding b Cancel fast_rel_def by auto
  next
    case (Modify oid p q seq ts)
    obtain r f' G' where "fast_ModifyOrder oid p q seq ts f = Some (r, f')" "fast_rep f' G'"
      "spec_modify oid p q seq ts (fast_spec f G) = (r, fast_spec f' G')"
      "pool_capacity (fb_pool f') = pool_capacity (fb_pool f)" by (rule fast_ModifyOrder_refines [OF rep])
    then show ?thesis unfolding b Modify fast_rel_def by auto
  qed
qed

interpretation fast: book_refinement fast_step fast_rel "\<lambda>f n. n \<le> pool_capacity (fb_pool f)"
proof unfold_locales
  fix f b op
  assume rel: "fast_rel f b" and "Suc (length (all_orders b)) \<le> pool_capacity (fb_pool f)"
  then have "bounded_step (pool_capacity (fb_pool f)) op b = spec_step op b"
    by (cases op) (simp_all add: bounded_add_room)
  with fast_step_bounded [OF rel, of op]
  show "\<exists>f'. fast_step op f = Some (fst (spec_step op b), f') \<and> fast_rel f' (snd (spec_step op b)) \<and>
      (\<forall>n. n \<le> pool_capacity (fb_pool f) \<longrightarrow> n \<le> pool_capacity (fb_pool f'))" by auto
qed auto

inductive fast_reachable :: "symbol_id \<Rightarrow> nat \<Rightarrow> fast_book \<Rightarrow> bool" for symb n where
  init: "fast_reachable symb n (fast_new symb n)"
| step: "fast_reachable symb n f \<Longrightarrow> fast_step op f = Some (out, f') \<Longrightarrow> fast_reachable symb n f'"

lemma fast_reachable_rel:
  "fast_reachable symb n f \<Longrightarrow> (\<exists>b. fast_rel f b) \<and> pool_capacity (fb_pool f) = n"
proof (induction rule: fast_reachable.induct)
  case init
  have "pool_capacity (fb_pool (fast_new symb n)) = n"
    by (simp add: fast_new_def pool_capacity_def pool_new_slots)
  then show ?case unfolding fast_rel_def using fast_rep_new(1) by blast
next
  case (step f op out f')
  then obtain b where "fast_rel f b" by blast
  from fast_step_bounded [OF this, of op] step show ?case by auto
qed

text \<open>The observers answer from the represented orders.\<close>

lemma fast_observers:
  assumes rep: "fast_rep f G"
  shows "fast_QuantityAt s p f = spec_quantity_at s p (fast_spec f G)"
    and "fast_OrderCountAt s p f = spec_count_at s p (fast_spec f G)"
    and "fast_BestBid f = spec_best True (fast_spec f G)"
    and "fast_BestAsk f = spec_best False (fast_spec f G)"
    and "fast_HasBestBid f \<longleftrightarrow> sb_bids (fast_spec f G) \<noteq> []"
    and "fast_HasBestAsk f \<longleftrightarrow> sb_asks (fast_spec f G) \<noteq> []"
    and "fast_TotalOrderCount f = length (all_orders (fast_spec f G))"
    and "fast_HasOrder oid f \<longleftrightarrow> oid \<in> o_id ` set (all_orders (fast_spec f G))"
    and "fast_PoolAvailable f = pool_capacity (fb_pool f) - length (all_orders (fast_spec f G))"
proof -
  have rel: "side_rel (pool_heap (fb_pool f)) (fast_side t f) (G t)" and ok: "levels_ok (fb_symbol_id f) t (G t)" for t
    using fast_repD(2,3) [OF rep] by blast+
  have side: "(if s = Buy then fb_bids f else fb_asks f) = fast_side (s = Buy) f" by simp
  from side_rel_find [OF rel [of "s = Buy"], of p]
  show "fast_QuantityAt s p f = spec_quantity_at s p (fast_spec f G)"
    "fast_OrderCountAt s p f = spec_count_at s p (fast_spec f G)"
    using level_quantity_flat [OF ok [of "s = Buy"], of p] level_count_flat [OF ok [of "s = Buy"], of p]
    unfolding fast_QuantityAt_def fast_OrderCountAt_def side
    by (auto simp: spec_quantity_at_def spec_count_at_def level_quantity_def level_count_def level_rel_def)
  have "first_price (fast_side t f) = first_price (G t)" for t
    using side_rel_keys [OF rel [of t]] by (cases "fast_side t f"; cases "G t") (simp_all add: first_price_def)
  from this [of True] this [of False]
  show "fast_BestBid f = spec_best True (fast_spec f G)" "fast_BestAsk f = spec_best False (fast_spec f G)"
    using first_price_flat [OF ok [of True]] first_price_flat [OF ok [of False]]
    by (simp_all add: fast_BestBid_def fast_BestAsk_def spec_best_def)
  show "fast_HasBestBid f \<longleftrightarrow> sb_bids (fast_spec f G) \<noteq> []" "fast_HasBestAsk f \<longleftrightarrow> sb_asks (fast_spec f G) \<noteq> []"
    using side_rel_empty [OF rel [of True]] side_rel_empty [OF rel [of False]] flat_eq_Nil [OF ok [of True]] flat_eq_Nil [OF ok [of False]]
    by (simp_all add: fast_HasBestBid_def fast_HasBestAsk_def)
  show "fast_TotalOrderCount f = length (all_orders (fast_spec f G))"
    using fast_rep_count(2) [OF rep] by (simp add: fast_TotalOrderCount_def)
  show "fast_HasOrder oid f \<longleftrightarrow> oid \<in> o_id ` set (all_orders (fast_spec f G))"
    unfolding fast_HasOrder_def fast_index_None(1) [OF rep] by simp
  show "fast_PoolAvailable f = pool_capacity (fb_pool f) - length (all_orders (fast_spec f G))"
    using pool_available_eq [OF fast_repD(1) [OF rep]] fast_rep_count(1) [OF rep] by (simp add: fast_PoolAvailable_def)
qed

end
