(* ===== verification/Naive_Book.thy ===== *)
theory Naive_Book
  imports Price_Levels Book_Laws
begin

text \<open>
  \<open>naive::OrderBook\<close> (\<open>include/matching_engine/naive/order_book.hpp\<close>,
  \<open>src/naive/order_book.cpp\<close>): two maps of price levels, the id index whose entries hold the
  side, the price and a list iterator, and every public operation. A book also carries the
  number of the next list node, which stands for the allocator of \<open>std::list\<close>.

  An iterator is the number of the node it refers to. Dereferencing or erasing one that is not
  in the list of its level is undefined in C++; the operations that follow an iterator
  (\<open>FindOrder\<close>, \<open>RemoveFromBook\<close>, \<open>CancelOrder\<close>, \<open>ModifyOrder\<close>) return \<open>None\<close> there.

  The lemmas give the invariant of the book (levels, index and nodes agree; the book is not
  crossed) and show that each operation keeps it, never reaches \<open>None\<close> under it, and refines
  the operation of the contract through \<open>naive_abs\<close>.
\<close>

section \<open>State\<close>

record locator =
  loc_side :: side
  loc_price :: price
  loc_it :: nat

record order_book =
  nb_symbol_id :: symbol_id
  nb_bids :: levels
  nb_asks :: levels
  nb_index :: "(order_id, locator) unordered_map"
  nb_next_node :: nat

definition naive_new :: "symbol_id \<Rightarrow> order_book" where
  "naive_new symb = \<lparr>nb_symbol_id = symb, nb_bids = [], nb_asks = [], nb_index = [], nb_next_node = 0\<rparr>"

definition naive_side :: "side \<Rightarrow> order_book \<Rightarrow> levels" where
  "naive_side s b = (if s = Buy then nb_bids b else nb_asks b)"

definition naive_set_side :: "side \<Rightarrow> levels \<Rightarrow> order_book \<Rightarrow> order_book" where
  "naive_set_side s ls b = (if s = Buy then b\<lparr>nb_bids := ls\<rparr> else b\<lparr>nb_asks := ls\<rparr>)"

text \<open>The order a locator's iterator refers to.\<close>

definition naive_deref :: "locator \<Rightarrow> order_book \<Rightarrow> order option" where
  "naive_deref loc b =
     (case map_of (naive_side (loc_side loc) b) (loc_price loc) of
        None \<Rightarrow> None
      | Some level \<Rightarrow> map_of (lv_orders level) (loc_it loc))"

section \<open>Observers\<close>

definition naive_HasOrder :: "order_id \<Rightarrow> order_book \<Rightarrow> bool" where
  "naive_HasOrder oid b = (map_of (nb_index b) oid \<noteq> None)"

text \<open>\<open>Some None\<close> is the null pointer.\<close>

definition naive_FindOrder :: "order_id \<Rightarrow> order_book \<Rightarrow> order option option" where
  "naive_FindOrder oid b =
     (case map_of (nb_index b) oid of
        None \<Rightarrow> Some None
      | Some loc \<Rightarrow> map_option Some (naive_deref loc b))"

definition naive_HasBestBid :: "order_book \<Rightarrow> bool" where
  "naive_HasBestBid b = (nb_bids b \<noteq> [])"

definition naive_HasBestAsk :: "order_book \<Rightarrow> bool" where
  "naive_HasBestAsk b = (nb_asks b \<noteq> [])"

definition naive_BestBid :: "order_book \<Rightarrow> price" where
  "naive_BestBid b = first_price (nb_bids b)"

definition naive_BestAsk :: "order_book \<Rightarrow> price" where
  "naive_BestAsk b = first_price (nb_asks b)"

definition naive_QuantityAt :: "side \<Rightarrow> price \<Rightarrow> order_book \<Rightarrow> quantity" where
  "naive_QuantityAt s p b =
     (if s = Buy then level_quantity p (nb_bids b) else level_quantity p (nb_asks b))"

definition naive_OrderCountAt :: "side \<Rightarrow> price \<Rightarrow> order_book \<Rightarrow> nat" where
  "naive_OrderCountAt s p b =
     (if s = Buy then level_count p (nb_bids b) else level_count p (nb_asks b))"

definition naive_TotalOrderCount :: "order_book \<Rightarrow> nat" where
  "naive_TotalOrderCount b = length (nb_index b)"

text \<open>The loop of \<open>BidLevels\<close> and \<open>AskLevels\<close>, with the vector it fills.\<close>

fun collect_levels :: "nat \<Rightarrow> (price \<times> quantity) list \<Rightarrow> levels \<Rightarrow> (price \<times> quantity) list" where
  "collect_levels depth out [] = out"
| "collect_levels depth out ((p, level) # ls) =
     (let out' = out @ [(p, lv_total_quantity level)]
      in if depth \<noteq> 0 \<and> length out' \<ge> depth then out' else collect_levels depth out' ls)"

definition naive_BidLevels :: "nat \<Rightarrow> order_book \<Rightarrow> (price \<times> quantity) list" where
  "naive_BidLevels depth b = collect_levels depth [] (nb_bids b)"

definition naive_AskLevels :: "nat \<Rightarrow> order_book \<Rightarrow> (price \<times> quantity) list" where
  "naive_AskLevels depth b = collect_levels depth [] (nb_asks b)"

definition naive_AllRestingOrders :: "order_book \<Rightarrow> order list" where
  "naive_AllRestingOrders b = flat (nb_bids b) @ flat (nb_asks b)"

section \<open>Mutators\<close>

definition naive_InsertResting :: "order \<Rightarrow> order_book \<Rightarrow> order_book" where
  "naive_InsertResting x b =
     (let n = nb_next_node b;
          loc = \<lparr>loc_side = o_side x, loc_price = o_price x, loc_it = n\<rparr>;
          b' = (if o_side x = Buy then b\<lparr>nb_bids := insert_level (>) n x (nb_bids b)\<rparr>
                else b\<lparr>nb_asks := insert_level (<) n x (nb_asks b)\<rparr>)
      in b'\<lparr>nb_index := AList.update (o_id x) loc (nb_index b), nb_next_node := Suc n\<rparr>)"

definition naive_RestoreOrder :: "order \<Rightarrow> order_book \<Rightarrow> order_book" where
  "naive_RestoreOrder x b = naive_InsertResting x b"

text \<open>
  When the level is not found, \<open>RemoveFromBook\<close> returns before it touches the index.
\<close>

definition naive_RemoveFromBook :: "locator \<Rightarrow> order_id \<Rightarrow> order_book \<Rightarrow> order_book option" where
  "naive_RemoveFromBook loc oid b =
     (case map_of (naive_side (loc_side loc) b) (loc_price loc) of
        None \<Rightarrow> Some b
      | Some level \<Rightarrow>
          (case remove_level (loc_price loc) level (loc_it loc) (naive_side (loc_side loc) b) of
             None \<Rightarrow> None
           | Some ls \<Rightarrow>
               Some ((naive_set_side (loc_side loc) ls b)
                       \<lparr>nb_index := AList.delete oid (nb_index b)\<rparr>)))"

definition naive_AvailableCrossingQuantity :: "order_args \<Rightarrow> order_book \<Rightarrow> quantity" where
  "naive_AvailableCrossingQuantity a b =
     (if a_side a = Buy then available_levels a 0 (nb_asks b) else available_levels a 0 (nb_bids b))"

definition naive_Match :: "order_args \<Rightarrow> quantity \<Rightarrow> order_book \<Rightarrow> quantity \<times> trade list \<times> order_book" where
  "naive_Match a remaining b =
     (if a_side a = Buy then
        (case match_levels (nb_symbol_id b) a remaining (nb_asks b) (nb_index b) of
           (rem', ts, ls, idx) \<Rightarrow> (rem', ts, b\<lparr>nb_asks := ls, nb_index := idx\<rparr>))
      else
        (case match_levels (nb_symbol_id b) a remaining (nb_bids b) (nb_index b) of
           (rem', ts, ls, idx) \<Rightarrow> (rem', ts, b\<lparr>nb_bids := ls, nb_index := idx\<rparr>)))"

definition naive_AddOrder :: "order_args \<Rightarrow> order_book \<Rightarrow> add_result \<times> order_book" where
  "naive_AddOrder a b =
     (if a_id a = kInvalidOrderId then (add_reject UnknownOrder, b)
      else if map_of (nb_index b) (a_id a) \<noteq> None then (add_reject DuplicateOrderId, b)
      else if a_quantity a = 0 then (add_reject InvalidQuantity, b)
      else if a_type a = Limit \<and> a_price a \<le> Price 0 then (add_reject InvalidPrice, b)
      else if a_type a = Market \<and> (if a_side a = Buy then nb_asks b = [] else nb_bids b = [])
        then (add_reject MarketOrderNoLiquidity, b)
      else if a_tif a = FillOrKill \<and> naive_AvailableCrossingQuantity a b < a_quantity a
        then (add_reject FillOrKillNotFilled, b)
      else
        (case naive_Match a (a_quantity a) b of
           (rem, ts, b1) \<Rightarrow>
             if can_rest a rem then
               (rest_result (nb_symbol_id b) a rem ts,
                naive_InsertResting (resting_order (nb_symbol_id b) a rem) b1)
             else (done_result a rem ts, b1)))"

definition naive_CancelOrder :: "order_id \<Rightarrow> order_book \<Rightarrow> (cancel_result \<times> order_book) option" where
  "naive_CancelOrder oid b =
     (case map_of (nb_index b) oid of
        None \<Rightarrow> Some (cancel_reject UnknownOrder, b)
      | Some loc \<Rightarrow>
          do {
            x \<leftarrow> naive_deref loc b;
            b' \<leftarrow> naive_RemoveFromBook loc oid b;
            Some (CancelResult_init\<lparr>cr_success := True, cr_symbol_id := o_symbol_id x,
                    cr_trader_id := o_trader_id x\<rparr>, b')
          })"

definition naive_AmendInPlace :: "locator \<Rightarrow> order \<Rightarrow> quantity \<Rightarrow> order_book \<Rightarrow> order_book option" where
  "naive_AmendInPlace loc snapshot new_quantity b =
     (case map_of (naive_side (loc_side loc) b) (loc_price loc) of
        None \<Rightarrow> None
      | Some level \<Rightarrow>
          let delta = o_remaining_quantity snapshot - new_quantity;
              x = amend_order new_quantity snapshot
          in Some (if loc_side loc = Buy then
                     b\<lparr>nb_bids := amend_level (>) (loc_price loc) level (loc_it loc) x delta (nb_bids b)\<rparr>
                   else
                     b\<lparr>nb_asks := amend_level (<) (loc_price loc) level (loc_it loc) x delta (nb_asks b)\<rparr>))"

definition naive_ModifyOrder ::
  "order_id \<Rightarrow> price \<Rightarrow> quantity \<Rightarrow> sequence_number \<Rightarrow> timestamp \<Rightarrow> order_book \<Rightarrow>
   (modify_result \<times> order_book) option" where
  "naive_ModifyOrder oid new_price new_quantity seq ts b =
     (case map_of (nb_index b) oid of
        None \<Rightarrow> Some (modify_reject UnknownOrder, b)
      | Some loc \<Rightarrow>
          if new_quantity = 0 then Some (modify_reject InvalidQuantity, b)
          else if new_price \<le> Price 0 then Some (modify_reject InvalidPrice, b)
          else do {
            snapshot \<leftarrow> naive_deref loc b;
            if new_price = o_price snapshot \<and> new_quantity \<le> o_remaining_quantity snapshot then
              do {
                b' \<leftarrow> naive_AmendInPlace loc snapshot new_quantity b;
                Some (amend_result new_quantity, b')
              }
            else
              do {
                b1 \<leftarrow> naive_RemoveFromBook loc oid b;
                Some (case naive_AddOrder
                       \<lparr>a_id = oid, a_trader_id = o_trader_id snapshot, a_side = o_side snapshot,
                        a_type = o_type snapshot, a_price = new_price, a_quantity = new_quantity,
                        a_tif = o_time_in_force snapshot, a_seq = seq, a_ts = ts\<rparr> b1 of
                        (add, b2) \<Rightarrow> (replace_result add, b2))
              }
          })"

section \<open>Invariant and abstraction\<close>

definition naive_nodes :: "order_book \<Rightarrow> node_list" where
  "naive_nodes b = nodes (nb_bids b) @ nodes (nb_asks b)"

definition node_locator :: "nat \<times> order \<Rightarrow> locator" where
  "node_locator e = \<lparr>loc_side = o_side (snd e), loc_price = o_price (snd e), loc_it = fst e\<rparr>"

definition naive_inv :: "order_book \<Rightarrow> bool" where
  "naive_inv b \<longleftrightarrow>
     levels_ok (nb_symbol_id b) True (nb_bids b) \<and>
     levels_ok (nb_symbol_id b) False (nb_asks b) \<and>
     distinct (map fst (naive_nodes b)) \<and>
     (\<forall>n \<in> fst ` set (naive_nodes b). n < nb_next_node b) \<and>
     index_ok node_locator (nb_index b) (naive_nodes b) \<and>
     (\<forall>p \<in> fst ` set (nb_bids b). \<forall>q \<in> fst ` set (nb_asks b). p < q)"

definition naive_abs :: "order_book \<Rightarrow> spec_book" where
  "naive_abs b = \<lparr>sb_symbol_id = nb_symbol_id b, sb_bids = flat (nb_bids b), sb_asks = flat (nb_asks b)\<rparr>"

interpretation naive_index: id_index node_locator
  by unfold_locales (auto simp: node_locator_def node_key_def)

lemma naive_abs_simps [simp]:
  "sb_symbol_id (naive_abs b) = nb_symbol_id b"
  "sb_bids (naive_abs b) = flat (nb_bids b)" "sb_asks (naive_abs b) = flat (nb_asks b)"
  "all_orders (naive_abs b) = map snd (naive_nodes b)"
  "queue (s = Buy) (naive_abs b) = flat (naive_side s b)"
  by (simp_all add: naive_abs_def all_orders_def naive_nodes_def flat_def naive_side_def)

lemma naive_inv_new: "naive_inv (naive_new symb)"
  by (simp add: naive_inv_def naive_new_def naive_nodes_def naive_index.index_nil)

lemma naive_inv_spec: "naive_inv b \<Longrightarrow> spec_inv (naive_abs b)"
  using prioritised_flat [of "nb_symbol_id b"] levels_ok_flat [of "nb_symbol_id b"]
  by (fastforce simp: naive_inv_def spec_inv_def all_bool_eq index_ok_def flat_prices o_def)

section \<open>The operations refine the contract\<close>

lemma naive_inv_sides:
  assumes "naive_inv b"
  shows "levels_ok (nb_symbol_id b) (s = Buy) (naive_side s b)"
    "distinct (map fst (nodes (naive_side s b)))"
  using assms by (auto simp: naive_inv_def naive_side_def naive_nodes_def)

lemma naive_index_None:
  "naive_inv b \<Longrightarrow> map_of (nb_index b) oid = None \<longleftrightarrow> spec_find oid (naive_abs b) = None"
  unfolding spec_find_def find_None_iff_notin
  using naive_index.index_find(1) [of "nb_index b" "naive_nodes b"]
  by (simp add: naive_inv_def image_image)

text \<open>An index entry leads to the order: no iterator dangles.\<close>

lemma naive_locate:
  assumes inv: "naive_inv b" and idx: "map_of (nb_index b) oid = Some loc"
  obtains n x l where "loc = node_locator (n, x)" "o_id x = oid"
    "map_of (naive_side (o_side x) b) (o_price x) = Some l" "map_of (lv_orders l) n = Some x"
    "naive_deref loc b = Some x" "spec_find oid (naive_abs b) = Some x"
proof -
  have ok: "index_ok node_locator (nb_index b) (naive_nodes b)" using inv by (simp add: naive_inv_def)
  from naive_index.index_find(2) [OF ok idx] obtain n x where
    e: "(n, x) \<in> set (naive_nodes b)" "o_id x = oid" "loc = node_locator (n, x)" by auto
  have "(n, x) \<in> set (nodes (naive_side (o_side x) b))"
    using e(1) inv levels_ok_nodes(1) by (fastforce simp: naive_inv_def naive_nodes_def naive_side_def order_ok_def)
  from node_level [OF naive_inv_sides(1) [OF inv] this naive_inv_sides(2) [OF inv]]
  obtain l where l: "map_of (naive_side (o_side x) b) (o_price x) = Some l" "map_of (lv_orders l) n = Some x" .
  then have "naive_deref loc b = Some x" by (simp add: naive_deref_def e node_locator_def)
  moreover have "spec_find oid (naive_abs b) = Some x"
    unfolding spec_find_def e(2) [symmetric]
  proof (rule find_distinct)
    show "distinct (map o_id (all_orders (naive_abs b)))"
      using ok by (simp add: index_ok_def o_def)
    show "x \<in> set (all_orders (naive_abs b))" using e(1) by force
  qed
  ultimately show thesis using e l by (intro that [of n x l])
qed

lemma naive_FindOrder_refines:
  assumes "naive_inv b"
  shows "naive_FindOrder oid b = Some (spec_find oid (naive_abs b))"
proof (cases "map_of (nb_index b) oid")
  case None
  then have "spec_find oid (naive_abs b) = None" using naive_index_None [OF assms] by blast
  with None show ?thesis by (simp add: naive_FindOrder_def)
next
  case (Some loc)
  obtain x where "naive_deref loc b = Some x" "spec_find oid (naive_abs b) = Some x"
    by (rule naive_locate [OF assms Some])
  then show ?thesis by (simp add: naive_FindOrder_def Some)
qed

lemma naive_HasOrder_refines:
  "naive_inv b \<Longrightarrow> naive_HasOrder oid b \<longleftrightarrow> oid \<in> o_id ` set (all_orders (naive_abs b))"
  using naive_index.index_find(1) [of "nb_index b" "naive_nodes b" oid]
  by (simp add: naive_HasOrder_def naive_inv_def image_image)

lemma naive_observers:
  assumes "naive_inv b"
  shows "naive_QuantityAt s p b = spec_quantity_at s p (naive_abs b)"
    and "naive_OrderCountAt s p b = spec_count_at s p (naive_abs b)"
    and "naive_BestBid b = spec_best True (naive_abs b)"
    and "naive_BestAsk b = spec_best False (naive_abs b)"
    and "naive_HasBestBid b \<longleftrightarrow> sb_bids (naive_abs b) \<noteq> []"
    and "naive_HasBestAsk b \<longleftrightarrow> sb_asks (naive_abs b) \<noteq> []"
    and "naive_TotalOrderCount b = length (all_orders (naive_abs b))"
    and "naive_AllRestingOrders b = all_orders (naive_abs b)"
proof -
  have l: "levels_ok (nb_symbol_id b) True (nb_bids b)" "levels_ok (nb_symbol_id b) False (nb_asks b)"
    using assms by (simp_all add: naive_inv_def)
  show "naive_QuantityAt s p b = spec_quantity_at s p (naive_abs b)"
    "naive_OrderCountAt s p b = spec_count_at s p (naive_abs b)"
    using level_quantity_flat [OF l(1)] level_quantity_flat [OF l(2)]
      level_count_flat [OF l(1)] level_count_flat [OF l(2)]
    by (simp_all add: naive_QuantityAt_def spec_quantity_at_def naive_OrderCountAt_def
        spec_count_at_def naive_side_def)
  show "naive_BestBid b = spec_best True (naive_abs b)" "naive_BestAsk b = spec_best False (naive_abs b)"
    using first_price_flat [OF l(1)] first_price_flat [OF l(2)]
    by (simp_all add: naive_BestBid_def naive_BestAsk_def spec_best_def)
  show "naive_HasBestBid b \<longleftrightarrow> sb_bids (naive_abs b) \<noteq> []" "naive_HasBestAsk b \<longleftrightarrow> sb_asks (naive_abs b) \<noteq> []"
    using flat_eq_Nil [OF l(1)] flat_eq_Nil [OF l(2)]
    by (simp_all add: naive_HasBestBid_def naive_HasBestAsk_def)
  show "naive_TotalOrderCount b = length (all_orders (naive_abs b))"
    using assms naive_index.index_size by (simp add: naive_TotalOrderCount_def naive_inv_def)
  show "naive_AllRestingOrders b = all_orders (naive_abs b)"
    by (simp add: naive_AllRestingOrders_def naive_nodes_def flat_def)
qed

subsection \<open>Match\<close>

lemma map_fst_key: "map node_key ns = map node_key ns' \<Longrightarrow> map fst ns = map fst ns'"
  by (drule arg_cong [where f = "map fst"]) (simp add: node_key_def o_def)

text \<open>Shrinking one side keeps the invariant, once the index has followed.\<close>

lemma naive_invI:
  assumes "levels_ok (nb_symbol_id b) True (nb_bids b)" "levels_ok (nb_symbol_id b) False (nb_asks b)"
    "distinct (map fst (nodes (nb_bids b)))" "distinct (map fst (nodes (nb_asks b)))"
    "fst ` set (nodes (nb_bids b)) \<inter> fst ` set (nodes (nb_asks b)) = {}"
    "\<forall>n \<in> fst ` set (nodes (nb_bids b)). n < nb_next_node b"
    "\<forall>n \<in> fst ` set (nodes (nb_asks b)). n < nb_next_node b"
    "index_ok node_locator (nb_index b) (nodes (nb_bids b) @ nodes (nb_asks b))"
    "\<forall>p \<in> fst ` set (nb_bids b). \<forall>q \<in> fst ` set (nb_asks b). p < q"
  shows "naive_inv b"
proof -
  have "\<forall>n \<in> fst ` set (naive_nodes b). n < nb_next_node b"
    using assms(6,7) unfolding naive_nodes_def set_append image_Un by blast
  moreover have "distinct (map fst (naive_nodes b))"
    using assms(3,4,5) by (simp add: naive_nodes_def)
  ultimately show ?thesis
    using assms(1,2,8,9) unfolding naive_inv_def naive_nodes_def by blast
qed

lemma naive_invD:
  assumes "naive_inv b"
  shows "levels_ok (nb_symbol_id b) True (nb_bids b)" "levels_ok (nb_symbol_id b) False (nb_asks b)"
    "distinct (map fst (nodes (nb_bids b)))" "distinct (map fst (nodes (nb_asks b)))"
    "fst ` set (nodes (nb_bids b)) \<inter> fst ` set (nodes (nb_asks b)) = {}"
    "\<forall>n \<in> fst ` set (nodes (nb_bids b)). n < nb_next_node b"
    "\<forall>n \<in> fst ` set (nodes (nb_asks b)). n < nb_next_node b"
    "index_ok node_locator (nb_index b) (nodes (nb_bids b) @ nodes (nb_asks b))"
    "\<forall>p \<in> fst ` set (nb_bids b). \<forall>q \<in> fst ` set (nb_asks b). p < q"
proof -
  from assms have "distinct (map fst (nodes (nb_bids b) @ nodes (nb_asks b)))"
    by (simp only: naive_inv_def naive_nodes_def)
  then show "distinct (map fst (nodes (nb_bids b)))" "distinct (map fst (nodes (nb_asks b)))"
    "fst ` set (nodes (nb_bids b)) \<inter> fst ` set (nodes (nb_asks b)) = {}" by simp_all
qed (use assms in \<open>unfold naive_inv_def naive_nodes_def set_append image_Un, blast+\<close>)

lemma naive_inv_shrink_asks:
  assumes "naive_inv b" "levels_ok (nb_symbol_id b) False ls" "fst ` set ls \<subseteq> fst ` set (nb_asks b)"
    "distinct (map fst (nodes ls))" "fst ` set (nodes ls) \<subseteq> fst ` set (nodes (nb_asks b))"
    "index_ok node_locator idx (nodes (nb_bids b) @ nodes ls)"
  shows "naive_inv (b\<lparr>nb_asks := ls, nb_index := idx\<rparr>)"
proof (rule naive_invI)
  note inv = naive_invD [OF assms(1)]
  let ?b = "b\<lparr>nb_asks := ls, nb_index := idx\<rparr>"
  have b: "nb_bids ?b = nb_bids b" "nb_asks ?b = ls" "nb_next_node ?b = nb_next_node b" by simp_all
  show "fst ` set (nodes (nb_bids ?b)) \<inter> fst ` set (nodes (nb_asks ?b)) = {}"
    unfolding b using inv(5) assms(5) by blast
  show "\<forall>n \<in> fst ` set (nodes (nb_bids ?b)). n < nb_next_node ?b"
    unfolding b by (rule inv(6))
  show "\<forall>n \<in> fst ` set (nodes (nb_asks ?b)). n < nb_next_node ?b"
    unfolding b by (rule ball_subset [OF assms(5) inv(7)])
  show "\<forall>p \<in> fst ` set (nb_bids ?b). \<forall>q \<in> fst ` set (nb_asks ?b). p < q"
    unfolding b using inv(9) assms(3) by blast
qed (use assms(2,4,6) naive_invD(1-4) [OF assms(1)] in simp_all)

lemma naive_inv_shrink_bids:
  assumes "naive_inv b" "levels_ok (nb_symbol_id b) True ls" "fst ` set ls \<subseteq> fst ` set (nb_bids b)"
    "distinct (map fst (nodes ls))" "fst ` set (nodes ls) \<subseteq> fst ` set (nodes (nb_bids b))"
    "index_ok node_locator idx (nodes ls @ nodes (nb_asks b))"
  shows "naive_inv (b\<lparr>nb_bids := ls, nb_index := idx\<rparr>)"
proof (rule naive_invI)
  note inv = naive_invD [OF assms(1)]
  let ?b = "b\<lparr>nb_bids := ls, nb_index := idx\<rparr>"
  have b: "nb_bids ?b = ls" "nb_asks ?b = nb_asks b" "nb_next_node ?b = nb_next_node b" by simp_all
  show "fst ` set (nodes (nb_bids ?b)) \<inter> fst ` set (nodes (nb_asks ?b)) = {}"
    unfolding b using inv(5) assms(5) by blast
  show "\<forall>n \<in> fst ` set (nodes (nb_bids ?b)). n < nb_next_node ?b"
    unfolding b by (rule ball_subset [OF assms(5) inv(6)])
  show "\<forall>n \<in> fst ` set (nodes (nb_asks ?b)). n < nb_next_node ?b"
    unfolding b by (rule inv(7))
  show "\<forall>p \<in> fst ` set (nb_bids ?b). \<forall>q \<in> fst ` set (nb_asks ?b). p < q"
    unfolding b using inv(9) assms(3) by blast
qed (use assms(2,4,6) naive_invD(1-4) [OF assms(1)] in simp_all)

lemma drop_key_nodes:
  assumes "map node_key ns' = map node_key (drop k ns)" "distinct (map fst ns)"
  shows "distinct (map fst ns')" "fst ` set ns' \<subseteq> fst ` set ns"
proof -
  have eq: "map fst ns' = drop k (map fst ns)"
    using map_fst_key [OF assms(1)] by (simp add: drop_map)
  show "distinct (map fst ns')" unfolding eq by (rule distinct_drop) (rule assms(2))
  have "set (map fst ns') \<subseteq> set (map fst ns)" unfolding eq by (rule set_drop_subset)
  then show "fst ` set ns' \<subseteq> fst ` set ns" by simp
qed

lemma naive_Match_refines:
  assumes inv: "naive_inv b" and m: "naive_Match a rem b = (rem', ts, b')"
  shows "\<exists>opp. fill (nb_symbol_id b) a rem (queue (a_side a \<noteq> Buy) (naive_abs b)) = (rem', ts, opp) \<and>
      naive_abs b' = set_queue (a_side a \<noteq> Buy) opp (naive_abs b)"
    and "naive_inv b'" and "nb_symbol_id b' = nb_symbol_id b"
proof -
  have ok: "levels_ok (nb_symbol_id b) True (nb_bids b)" "levels_ok (nb_symbol_id b) False (nb_asks b)"
    and idx: "index_ok node_locator (nb_index b) (nodes (nb_bids b) @ nodes (nb_asks b))"
    using inv by (simp_all add: naive_inv_def naive_nodes_def)
  have "(\<exists>opp. fill (nb_symbol_id b) a rem (queue (a_side a \<noteq> Buy) (naive_abs b)) = (rem', ts, opp) \<and>
      naive_abs b' = set_queue (a_side a \<noteq> Buy) opp (naive_abs b)) \<and> naive_inv b' \<and>
      nb_symbol_id b' = nb_symbol_id b"
  proof (cases "a_side a = Buy")
    case True
    obtain ls idx' where ml: "match_levels (nb_symbol_id b) a rem (nb_asks b) (nb_index b) = (rem', ts, ls, idx')"
      and b': "b' = b\<lparr>nb_asks := ls, nb_index := idx'\<rparr>"
      using m True by (auto simp: naive_Match_def split: prod.splits)
    note f = match_levels_facts [OF ml ok(2)]
    from f(4) obtain k where k: "map node_key (nodes ls) = map node_key (drop k (nodes (nb_asks b)))"
      "idx' = fold AList.delete (node_ids (take k (nodes (nb_asks b)))) (nb_index b)" by blast
    have "index_ok node_locator idx' (nodes (nb_bids b) @ nodes ls @ [])"
      unfolding k(2) by (rule naive_index.index_keep [OF _ k(1)]) (simp add: idx)
    moreover have "distinct (map fst (nodes (nb_asks b)))" using inv by (simp add: naive_inv_def naive_nodes_def)
    note drop_key_nodes [OF k(1) this]
    ultimately have "naive_inv b'"
      unfolding b' using inv f(2,3) by (intro naive_inv_shrink_asks) simp_all
    then show ?thesis using f(1) True by (auto simp: b' set_queue_def naive_abs_def)
  next
    case False
    obtain ls idx' where ml: "match_levels (nb_symbol_id b) a rem (nb_bids b) (nb_index b) = (rem', ts, ls, idx')"
      and b': "b' = b\<lparr>nb_bids := ls, nb_index := idx'\<rparr>"
      using m False by (auto simp: naive_Match_def split: prod.splits)
    note f = match_levels_facts [OF ml ok(1)]
    from f(4) obtain k where k: "map node_key (nodes ls) = map node_key (drop k (nodes (nb_bids b)))"
      "idx' = fold AList.delete (node_ids (take k (nodes (nb_bids b)))) (nb_index b)" by blast
    have "index_ok node_locator idx' ([] @ nodes ls @ nodes (nb_asks b))"
      unfolding k(2) by (rule naive_index.index_keep [OF _ k(1)]) (simp add: idx)
    moreover have "distinct (map fst (nodes (nb_bids b)))" using inv by (simp add: naive_inv_def naive_nodes_def)
    note drop_key_nodes [OF k(1) this]
    ultimately have "naive_inv b'"
      unfolding b' using inv f(2,3) by (intro naive_inv_shrink_bids) simp_all
    then show ?thesis using f(1) False by (auto simp: b' set_queue_def naive_abs_def)
  qed
  then show "\<exists>opp. fill (nb_symbol_id b) a rem (queue (a_side a \<noteq> Buy) (naive_abs b)) = (rem', ts, opp) \<and>
      naive_abs b' = set_queue (a_side a \<noteq> Buy) opp (naive_abs b)"
    "naive_inv b'" "nb_symbol_id b' = nb_symbol_id b" by blast+
qed

subsection \<open>InsertResting and AddOrder\<close>

lemma uncrossed_flat:
  assumes "levels_ok symb True bs" "levels_ok symb False as"
    "\<forall>x \<in> set (flat bs). \<forall>y \<in> set (flat as). o_price x < o_price y"
  shows "\<forall>p \<in> fst ` set bs. \<forall>q \<in> fst ` set as. p < q"
  using assms(3) unfolding flat_prices [OF assms(1), symmetric] flat_prices [OF assms(2), symmetric]
  by simp

lemma naive_inv_grow_bids:
  assumes inv: "naive_inv b" and ls: "levels_ok (nb_symbol_id b) True ls"
    and AB: "nodes (nb_bids b) = A @ B" "nodes ls = A @ (nb_next_node b, x) # B"
    and ids: "o_id x \<notin> set (node_ids (nodes (nb_bids b) @ nodes (nb_asks b)))"
    and sep: "\<forall>p \<in> fst ` set ls. \<forall>q \<in> fst ` set (nb_asks b). p < q"
  shows "naive_inv (b\<lparr>nb_bids := ls,
    nb_index := AList.update (o_id x) (node_locator (nb_next_node b, x)) (nb_index b),
    nb_next_node := Suc (nb_next_node b)\<rparr>)"
proof -
  note d = naive_invD [OF inv]
  have new: "nb_next_node b \<notin> fst ` set (nodes (nb_bids b))" "nb_next_node b \<notin> fst ` set (nodes (nb_asks b))"
    using d(6,7) by blast+
  have "index_ok node_locator (nb_index b) (A @ (B @ nodes (nb_asks b)))" using d(8) AB(1) by simp
  from naive_index.index_insert [OF this, of x "nb_next_node b"] ids
  have "index_ok node_locator (AList.update (o_id x) (node_locator (nb_next_node b, x)) (nb_index b))
      (nodes ls @ nodes (nb_asks b))" by (simp add: AB)
  moreover have "fst ` set (nodes ls) \<inter> fst ` set (nodes (nb_asks b)) = {}"
    using d(5) new(2) by (simp add: AB image_Un Int_Un_distrib2)
  moreover have "distinct (map fst (nodes ls))" using d(3) new(1) by (simp add: AB image_Un)
  moreover have "\<forall>n \<in> fst ` set (nodes ls). n < Suc (nb_next_node b)"
    "\<forall>n \<in> fst ` set (nodes (nb_asks b)). n < Suc (nb_next_node b)"
    using d(6,7) by (auto simp: AB less_Suc_eq)
  ultimately show ?thesis using d(2,4) ls sep by (intro naive_invI) simp_all
qed

lemma naive_inv_grow_asks:
  assumes inv: "naive_inv b" and ls: "levels_ok (nb_symbol_id b) False ls"
    and AB: "nodes (nb_asks b) = A @ B" "nodes ls = A @ (nb_next_node b, x) # B"
    and ids: "o_id x \<notin> set (node_ids (nodes (nb_bids b) @ nodes (nb_asks b)))"
    and sep: "\<forall>p \<in> fst ` set (nb_bids b). \<forall>q \<in> fst ` set ls. p < q"
  shows "naive_inv (b\<lparr>nb_asks := ls,
    nb_index := AList.update (o_id x) (node_locator (nb_next_node b, x)) (nb_index b),
    nb_next_node := Suc (nb_next_node b)\<rparr>)"
proof -
  note d = naive_invD [OF inv]
  have new: "nb_next_node b \<notin> fst ` set (nodes (nb_bids b))" "nb_next_node b \<notin> fst ` set (nodes (nb_asks b))"
    using d(6,7) by blast+
  have "index_ok node_locator (nb_index b) ((nodes (nb_bids b) @ A) @ B)" using d(8) AB(1) by simp
  from naive_index.index_insert [OF this, of x "nb_next_node b"] ids
  have "index_ok node_locator (AList.update (o_id x) (node_locator (nb_next_node b, x)) (nb_index b))
      (nodes (nb_bids b) @ nodes ls)" by (simp add: AB)
  moreover have "fst ` set (nodes (nb_bids b)) \<inter> fst ` set (nodes ls) = {}"
    using d(5) new(1) by (simp add: AB image_Un Int_Un_distrib)
  moreover have "distinct (map fst (nodes ls))" using d(4) new(2) by (simp add: AB image_Un)
  moreover have "\<forall>n \<in> fst ` set (nodes ls). n < Suc (nb_next_node b)"
    "\<forall>n \<in> fst ` set (nodes (nb_bids b)). n < Suc (nb_next_node b)"
    using d(6,7) by (auto simp: AB less_Suc_eq)
  ultimately show ?thesis using d(1,3) ls sep by (intro naive_invI) simp_all
qed

lemma naive_InsertResting_unfold:
  "naive_InsertResting x b =
    (let n = nb_next_node b; idx = AList.update (o_id x) (node_locator (n, x)) (nb_index b)
     in if o_side x = Buy then b\<lparr>nb_bids := insert_level (>) n x (nb_bids b), nb_index := idx, nb_next_node := Suc n\<rparr>
        else b\<lparr>nb_asks := insert_level (<) n x (nb_asks b), nb_index := idx, nb_next_node := Suc n\<rparr>)"
  by (simp add: naive_InsertResting_def Let_def node_locator_def)

lemma naive_InsertResting_refines:
  assumes inv: "naive_inv b" and ok: "order_ok (nb_symbol_id b) (o_side x = Buy) x"
    and fresh: "o_id x \<notin> o_id ` set (all_orders (naive_abs b))"
    and sep: "\<forall>y \<in> set (queue (o_side x \<noteq> Buy) (naive_abs b)).
      better (o_side x \<noteq> Buy) (o_price x) (o_price y)"
  shows "naive_inv (naive_InsertResting x b)"
    and "naive_abs (naive_InsertResting x b) = set_queue (o_side x = Buy)
      (place (o_side x = Buy) x (queue (o_side x = Buy) (naive_abs b))) (naive_abs b)"
proof -
  note d = naive_invD [OF inv]
  have ids: "o_id x \<notin> set (node_ids (nodes (nb_bids b) @ nodes (nb_asks b)))"
    using fresh by (auto simp: naive_nodes_def)
  have spec: "spec_inv (set_queue (o_side x = Buy)
      (place (o_side x = Buy) x (queue (o_side x = Buy) (naive_abs b))) (naive_abs b))"
    using spec_inv_place [OF naive_inv_spec [OF inv], of "o_side x = Buy" x] ok fresh sep by simp
  have "naive_inv (naive_InsertResting x b) \<and>
    naive_abs (naive_InsertResting x b) = set_queue (o_side x = Buy)
      (place (o_side x = Buy) x (queue (o_side x = Buy) (naive_abs b))) (naive_abs b)"
  proof (cases "o_side x = Buy")
    case True
    then have "order_ok (nb_symbol_id b) True x" using ok by simp
    note f = insert_level_facts [OF d(1) this, of "nb_next_node b", unfolded better_std]
    from f(3) obtain A B where AB: "nodes (nb_bids b) = A @ B"
      "nodes (insert_level (>) (nb_next_node b) x (nb_bids b)) = A @ (nb_next_node b, x) # B" by blast
    have "\<forall>p \<in> fst ` set (insert_level (>) (nb_next_node b) x (nb_bids b)). \<forall>q \<in> fst ` set (nb_asks b). p < q"
      using spec True f(2) unfolding spec_inv_sides
      by (intro uncrossed_flat [OF f(1) d(2)]) (simp add: set_queue_def)
    from naive_inv_grow_bids [OF inv f(1) AB ids this] True f(2) show ?thesis
      by (simp add: naive_InsertResting_unfold Let_def set_queue_def naive_abs_def)
  next
    case False
    then have "order_ok (nb_symbol_id b) False x" using ok by simp
    note f = insert_level_facts [OF d(2) this, of "nb_next_node b", unfolded better_std]
    from f(3) obtain A B where AB: "nodes (nb_asks b) = A @ B"
      "nodes (insert_level (<) (nb_next_node b) x (nb_asks b)) = A @ (nb_next_node b, x) # B" by blast
    have "\<forall>p \<in> fst ` set (nb_bids b). \<forall>q \<in> fst ` set (insert_level (<) (nb_next_node b) x (nb_asks b)). p < q"
      using spec False f(2) unfolding spec_inv_sides
      by (intro uncrossed_flat [OF d(1) f(1)]) (simp add: set_queue_def)
    from naive_inv_grow_asks [OF inv f(1) AB ids this] False f(2) show ?thesis
      by (simp add: naive_InsertResting_unfold Let_def set_queue_def naive_abs_def)
  qed
  then show "naive_inv (naive_InsertResting x b)"
    and "naive_abs (naive_InsertResting x b) = set_queue (o_side x = Buy)
      (place (o_side x = Buy) x (queue (o_side x = Buy) (naive_abs b))) (naive_abs b)" by blast+
qed

text \<open>
  \<open>AddOrder\<close>: the same checks in the same order, then matching and resting. When the order
  rests, what is left of the opposite side does not cross it.
\<close>

lemma naive_reject_refines:
  assumes inv: "naive_inv b"
  shows "naive_AddOrder a b =
    (case spec_reject a (naive_abs b) of
       Some r \<Rightarrow> (add_reject r, b)
     | None \<Rightarrow> (case naive_Match a (a_quantity a) b of
           (rem, ts, b1) \<Rightarrow>
             if can_rest a rem then
               (rest_result (nb_symbol_id b) a rem ts,
                naive_InsertResting (resting_order (nb_symbol_id b) a rem) b1)
             else (done_result a rem ts, b1)))"
proof -
  note d = naive_invD [OF inv]
  have known: "map_of (nb_index b) (a_id a) \<noteq> None \<longleftrightarrow> a_id a \<in> o_id ` set (all_orders (naive_abs b))"
    using naive_HasOrder_refines [OF inv] by (simp add: naive_HasOrder_def)
  have empty: "(if a_side a = Buy then nb_asks b = [] else nb_bids b = []) \<longleftrightarrow>
      queue (a_side a \<noteq> Buy) (naive_abs b) = []"
    using flat_eq_Nil [OF d(1)] flat_eq_Nil [OF d(2)] by simp
  have avail: "naive_AvailableCrossingQuantity a b = available a (queue (a_side a \<noteq> Buy) (naive_abs b))"
    using available_flat [OF d(1)] available_flat [OF d(2)] by (simp add: naive_AvailableCrossingQuantity_def)
  show ?thesis
    unfolding naive_AddOrder_def spec_reject_def known empty avail
    by (simp split: if_splits)
qed

lemma naive_AddOrder_refines:
  assumes inv: "naive_inv b" and add: "naive_AddOrder a b = (r, b')"
  shows "naive_inv b'" and "spec_add a (naive_abs b) = (r, naive_abs b')"
proof -
  have "naive_inv b' \<and> spec_add a (naive_abs b) = (r, naive_abs b')"
  proof (cases "spec_reject a (naive_abs b)")
    case (Some rr)
    with add inv show ?thesis by (auto simp: naive_reject_refines spec_add_def)
  next
    case None
    obtain rem ts b1 where m: "naive_Match a (a_quantity a) b = (rem, ts, b1)" by (metis prod_cases3)
    note mr = naive_Match_refines [OF inv m]
    from mr(1) obtain opp where f: "fill (nb_symbol_id b) a (a_quantity a)
        (queue (a_side a \<noteq> Buy) (naive_abs b)) = (rem, ts, opp)"
      and b1: "naive_abs b1 = set_queue (a_side a \<noteq> Buy) opp (naive_abs b)" by blast
    have spec: "spec_add a (naive_abs b) = spec_execute a (naive_abs b)" by (simp add: spec_add_def None)
    show ?thesis
    proof (cases "can_rest a rem")
      case False
      with add inv None m mr f b1 show ?thesis
        by (simp add: naive_reject_refines spec spec_execute_def)
    next
      case True
      let ?x = "resting_order (nb_symbol_id b) a rem"
      have f': "fill (sb_symbol_id (naive_abs b)) a (a_quantity a)
          (queue (a_side a \<noteq> Buy) (naive_abs b)) = (rem, ts, opp)" using f by simp
      note rest = spec_execute_rest [OF naive_inv_spec [OF inv] None f' True,
          folded b1, simplified naive_abs_simps(1)]
      have x: "o_side ?x = a_side a" by (simp add: resting_order_def)
      from naive_InsertResting_refines [OF mr(2), of ?x, unfolded x mr(3), OF rest]
      have "naive_inv (naive_InsertResting ?x b1)"
        "naive_abs (naive_InsertResting ?x b1) = set_queue (a_side a = Buy)
           (place (a_side a = Buy) ?x (queue (a_side a = Buy) (naive_abs b1))) (naive_abs b1)" .
      with True add inv None m f b1 show ?thesis
        by (simp add: naive_reject_refines spec spec_execute_def Let_def)
    qed
  qed
  then show "naive_inv b'" "spec_add a (naive_abs b) = (r, naive_abs b')" by blast+
qed

subsection \<open>RemoveFromBook, CancelOrder and ModifyOrder\<close>

lemma naive_RemoveFromBook_refines:
  assumes inv: "naive_inv b" and idx: "map_of (nb_index b) oid = Some loc"
  shows "\<exists>b'. naive_RemoveFromBook loc oid b = Some b' \<and> naive_inv b' \<and>
    naive_abs b' = spec_remove oid (naive_abs b)"
proof (rule naive_locate [OF inv idx])
  fix n x l
  assume loc: "loc = node_locator (n, x)" and oid: "o_id x = oid"
    and l: "map_of (naive_side (o_side x) b) (o_price x) = Some l" and n: "map_of (lv_orders l) n = Some x"
  note d = naive_invD [OF inv]
  note side = naive_inv_sides [OF inv, of "o_side x"]
  from remove_level_facts [OF side(1) l n side(2)] obtain ls A B where
    rm: "remove_level (o_price x) l n (naive_side (o_side x) b) = Some ls"
    and ls: "levels_ok (nb_symbol_id b) (o_side x = Buy) ls"
    and AB: "nodes (naive_side (o_side x) b) = A @ (n, x) # B" "nodes ls = A @ B" by blast
  let ?b' = "(naive_set_side (o_side x) ls b)\<lparr>nb_index := AList.delete oid (nb_index b)\<rparr>"
  have res: "naive_RemoveFromBook loc oid b = Some ?b'"
    using l rm by (simp add: naive_RemoveFromBook_def loc node_locator_def)
  have sub: "fst ` set ls \<subseteq> fst ` set (naive_side (o_side x) b)"
    by (rule levels_prices_subset [OF side(1) ls]) (auto simp: flat_def AB)
  have nsub: "distinct (map fst (nodes ls))" "fst ` set (nodes ls) \<subseteq> fst ` set (nodes (naive_side (o_side x) b))"
    using side(2) by (auto simp: AB)
  have dist: "distinct (node_ids (nodes (nb_bids b) @ nodes (nb_asks b)))"
    "distinct (node_ids (nodes (nb_asks b) @ nodes (nb_bids b)))"
    using d(8) by (auto simp: index_ok_def)
  show ?thesis
  proof (cases "o_side x = Buy")
    case True
    have "index_ok node_locator (AList.delete oid (nb_index b)) (A @ (B @ nodes (nb_asks b)))"
      unfolding oid [symmetric] using d(8) AB(1) True
      by (intro naive_index.index_remove) (simp add: naive_side_def)
    then have "naive_inv (b\<lparr>nb_bids := ls, nb_index := AList.delete oid (nb_index b)\<rparr>)"
      using ls sub nsub True inv by (intro naive_inv_shrink_bids) (simp_all add: naive_side_def AB(2))
    moreover note side_withdraw [OF AB(1) [unfolded naive_side_def True, simplified] AB(2) dist(1)]
    ultimately show ?thesis
      using res True oid by (simp add: naive_set_side_def naive_abs_def spec_remove_def)
  next
    case False
    have "index_ok node_locator (AList.delete oid (nb_index b)) ((nodes (nb_bids b) @ A) @ B)"
      unfolding oid [symmetric] using d(8) AB(1) False
      by (intro naive_index.index_remove) (simp add: naive_side_def)
    then have "naive_inv (b\<lparr>nb_asks := ls, nb_index := AList.delete oid (nb_index b)\<rparr>)"
      using ls sub nsub False inv by (intro naive_inv_shrink_asks) (simp_all add: naive_side_def AB(2))
    moreover have "nodes (nb_asks b) = A @ (n, x) # B" using AB(1) False by (simp add: naive_side_def)
    note side_withdraw [OF this AB(2) dist(2)]
    ultimately show ?thesis
      using res False oid by (simp add: naive_set_side_def naive_abs_def spec_remove_def)
  qed
qed

lemma naive_CancelOrder_refines:
  assumes inv: "naive_inv b"
  shows "\<exists>r b'. naive_CancelOrder oid b = Some (r, b') \<and> naive_inv b' \<and>
    spec_cancel oid (naive_abs b) = (r, naive_abs b')"
proof (cases "map_of (nb_index b) oid")
  case None
  then have "spec_find oid (naive_abs b) = None" using naive_index_None [OF inv] by blast
  with None inv show ?thesis by (simp add: naive_CancelOrder_def spec_cancel_def)
next
  case (Some loc)
  obtain x where x: "naive_deref loc b = Some x" "spec_find oid (naive_abs b) = Some x"
    by (rule naive_locate [OF inv Some])
  from naive_RemoveFromBook_refines [OF inv Some] obtain b' where
    "naive_RemoveFromBook loc oid b = Some b'" "naive_inv b'" "naive_abs b' = spec_remove oid (naive_abs b)"
    by blast
  with Some x show ?thesis by (simp add: naive_CancelOrder_def spec_cancel_def)
qed

text \<open>The in-place branch.\<close>

lemma naive_inv_amend_bids:
  assumes inv: "naive_inv b" and ls: "levels_ok (nb_symbol_id b) True ls"
    and AB: "nodes (nb_bids b) = A @ (n, x) # B" "nodes ls = A @ (n, x') # B"
    and key: "node_key (n, x') = node_key (n, x)"
  shows "naive_inv (b\<lparr>nb_bids := ls\<rparr>)"
proof -
  note d = naive_invD [OF inv]
  have "fst ` set ls \<subseteq> fst ` set (nb_bids b)"
    using key by (intro levels_prices_subset [OF d(1) ls]) (auto simp: flat_def AB node_key_def)
  moreover have "index_ok node_locator (nb_index b) (A @ (n, x') # (B @ nodes (nb_asks b)))"
    using d(8) AB(1) by (intro naive_index.index_same [OF _ key]) simp
  moreover have "distinct (map fst (nodes ls))" "fst ` set (nodes ls) \<subseteq> fst ` set (nodes (nb_bids b))"
    using d(3) by (auto simp: AB)
  ultimately show ?thesis
    using naive_inv_shrink_bids [OF inv ls, of "nb_index b"] by (simp add: AB(2))
qed

lemma naive_inv_amend_asks:
  assumes inv: "naive_inv b" and ls: "levels_ok (nb_symbol_id b) False ls"
    and AB: "nodes (nb_asks b) = A @ (n, x) # B" "nodes ls = A @ (n, x') # B"
    and key: "node_key (n, x') = node_key (n, x)"
  shows "naive_inv (b\<lparr>nb_asks := ls\<rparr>)"
proof -
  note d = naive_invD [OF inv]
  have "fst ` set ls \<subseteq> fst ` set (nb_asks b)"
    using key by (intro levels_prices_subset [OF d(2) ls]) (auto simp: flat_def AB node_key_def)
  moreover have "index_ok node_locator (nb_index b) ((nodes (nb_bids b) @ A) @ (n, x') # B)"
    using d(8) AB(1) by (intro naive_index.index_same [OF _ key]) simp
  moreover have "distinct (map fst (nodes ls))" "fst ` set (nodes ls) \<subseteq> fst ` set (nodes (nb_asks b))"
    using d(4) by (auto simp: AB)
  ultimately show ?thesis
    using naive_inv_shrink_asks [OF inv ls, of "nb_index b"] by (simp add: AB(2))
qed

lemma naive_AmendInPlace_refines:
  assumes inv: "naive_inv b" and idx: "map_of (nb_index b) oid = Some loc"
    and x: "naive_deref loc b = Some x" and q: "0 < q" "q \<le> o_remaining_quantity x"
  shows "\<exists>b'. naive_AmendInPlace loc x q b = Some b' \<and> naive_inv b' \<and>
    naive_abs b' = (naive_abs b)\<lparr>sb_bids := amend oid (amend_order q) (sb_bids (naive_abs b)),
      sb_asks := amend oid (amend_order q) (sb_asks (naive_abs b))\<rparr>"
proof (rule naive_locate [OF inv idx])
  fix n y l
  assume loc: "loc = node_locator (n, y)" and oid: "o_id y = oid"
    and l: "map_of (naive_side (o_side y) b) (o_price y) = Some l" and n: "map_of (lv_orders l) n = Some y"
    and "naive_deref loc b = Some y"
  with x have [simp]: "y = x" by simp
  note d = naive_invD [OF inv]
  note side = naive_inv_sides [OF inv, of "o_side x"]
  let ?x' = "amend_order q x" and ?d = "o_remaining_quantity x - q"
  have key: "node_key (n, ?x') = node_key (n, x)" by (simp add: node_key_def amend_order_def)
  have "(n, x) \<in> set (nodes (naive_side (o_side x) b))"
    using map_of_SomeD [OF l] map_of_SomeD [OF n] by (force simp: nodes_def)
  from levels_ok_nodes(1) [OF side(1) this] have ok': "order_ok (nb_symbol_id b) (o_side x = Buy) ?x'"
    using q by (intro order_ok_amend) simp_all
  have dl: "?d = o_remaining_quantity x - o_remaining_quantity ?x'" by (simp add: amend_order_def)
  from amend_level_facts [OF side(1) l [simplified] n [simplified] side(2) ok' _ dl]
  obtain A B where ls: "levels_ok (nb_symbol_id b) (o_side x = Buy)
      (amend_level (better (o_side x = Buy)) (o_price x) l n ?x' ?d (naive_side (o_side x) b))"
    and AB: "nodes (naive_side (o_side x) b) = A @ (n, x) # B"
      "nodes (amend_level (better (o_side x = Buy)) (o_price x) l n ?x' ?d (naive_side (o_side x) b)) = A @ (n, ?x') # B"
    by auto
  have dist: "distinct (node_ids (nodes (nb_bids b) @ nodes (nb_asks b)))"
    "distinct (node_ids (nodes (nb_asks b) @ nodes (nb_bids b)))"
    using d(8) by (auto simp: index_ok_def)
  show ?thesis
  proof (cases "o_side x = Buy")
    case True
    then have b: "naive_side (o_side x) b = nb_bids b" "(o_side x = Buy) = True" by (simp_all add: naive_side_def)
    note side_amend [where f = "amend_order q", OF AB [unfolded b better_std] dist(1)]
    with naive_inv_amend_bids [OF inv ls [unfolded b better_std] AB [unfolded b better_std] key] l oid True show ?thesis
      by (simp add: naive_AmendInPlace_def loc node_locator_def naive_abs_def b naive_side_def Let_def)
  next
    case False
    then have b: "naive_side (o_side x) b = nb_asks b" "(o_side x = Buy) = False" by (simp_all add: naive_side_def)
    note side_amend [where f = "amend_order q", OF AB [unfolded b better_std] dist(2)]
    with naive_inv_amend_asks [OF inv ls [unfolded b better_std] AB [unfolded b better_std] key] l oid False show ?thesis
      by (simp add: naive_AmendInPlace_def loc node_locator_def naive_abs_def b naive_side_def Let_def)
  qed
qed

lemma naive_ModifyOrder_refines:
  assumes inv: "naive_inv b"
  shows "\<exists>r b'. naive_ModifyOrder oid p q seq ts b = Some (r, b') \<and> naive_inv b' \<and>
    spec_modify oid p q seq ts (naive_abs b) = (r, naive_abs b')"
proof (cases "map_of (nb_index b) oid")
  case None
  then have "spec_find oid (naive_abs b) = None" using naive_index_None [OF inv] by blast
  with None inv show ?thesis by (simp add: naive_ModifyOrder_def spec_modify_def)
next
  case (Some loc)
  obtain x where x: "naive_deref loc b = Some x" "spec_find oid (naive_abs b) = Some x" "o_id x = oid"
    by (rule naive_locate [OF inv Some])
  consider "q = 0 \<or> p \<le> Price 0" | "0 < q" "\<not> p \<le> Price 0" "p = o_price x \<and> q \<le> o_remaining_quantity x"
    | "0 < q" "\<not> p \<le> Price 0" "\<not> (p = o_price x \<and> q \<le> o_remaining_quantity x)"
    by (auto simp: word_gt_0)
  then show ?thesis
  proof cases
    case 1
    with Some x inv show ?thesis by (auto simp: naive_ModifyOrder_def spec_modify_def)
  next
    case 2
    from naive_AmendInPlace_refines [OF inv Some x(1) 2(1)] 2 obtain b' where
      "naive_AmendInPlace loc x q b = Some b'" "naive_inv b'"
      "naive_abs b' = (naive_abs b)\<lparr>sb_bids := amend oid (amend_order q) (sb_bids (naive_abs b)),
        sb_asks := amend oid (amend_order q) (sb_asks (naive_abs b))\<rparr>" by blast
    with Some x 2 show ?thesis by (simp add: naive_ModifyOrder_def spec_modify_def word_gt_0)
  next
    case 3
    from naive_RemoveFromBook_refines [OF inv Some] obtain b1 where
      b1: "naive_RemoveFromBook loc oid b = Some b1" "naive_inv b1" "naive_abs b1 = spec_remove oid (naive_abs b)"
      by blast
    obtain add b2 where add: "naive_AddOrder (replace_args x p q seq ts) b1 = (add, b2)" by fastforce
    note ref = naive_AddOrder_refines [OF b1(2) add]
    have "naive_ModifyOrder oid p q seq ts b = Some (replace_result add, b2)"
      using Some x(1) b1(1) 3 add by (auto simp: naive_ModifyOrder_def replace_args_def x(3) word_gt_0)
    moreover have "spec_modify oid p q seq ts (naive_abs b) = (replace_result add, naive_abs b2)"
      using x(2) 3 ref(2) by (auto simp: spec_modify_def b1(3) word_gt_0)
    ultimately show ?thesis using ref(1) by blast
  qed
qed

section \<open>Sequences of operations\<close>

fun naive_step :: "book_op \<Rightarrow> order_book \<Rightarrow> (book_out \<times> order_book) option" where
  "naive_step (Add a) b = Some (case naive_AddOrder a b of (r, b') \<Rightarrow> (AddOut r, b'))"
| "naive_step (Cancel oid) b =
     map_option (\<lambda>(r, b'). (CancelOut r, b')) (naive_CancelOrder oid b)"
| "naive_step (Modify oid p q seq ts) b =
     map_option (\<lambda>(r, b'). (ModifyOut r, b')) (naive_ModifyOrder oid p q seq ts b)"

definition naive_rel :: "order_book \<Rightarrow> spec_book \<Rightarrow> bool" where
  "naive_rel b sb \<longleftrightarrow> naive_inv b \<and> naive_abs b = sb"

lemma naive_step_refines:
  assumes "naive_inv b"
  shows "\<exists>b'. naive_step op b = Some (fst (spec_step op (naive_abs b)), b') \<and>
    naive_inv b' \<and> naive_abs b' = snd (spec_step op (naive_abs b))"
proof (cases op)
  case (Add a)
  obtain r b' where "naive_AddOrder a b = (r, b')" by fastforce
  with naive_AddOrder_refines [OF assms this] show ?thesis by (simp add: Add)
next
  case (Cancel oid)
  with naive_CancelOrder_refines [OF assms, of oid] show ?thesis by auto
next
  case (Modify oid p q seq ts)
  with naive_ModifyOrder_refines [OF assms, of oid p q seq ts] show ?thesis by auto
qed

interpretation naive: book_refinement naive_step naive_rel "\<lambda>_ _. True"
  using naive_step_refines by unfold_locales (auto simp: naive_rel_def)

inductive naive_reachable :: "symbol_id \<Rightarrow> order_book \<Rightarrow> bool" for symb where
  init: "naive_reachable symb (naive_new symb)"
| step: "naive_reachable symb b \<Longrightarrow> naive_step op b = Some (out, b') \<Longrightarrow> naive_reachable symb b'"

lemma naive_reachable_inv: "naive_reachable symb b \<Longrightarrow> naive_inv b"
proof (induction rule: naive_reachable.induct)
  case init
  show ?case by (rule naive_inv_new)
next
  case (step b op out b')
  with naive_step_refines [of b op] show ?case by auto
qed

lemma naive_reachable_run:
  assumes "naive_reachable symb b" "run_steps naive_step ops b = Some (outs, b')"
  shows "naive_reachable symb b'"
  using assms
proof (induction ops arbitrary: b outs)
  case (Cons op ops)
  then show ?case
    by (auto split: option.splits prod.splits intro: naive_reachable.step)
qed simp

end
