(* ===== verification/Book_Properties.thy ===== *)
theory Book_Properties
  imports Naive_Book "HOL-Library.Multiset"
begin

text \<open>
  The properties of the order books that a user of \<open>AddOrder\<close>, \<open>CancelOrder\<close> and
  \<open>ModifyOrder\<close> relies on, stated on the definitions of the books. Their proofs go through
  the refinement of the contract of \<open>Book_Spec\<close>.
\<close>

section \<open>Example books\<close>

text \<open>A few concrete orders and a run that leaves two asks and a bid resting.\<close>

definition ex_args :: "order_id \<Rightarrow> side \<Rightarrow> price \<Rightarrow> quantity \<Rightarrow> order_args" where
  "ex_args oid s p q = \<lparr>a_id = oid, a_trader_id = 7, a_side = s, a_type = Limit, a_price = p,
     a_quantity = q, a_tif = GoodTillCancel, a_seq = oid, a_ts = 0\<rparr>"

definition ex_ops :: "book_op list" where
  "ex_ops = [Add (ex_args 1 Sell (Price 101) 5), Add (ex_args 2 Sell (Price 100) 4),
     Add (ex_args 3 Sell (Price 100) 6), Add (ex_args 4 Buy (Price 99) 3)]"

definition ex_book :: order_book where
  "ex_book = snd (the (run_steps naive_step ex_ops (naive_new 1)))"

lemma naive_run_total:
  "\<exists>b. run_steps naive_step ops (naive_new symb) = Some (fst (spec_run ops (spec_empty symb)), b) \<and>
     naive_inv b \<and> naive_abs b = snd (spec_run ops (spec_empty symb))"
proof -
  have "naive_abs (naive_new symb) = spec_empty symb"
    by (simp add: naive_abs_def naive_new_def spec_empty_def)
  then have "naive_rel (naive_new symb) (spec_empty symb)"
    by (simp add: naive_rel_def naive_inv_new)
  from naive.run_refines [OF this, of ops] show ?thesis by (auto simp: naive_rel_def)
qed

lemma ex_book_reachable: "naive_reachable 1 ex_book"
proof -
  from naive_run_total [of ex_ops 1] obtain outs b where
    "run_steps naive_step ex_ops (naive_new 1) = Some (outs, b)" by blast
  with naive_reachable_run [OF naive_reachable.init this] show ?thesis by (simp add: ex_book_def)
qed

section \<open>The naive book\<close>

text \<open>
  C2. Every sequence of operations on a fresh naive book is defined (no dangling iterator is
  ever followed), and its answers and its final book are those of the price-time-priority
  contract.
\<close>

theorem naive_refines_contract:
  "\<exists>b. run_steps naive_step ops (naive_new symb) = Some (fst (spec_run ops (spec_empty symb)), b) \<and>
     naive_abs b = snd (spec_run ops (spec_empty symb))"
  using naive_run_total by blast

text \<open>
  C3. In every reachable naive book the levels, the cached totals, the id index and the list
  nodes agree (\<open>naive_inv\<close>), and the book is not crossed: the best bid is below the best ask.
\<close>

theorem naive_reachable_consistent:
  assumes "naive_reachable symb b"
  shows "naive_inv b \<and>
    (naive_HasBestBid b \<and> naive_HasBestAsk b \<longrightarrow> naive_BestBid b < naive_BestAsk b)"
proof -
  have inv: "naive_inv b" by (rule naive_reachable_inv [OF assms])
  moreover have "naive_BestBid b < naive_BestAsk b" if "naive_HasBestBid b" "naive_HasBestAsk b"
    using naive_invD(9) [OF inv] that
    by (auto simp: naive_HasBestBid_def naive_HasBestAsk_def naive_BestBid_def naive_BestAsk_def
        first_price_def split: list.splits)
  ultimately show ?thesis by blast
qed

theorem naive_reachable_consistent_witness:
  "naive_inv ex_book \<and> naive_BestBid ex_book = Price 99 \<and> naive_BestAsk ex_book = Price 100 \<and>
   naive_BestBid ex_book < naive_BestAsk ex_book"
proof -
  have v: "naive_HasBestBid ex_book" "naive_HasBestAsk ex_book"
    "naive_BestBid ex_book = Price 99" "naive_BestAsk ex_book = Price 100" by code_simp+
  with naive_reachable_consistent [OF ex_book_reachable] show ?thesis by simp
qed

lemma ex_book_inv: "naive_inv ex_book"
  by (rule naive_reachable_inv [OF ex_book_reachable])

text \<open>An accepted \<open>AddOrder\<close> of the naive book, in terms of the two sides of the book.\<close>

lemma naive_opposite_queue:
  "queue (s \<noteq> Buy) (naive_abs b) = flat (naive_side (opposite s) b)"
  by (simp add: naive_side_def opposite_def)

lemma naive_add_accepted:
  assumes "naive_inv b" "naive_AddOrder a b = (res, b')" "ar_accepted res"
  obtains rem where
    "spec_reject a (naive_abs b) = None"
    "fill (nb_symbol_id b) a (a_quantity a) (flat (naive_side (opposite (a_side a)) b)) =
       (rem, ar_trades res, flat (naive_side (opposite (a_side a)) b'))"
    "ar_filled_quantity res = a_quantity a - rem" "rem \<le> a_quantity a"
    "ar_remaining_quantity res = (if can_rest a rem then rem else 0)"
    "naive_inv b'" "nb_symbol_id b' = nb_symbol_id b"
    "flat (naive_side (a_side a) b') =
       (if can_rest a rem then
          place (a_side a = Buy) (resting_order (nb_symbol_id b) a rem) (flat (naive_side (a_side a) b))
        else flat (naive_side (a_side a) b))"
proof -
  note r = naive_AddOrder_refines [OF assms(1,2)]
  from spec_add_accepted [OF r(2) assms(3)] obtain rem where e:
    "spec_reject a (naive_abs b) = None"
    "fill (sb_symbol_id (naive_abs b)) a (a_quantity a) (queue (a_side a \<noteq> Buy) (naive_abs b)) =
       (rem, ar_trades res, queue (a_side a \<noteq> Buy) (naive_abs b'))"
    "ar_filled_quantity res = a_quantity a - rem"
    "ar_remaining_quantity res = (if can_rest a rem then rem else 0)"
    "sb_symbol_id (naive_abs b') = sb_symbol_id (naive_abs b)"
    "queue (a_side a = Buy) (naive_abs b') =
       (if can_rest a rem then
          place (a_side a = Buy) (resting_order (sb_symbol_id (naive_abs b)) a rem)
            (queue (a_side a = Buy) (naive_abs b))
        else queue (a_side a = Buy) (naive_abs b))" by metis
  show thesis
    by (rule that [of rem]) (use e r(1) fill_filled(2) [OF e(2)] in \<open>simp_all add: naive_opposite_queue\<close>)
qed

lemma minus_less_iff_nonzero:
  fixes r q :: u64
  assumes "r \<le> q"
  shows "q - r < q \<longleftrightarrow> r \<noteq> 0"
proof -
  have "r \<noteq> 0 \<longleftrightarrow> 0 < unat r" by (simp add: unat_gt_0)
  with assms show ?thesis by (auto simp: word_less_nat_alt unat_sub word_le_nat_alt)
qed

text \<open>
  C4. Quantity is conserved by an accepted order: its trades add up to its filled quantity, the
  opposite side loses exactly that, its own side gains exactly the remainder that rests, and a
  good-till-cancel limit order is split into the two without loss. The totals are natural
  numbers: nothing wraps around.
\<close>

theorem add_conserves_quantity:
  assumes "naive_inv b" "naive_AddOrder a b = (res, b')" "ar_accepted res"
  shows "sum_list (map unat (map t_quantity (ar_trades res))) = unat (ar_filled_quantity res) \<and>
    ar_filled_quantity res \<le> a_quantity a \<and>
    queue_depth (flat (naive_side (opposite (a_side a)) b)) =
      queue_depth (flat (naive_side (opposite (a_side a)) b')) + unat (ar_filled_quantity res) \<and>
    queue_depth (flat (naive_side (a_side a) b')) =
      queue_depth (flat (naive_side (a_side a) b)) + unat (ar_remaining_quantity res) \<and>
    (a_type a = Limit \<and> a_tif a = GoodTillCancel \<longrightarrow>
      unat (ar_filled_quantity res) + unat (ar_remaining_quantity res) = unat (a_quantity a))"
proof (rule naive_add_accepted [OF assms])
  fix rem
  assume f: "fill (nb_symbol_id b) a (a_quantity a) (flat (naive_side (opposite (a_side a)) b)) =
       (rem, ar_trades res, flat (naive_side (opposite (a_side a)) b'))"
    and e: "ar_filled_quantity res = a_quantity a - rem" "rem \<le> a_quantity a"
    "ar_remaining_quantity res = (if can_rest a rem then rem else 0)"
    "flat (naive_side (a_side a) b') =
       (if can_rest a rem then
          place (a_side a = Buy) (resting_order (nb_symbol_id b) a rem) (flat (naive_side (a_side a) b))
        else flat (naive_side (a_side a) b))"
  have u: "unat (a_quantity a - rem) = unat (a_quantity a) - unat rem" "unat rem \<le> unat (a_quantity a)"
    using e(2) by (simp_all add: unat_sub word_le_nat_alt)
  moreover have "a_quantity a - rem \<le> a_quantity a" using e(2) by (rule word_sub_le)
  moreover have "a_type a = Limit \<and> a_tif a = GoodTillCancel \<longrightarrow> can_rest a rem \<or> rem = 0"
    by (auto simp: can_rest_def word_gt_0)
  moreover have "queue_depth (flat (naive_side (a_side a) b')) =
      queue_depth (flat (naive_side (a_side a) b)) + unat (ar_remaining_quantity res)"
    by (simp add: e queue_depth_place resting_order_def)
  ultimately show ?thesis
    using fill_conserves [OF f] fill_depth [OF f] e(3) unfolding e(1) by auto
qed

theorem add_conserves_quantity_witness:
  "case naive_AddOrder (ex_args 9 Buy (Price 100) 7) ex_book of (res, b') \<Rightarrow>
     ar_accepted res \<and> sum_list (map unat (map t_quantity (ar_trades res))) = 7 \<and>
     queue_depth (flat (nb_asks ex_book)) = queue_depth (flat (nb_asks b')) + 7"
proof -
  let ?r = "naive_AddOrder (ex_args 9 Buy (Price 100) 7) ex_book"
  have v: "ar_accepted (fst ?r)" "ar_filled_quantity (fst ?r) = 7" by code_simp+
  with add_conserves_quantity [OF ex_book_inv prod.collapse [symmetric] v(1)] show ?thesis
    by (simp add: case_prod_beta ex_args_def naive_side_def opposite_def)
qed

text \<open>
  C5. Price-time priority. The opposite side is sorted by price, best first, and an accepted
  order executes a prefix of it in that order: the first \<open>k\<close> resting orders trade whole, each at
  its own price and only if that price crosses the limit; the next one may trade in part, which
  then exhausts the aggressor. If quantity is left, no order that crosses is left.
\<close>

theorem add_price_time_priority:
  assumes "naive_inv b" "naive_AddOrder a b = (res, b')" "ar_accepted res"
    "os = flat (naive_side (opposite (a_side a)) b)" "os' = flat (naive_side (opposite (a_side a)) b')"
  shows "prioritised (a_side a \<noteq> Buy) os \<and>
    (\<exists>k. execution (nb_symbol_id b) a (a_quantity a) os k
       (a_quantity a - ar_filled_quantity res) (ar_trades res) os') \<and>
    (ar_filled_quantity res < a_quantity a \<longrightarrow> (\<forall>r \<in> set os'. \<not> crosses a (o_price r)))"
proof (rule naive_add_accepted [OF assms(1-3)])
  fix rem
  assume f: "fill (nb_symbol_id b) a (a_quantity a) (flat (naive_side (opposite (a_side a)) b)) =
       (rem, ar_trades res, flat (naive_side (opposite (a_side a)) b'))"
    and e: "ar_filled_quantity res = a_quantity a - rem"
  have rem: "a_quantity a - ar_filled_quantity res = rem" by (simp add: e)
  have "spec_inv (naive_abs b)" by (rule naive_inv_spec [OF assms(1)])
  then have pr: "prioritised (a_side a \<noteq> Buy) os"
    unfolding assms(4) naive_opposite_queue [symmetric] spec_inv_def by blast
  moreover have "\<exists>k. execution (nb_symbol_id b) a (a_quantity a) os k
       (a_quantity a - ar_filled_quantity res) (ar_trades res) os'"
    using fill_execution [OF f] unfolding rem assms(4,5) .
  moreover have "\<forall>r \<in> set os'. \<not> crosses a (o_price r)" if "ar_filled_quantity res < a_quantity a"
    unfolding assms(5)
  proof (rule fill_exhausts [OF f])
    show "prioritised (a_side a \<noteq> Buy) (flat (naive_side (opposite (a_side a)) b))"
      using pr assms(4) by simp
    show "rem \<noteq> 0" using that e by auto
  qed
  ultimately show ?thesis by blast
qed

theorem add_price_time_priority_witness:
  "case naive_AddOrder (ex_args 9 Buy (Price 100) 7) ex_book of (res, b') \<Rightarrow>
     map t_resting_order_id (ar_trades res) = [2, 3] \<and> map t_quantity (ar_trades res) = [4, 3] \<and>
     (\<exists>k. execution 1 (ex_args 9 Buy (Price 100) 7) 7 (flat (nb_asks ex_book)) k 0 (ar_trades res)
        (flat (nb_asks b')))"
proof -
  let ?r = "naive_AddOrder (ex_args 9 Buy (Price 100) 7) ex_book"
  have v: "ar_accepted (fst ?r)" "ar_filled_quantity (fst ?r) = 7" "nb_symbol_id ex_book = 1"
    "map t_resting_order_id (ar_trades (fst ?r)) = [2, 3]" "map t_quantity (ar_trades (fst ?r)) = [4, 3]"
    by code_simp+
  with add_price_time_priority [OF ex_book_inv prod.collapse [symmetric] v(1) refl refl] show ?thesis
    by (simp add: case_prod_beta ex_args_def naive_side_def opposite_def)
qed

text \<open>
  C6. What comes to rest. The own side of an accepted order changes only when it is a
  good-till-cancel limit order that is not filled; then exactly its remainder is inserted,
  behind every order at an equal or better price and before every order at a worse one, and the
  book finds it under its id. Market, immediate-or-cancel and fill-or-kill orders never rest.
\<close>

theorem add_rests_behind:
  assumes "naive_inv b" "naive_AddOrder a b = (res, b')" "ar_accepted res"
    "x = resting_order (nb_symbol_id b) a (a_quantity a - ar_filled_quantity res)"
  shows "if a_type a = Limit \<and> a_tif a = GoodTillCancel \<and> ar_filled_quantity res < a_quantity a
    then (\<exists>better_orders worse_orders.
           flat (naive_side (a_side a) b) = better_orders @ worse_orders \<and>
           flat (naive_side (a_side a) b') = better_orders @ x # worse_orders \<and>
           (\<forall>r \<in> set better_orders. \<not> better (a_side a = Buy) (a_price a) (o_price r)) \<and>
           (\<forall>r \<in> set worse_orders. better (a_side a = Buy) (a_price a) (o_price r))) \<and>
         naive_FindOrder (a_id a) b' = Some (Some x)
    else flat (naive_side (a_side a) b') = flat (naive_side (a_side a) b) \<and>
         naive_FindOrder (a_id a) b' = Some None \<and> ar_remaining_quantity res = 0"
proof (rule naive_add_accepted [OF assms(1-3)])
  fix rem
  assume none: "spec_reject a (naive_abs b) = None"
    and f: "fill (nb_symbol_id b) a (a_quantity a) (flat (naive_side (opposite (a_side a)) b)) =
       (rem, ar_trades res, flat (naive_side (opposite (a_side a)) b'))"
    and e: "ar_filled_quantity res = a_quantity a - rem" "rem \<le> a_quantity a"
    "ar_remaining_quantity res = (if can_rest a rem then rem else 0)"
    and own: "flat (naive_side (a_side a) b') =
       (if can_rest a rem then
          place (a_side a = Buy) (resting_order (nb_symbol_id b) a rem) (flat (naive_side (a_side a) b))
        else flat (naive_side (a_side a) b))" and inv': "naive_inv b'"
  have x: "x = resting_order (nb_symbol_id b) a rem" by (simp add: assms(4) e(1))
  have rests: "can_rest a rem \<longleftrightarrow> a_type a = Limit \<and> a_tif a = GoodTillCancel \<and>
      ar_filled_quantity res < a_quantity a"
    using e(2) by (simp add: can_rest_def e(1) word_gt_0 minus_less_iff_nonzero)
  have "spec_inv (naive_abs b)" "spec_inv (naive_abs b')"
    using assms(1) inv' by (simp_all add: naive_inv_spec)
  then have pr: "prioritised (a_side a = Buy) (flat (naive_side (a_side a) b))"
    and d: "distinct (map o_id (all_orders (naive_abs b')))"
    unfolding naive_abs_simps(5) [symmetric] spec_inv_def by blast+
  show ?thesis
  proof (cases "can_rest a rem")
    case True
    have "x \<in> set (flat (naive_side (a_side a) b'))" using own True x by simp
    then have mem: "x \<in> set (all_orders (naive_abs b'))"
      by (auto simp: naive_side_def all_orders_def naive_abs_def simp del: naive_abs_simps(4) split: if_splits)
    have "spec_find (o_id x) (naive_abs b') = Some x"
      unfolding spec_find_def by (rule find_distinct [OF d mem])
    then have "naive_FindOrder (a_id a) b' = Some (Some x)"
      using naive_FindOrder_refines [OF inv', of "a_id a"] x by (simp add: resting_order_def)
    moreover obtain xs ys where "flat (naive_side (a_side a) b) = xs @ ys"
      "place (a_side a = Buy) x (flat (naive_side (a_side a) b)) = xs @ x # ys"
      "\<forall>r \<in> set xs. \<not> better (a_side a = Buy) (o_price x) (o_price r)"
      "\<forall>r \<in> set ys. better (a_side a = Buy) (o_price x) (o_price r)"
      using pr place_split by metis
    ultimately show ?thesis
      using True own rests by (auto simp: x resting_order_def)
  next
    case False
    have "a_id a \<notin> o_id ` set (all_orders (naive_abs b))"
      using none by (auto simp: spec_reject_def split: if_splits)
    moreover have "o_id ` set (all_orders (naive_abs b')) \<subseteq> o_id ` set (all_orders (naive_abs b))"
      using own False fill_subset(1) [OF f]
      by (auto simp: all_orders_def naive_abs_def naive_side_def opposite_def simp del: naive_abs_simps(4) split: if_splits)
    ultimately have "spec_find (a_id a) (naive_abs b') = None"
      unfolding spec_find_def find_None_iff_notin by blast
    then show ?thesis
      using False own rests e(3) naive_FindOrder_refines [OF inv', of "a_id a"] by auto
  qed
qed

theorem add_rests_behind_witness:
  "case naive_AddOrder (ex_args 9 Buy (Price 100) 12) ex_book of (res, b') \<Rightarrow>
     ar_filled_quantity res = 10 \<and>
     naive_FindOrder 9 b' = Some (Some (resting_order 1 (ex_args 9 Buy (Price 100) 12) 2))"
proof -
  let ?r = "naive_AddOrder (ex_args 9 Buy (Price 100) 12) ex_book"
  have v: "ar_accepted (fst ?r)" "ar_filled_quantity (fst ?r) = 10" "nb_symbol_id ex_book = 1" by code_simp+
  with add_rests_behind [OF ex_book_inv prod.collapse [symmetric] v(1) refl] show ?thesis
    by (simp add: case_prod_beta ex_args_def)
qed

text \<open>
  C7. Fill-or-kill. An accepted fill-or-kill order is filled completely; and, as long as the
  crossing liquidity is below \<open>2 ^ 64\<close>, an order that passes the other checks is accepted exactly
  when that liquidity covers it.
\<close>

theorem fill_or_kill_all_or_nothing:
  assumes "naive_inv b" "naive_AddOrder a b = (res, b')" "a_tif a = FillOrKill"
    "opp = flat (naive_side (opposite (a_side a)) b)"
  shows "(ar_accepted res \<longrightarrow> ar_filled_quantity res = a_quantity a \<and> ar_final_status res = Filled \<and>
      queue_depth opp = queue_depth (flat (naive_side (opposite (a_side a)) b')) + unat (a_quantity a)) \<and>
    (queue_depth (crossing a opp) < 2 ^ 64 \<longrightarrow>
      (ar_accepted res \<or> ar_reject_reason res = FillOrKillNotFilled \<longrightarrow>
        ar_accepted res \<longleftrightarrow> unat (a_quantity a) \<le> queue_depth (crossing a opp)))"
proof (intro conjI impI)
  note r = naive_AddOrder_refines [OF assms(1,2)]
  {
    assume acc: "ar_accepted res"
    show full: "ar_filled_quantity res = a_quantity a" and "ar_final_status res = Filled"
      using spec_add_fok [OF r(2) acc assms(3)] by simp_all
    obtain rem where f: "fill (nb_symbol_id b) a (a_quantity a) (flat (naive_side (opposite (a_side a)) b)) =
        (rem, ar_trades res, flat (naive_side (opposite (a_side a)) b'))"
      and "ar_filled_quantity res = a_quantity a - rem"
      using naive_add_accepted [OF assms(1,2) acc] by blast
    with full have "rem = 0" by simp
    with fill_depth [OF f] assms(4)
    show "queue_depth opp = queue_depth (flat (naive_side (opposite (a_side a)) b')) + unat (a_quantity a)"
      by simp
  next
    assume small: "queue_depth (crossing a opp) < 2 ^ 64"
      and other: "ar_accepted res \<or> ar_reject_reason res = FillOrKillNotFilled"
    have av: "unat (available a (queue (a_side a \<noteq> Buy) (naive_abs b))) = queue_depth (crossing a opp)"
      using available_depth [OF small] by (simp only: naive_opposite_queue assms(4))
    have le: "unat (a_quantity a) \<le> queue_depth (crossing a opp) \<longleftrightarrow>
        a_quantity a \<le> available a (queue (a_side a \<noteq> Buy) (naive_abs b))"
      by (simp only: av word_le_nat_alt)
    show "ar_accepted res \<longleftrightarrow> unat (a_quantity a) \<le> queue_depth (crossing a opp)"
    proof (cases "ar_accepted res")
      case True
      then have "spec_reject a (naive_abs b) = None" using spec_add_accepted_iff [OF r(2)] by blast
      with True assms(3) le show ?thesis by (auto simp: spec_reject_def not_less split: if_splits)
    next
      case False
      then obtain rr where "spec_reject a (naive_abs b) = Some rr" "res = add_reject rr"
        using spec_add_rejected [OF r(2)] by blast
      with False other have "spec_reject a (naive_abs b) = Some FillOrKillNotFilled"
        by (simp add: AddResult_init_def)
      with False le show ?thesis by (auto simp: spec_reject_def not_le split: if_splits)
    qed
  }
qed

theorem fill_or_kill_all_or_nothing_witness:
  "let a = (ex_args 9 Buy (Price 100) 10)\<lparr>a_tif := FillOrKill\<rparr>;
       k = (ex_args 9 Buy (Price 100) 11)\<lparr>a_tif := FillOrKill\<rparr>
   in ar_filled_quantity (fst (naive_AddOrder a ex_book)) = 10 \<and>
      \<not> 11 \<le> queue_depth (crossing k (flat (nb_asks ex_book)))"
proof -
  let ?a = "(ex_args 9 Buy (Price 100) 10)\<lparr>a_tif := FillOrKill\<rparr>"
  let ?k = "(ex_args 9 Buy (Price 100) 11)\<lparr>a_tif := FillOrKill\<rparr>"
  have v: "ar_accepted (fst (naive_AddOrder ?a ex_book))" "\<not> ar_accepted (fst (naive_AddOrder ?k ex_book))"
    "ar_reject_reason (fst (naive_AddOrder ?k ex_book)) = FillOrKillNotFilled"
    "queue_depth (crossing ?k (flat (nb_asks ex_book))) = 10" by code_simp+
  have "ar_filled_quantity (fst (naive_AddOrder ?a ex_book)) = 10"
    using fill_or_kill_all_or_nothing [OF ex_book_inv prod.collapse [symmetric] _ refl, of ?a] v(1)
    by (simp add: ex_args_def)
  moreover have "\<not> 11 \<le> queue_depth (crossing ?k (flat (nb_asks ex_book)))"
    using fill_or_kill_all_or_nothing [OF ex_book_inv prod.collapse [symmetric] _ refl, of ?k] v(2-4)
    by (simp add: ex_args_def naive_side_def opposite_def)
  ultimately show ?thesis unfolding Let_def by blast
qed


fun refused :: "book_out \<Rightarrow> bool" where
  "refused (AddOut r) \<longleftrightarrow> \<not> ar_accepted r"
| "refused (CancelOut r) \<longleftrightarrow> \<not> cr_success r"
| "refused (ModifyOut r) \<longleftrightarrow> \<not> mr_success r"

lemma naive_modify_found:
  assumes inv: "naive_inv b" and find: "spec_find oid (naive_abs b) = Some x" and "q \<noteq> 0" "Price 0 < p"
  obtains res b' where "naive_ModifyOrder oid p q seq ts b = Some (res, b')" "naive_inv b'"
    "spec_modify oid p q seq ts (naive_abs b) = (res, naive_abs b')" "mr_success res"
proof -
  from naive_ModifyOrder_refines [OF inv] obtain res b' where m:
    "naive_ModifyOrder oid p q seq ts b = Some (res, b')" "naive_inv b'"
    "spec_modify oid p q seq ts (naive_abs b) = (res, naive_abs b')" by blast
  have "spec_reject (replace_args x p q seq ts) (spec_remove oid (naive_abs b)) = None"
    by (rule spec_replace_accepted [OF naive_inv_spec [OF inv] find assms(3,4)])
  with m(3) find assms(3,4) have "mr_success res"
    using spec_add_accepted_iff [of "replace_args x p q seq ts" "spec_remove oid (naive_abs b)"]
    by (auto simp: spec_modify_def not_le result_defs split: if_splits prod.splits)
  with m show thesis by (rule that)
qed

text \<open>
  C8. An operation that is refused leaves the whole book exactly as it was: no level, no index
  entry and no node changes. For \<open>ModifyOrder\<close> this means in particular that its remove-and-add
  path can never lose the order.
\<close>

theorem refused_changes_nothing:
  assumes inv: "naive_inv b" and step: "naive_step op b = Some (out, b')" and "refused out"
  shows "b' = b"
proof (cases op)
  case (Add a)
  with step assms(3) obtain r where add: "naive_AddOrder a b = (r, b')" "\<not> ar_accepted r"
    by (auto split: prod.splits)
  then show ?thesis
    using spec_add_accepted_iff [OF naive_AddOrder_refines(2) [OF inv add(1)]]
    by (auto simp: naive_reject_refines [OF inv] split: option.splits)
next
  case (Cancel oid)
  with step assms(3) show ?thesis
    by (auto simp: naive_CancelOrder_def CancelResult_init_def split: option.splits bind_splits)
next
  case (Modify oid p q seq ts)
  with step assms(3) obtain r where m: "naive_ModifyOrder oid p q seq ts b = Some (r, b')" "\<not> mr_success r"
    by auto
  show ?thesis
  proof (cases "map_of (nb_index b) oid = None \<or> q = 0 \<or> p \<le> Price 0")
    case True
    with m(1) show ?thesis by (auto simp: naive_ModifyOrder_def split: option.splits if_splits)
  next
    case False
    then obtain x where x: "spec_find oid (naive_abs b) = Some x" using naive_index_None [OF inv] by blast
    from False have "q \<noteq> 0" "Price 0 < p" by (simp_all add: not_le)
    from naive_modify_found [OF inv x this, of seq ts] m show ?thesis by auto
  qed
qed

theorem refused_changes_nothing_witness:
  "refused (fst (the (naive_step (Modify 2 (Price 0) 4 9 9) ex_book))) \<and>
   snd (the (naive_step (Modify 2 (Price 0) 4 9 9) ex_book)) = ex_book"
proof -
  let ?s = "naive_step (Modify 2 (Price 0) 4 9 9) ex_book"
  have v: "?s \<noteq> None" "refused (fst (the ?s))" by code_simp+
  then have "?s = Some (fst (the ?s), snd (the ?s))" by simp
  from refused_changes_nothing [OF ex_book_inv this v(2)] v(2) show ?thesis by blast
qed

text \<open>
  C9. \<open>CancelOrder\<close> never follows a dangling iterator. An unknown id is refused; a known order
  is removed, the answer names its owner, and every other resting order stays in its place.
\<close>

theorem cancel_removes_exactly:
  assumes "naive_inv b"
  shows "\<exists>res b'. naive_CancelOrder oid b = Some (res, b') \<and> naive_inv b' \<and>
    (if naive_HasOrder oid b
     then cr_success res \<and> \<not> naive_HasOrder oid b' \<and>
       (\<exists>before x after. naive_AllRestingOrders b = before @ x # after \<and> o_id x = oid \<and>
          naive_AllRestingOrders b' = before @ after \<and> cr_trader_id res = o_trader_id x \<and>
          cr_symbol_id res = nb_symbol_id b)
     else res = cancel_reject UnknownOrder \<and> b' = b)"
proof (cases "naive_HasOrder oid b")
  case False
  then show ?thesis using assms
    by (intro exI [of _ "cancel_reject UnknownOrder"] exI [of _ b])
      (auto simp: naive_HasOrder_def naive_CancelOrder_def)
next
  case True
  from naive_CancelOrder_refines [OF assms, of oid] obtain res b' where c:
    "naive_CancelOrder oid b = Some (res, b')" "naive_inv b'"
    "spec_cancel oid (naive_abs b) = (res, naive_abs b')" by blast
  have inv: "spec_inv (naive_abs b)" by (rule naive_inv_spec [OF assms])
  from True obtain x where x: "spec_find oid (naive_abs b) = Some x"
    using naive_index_None [OF assms, of oid] by (auto simp: naive_HasOrder_def)
  note mem = spec_find_mem [OF x]
  then obtain before after where split: "all_orders (naive_abs b) = before @ x # after"
    by (meson split_list)
  have "distinct (map o_id (before @ x # after))"
    using inv unfolding split [symmetric] spec_inv_def by blast
  from withdraw_split [OF this] mem have w: "withdraw oid (all_orders (naive_abs b)) = before @ after"
    unfolding split by simp
  have res: "res = CancelResult_init\<lparr>cr_success := True, cr_symbol_id := o_symbol_id x,
      cr_trader_id := o_trader_id x\<rparr>" "naive_abs b' = spec_remove oid (naive_abs b)"
    using c(3) by (simp_all add: spec_cancel_def x)
  then have all': "all_orders (naive_abs b') = before @ after"
    unfolding w [symmetric] res(2) by (simp add: all_orders_def spec_remove_def withdraw_def)
  moreover have "oid \<notin> o_id ` set (all_orders (naive_abs b'))"
    unfolding all' w [symmetric] by auto
  moreover have "o_symbol_id x = nb_symbol_id b"
    using mem inv by (auto simp: spec_inv_def order_ok_def all_orders_def all_bool_eq naive_abs_def simp del: naive_abs_simps(4))
  ultimately show ?thesis
    using c(1,2) True split mem
    by (intro exI [of _ res] exI [of _ b'])
      (auto simp: naive_HasOrder_refines naive_observers(8) assms res(1) simp del: naive_abs_simps(4))
qed

theorem cancel_removes_exactly_witness:
  "\<exists>b'. naive_CancelOrder 3 ex_book = Some (CancelResult_init\<lparr>cr_success := True, cr_symbol_id := 1,
      cr_trader_id := 7\<rparr>, b') \<and> \<not> naive_HasOrder 3 b'"
proof -
  have v: "naive_HasOrder 3 ex_book" "map_option fst (naive_CancelOrder 3 ex_book) =
      Some (CancelResult_init\<lparr>cr_success := True, cr_symbol_id := 1, cr_trader_id := 7\<rparr>)" by code_simp+
  with cancel_removes_exactly [OF ex_book_inv, of 3] show ?thesis by auto
qed

lemma naive_modify_replace:
  assumes inv: "naive_inv b" and find: "naive_FindOrder oid b = Some (Some x)" and pq: "q \<noteq> 0" "Price 0 < p"
    and new: "\<not> (p = o_price x \<and> q \<le> o_remaining_quantity x)"
  obtains c b1 add b2 where "naive_CancelOrder oid b = Some (c, b1)"
    "naive_AddOrder (replace_args x p q seq ts) b1 = (add, b2)"
    "naive_ModifyOrder oid p q seq ts b = Some (replace_result add, b2)"
proof -
  from find obtain loc where loc: "map_of (nb_index b) oid = Some loc" "naive_deref loc b = Some x"
    by (auto simp: naive_FindOrder_def split: option.splits)
  from naive_RemoveFromBook_refines [OF inv loc(1)] obtain b1 where
    b1: "naive_RemoveFromBook loc oid b = Some b1" by blast
  obtain add b2 where add: "naive_AddOrder (replace_args x p q seq ts) b1 = (add, b2)" by fastforce
  have "o_id x = oid"
    using find naive_FindOrder_refines [OF inv, of oid] spec_find_mem by auto
  with loc b1 add pq new show thesis
    by (intro that [of _ b1 add b2]) (auto simp: naive_CancelOrder_def naive_ModifyOrder_def replace_args_def not_le)
qed

text \<open>
  C10. \<open>ModifyOrder\<close> of a known order to a positive price and quantity always succeeds. At the
  same price and no larger a quantity it only changes that order, in its place. Otherwise it is
  exactly \<open>CancelOrder\<close> followed by \<open>AddOrder\<close> with the order's own id, owner and side, and the
  order loses its priority.
\<close>

theorem modify_known_order:
  assumes "naive_inv b" "naive_FindOrder oid b = Some (Some x)" "q \<noteq> 0" "Price 0 < p"
  shows "\<exists>res b'. naive_ModifyOrder oid p q seq ts b = Some (res, b') \<and> mr_success res \<and>
    (if p = o_price x \<and> q \<le> o_remaining_quantity x
     then \<not> mr_lost_priority res \<and> mr_trades res = [] \<and>
       naive_AllRestingOrders b' =
         map (\<lambda>r. if o_id r = oid then amend_order q r else r) (naive_AllRestingOrders b)
     else mr_lost_priority res \<and>
       (\<exists>c b1 add. naive_CancelOrder oid b = Some (c, b1) \<and>
          naive_AddOrder \<lparr>a_id = oid, a_trader_id = o_trader_id x, a_side = o_side x, a_type = Limit,
            a_price = p, a_quantity = q, a_tif = GoodTillCancel, a_seq = seq, a_ts = ts\<rparr> b1 = (add, b') \<and>
          mr_trades res = ar_trades add \<and> mr_filled_quantity res = ar_filled_quantity add \<and>
          mr_remaining_quantity res = ar_remaining_quantity add))"
proof -
  have x: "spec_find oid (naive_abs b) = Some x"
    using assms(2) naive_FindOrder_refines [OF assms(1)] by simp
  from naive_modify_found [OF assms(1) x assms(3,4), of seq ts] obtain res b' where
    m: "naive_ModifyOrder oid p q seq ts b = Some (res, b')" "naive_inv b'"
      "spec_modify oid p q seq ts (naive_abs b) = (res, naive_abs b')" "mr_success res" .
  show ?thesis
  proof (cases "p = o_price x \<and> q \<le> o_remaining_quantity x")
    case True
    have "\<not> p \<le> Price 0" using assms(4) by simp
    with True m(3) x assms(3) have a: "res = amend_result q"
      "naive_abs b' = (naive_abs b)\<lparr>sb_bids := amend oid (amend_order q) (sb_bids (naive_abs b)),
         sb_asks := amend oid (amend_order q) (sb_asks (naive_abs b))\<rparr>"
      unfolding spec_modify_def by simp_all
    from a(2) have "naive_AllRestingOrders b' =
        map (\<lambda>r. if o_id r = oid then amend_order q r else r) (naive_AllRestingOrders b)"
      by (simp add: naive_AllRestingOrders_def naive_abs_def amend_def)
    with True m(1,4) a(1) show ?thesis by (auto simp: result_defs)
  next
    case False
    have "x \<in> set (all_orders (naive_abs b))" "o_id x = oid" using spec_find_mem [OF x] by auto
    moreover have "spec_inv (naive_abs b)" by (rule naive_inv_spec [OF assms(1)])
    ultimately have k: "o_type x = Limit" "o_time_in_force x = GoodTillCancel" "o_id x = oid"
      by (auto simp: spec_inv_def order_ok_def all_orders_def all_bool_eq naive_abs_def simp del: naive_abs_simps(4))
    from naive_modify_replace [OF assms False, of seq ts] obtain c b1 add b2 where
      r: "naive_CancelOrder oid b = Some (c, b1)"
        "naive_AddOrder (replace_args x p q seq ts) b1 = (add, b2)"
        "naive_ModifyOrder oid p q seq ts b = Some (replace_result add, b2)" .
    with m(1) have "res = replace_result add" "b' = b2" by simp_all
    with False m(1,4) r k show ?thesis by (simp add: replace_args_def replace_result_def)
  qed
qed

theorem modify_known_order_witness:
  "naive_FindOrder 2 ex_book \<noteq> Some None \<and>
   (\<exists>res b'. naive_ModifyOrder 2 (Price 100) 1 9 9 ex_book = Some (res, b') \<and> mr_success res \<and>
      naive_AllRestingOrders b' =
        map (\<lambda>r. if o_id r = 2 then amend_order 1 r else r) (naive_AllRestingOrders ex_book))"
proof -
  let ?x = "resting_order 1 (ex_args 2 Sell (Price 100) 4) 4"
  have v: "naive_FindOrder 2 ex_book = Some (Some ?x)" "o_price ?x = Price 100"
    "1 \<le> o_remaining_quantity ?x" "Price 0 < Price 100" by code_simp+
  from modify_known_order [OF ex_book_inv v(1) _ v(4), of 1 9 9] v show ?thesis by auto
qed

section \<open>Observers\<close>

lemma filter_side_all:
  assumes "naive_inv b"
  shows "filter (\<lambda>r. (o_side r = Buy) = (s = Buy)) (naive_AllRestingOrders b) = flat (naive_side s b)"
proof -
  have "\<forall>r \<in> set (flat (nb_bids b)). o_side r = Buy" "\<forall>r \<in> set (flat (nb_asks b)). o_side r \<noteq> Buy"
    using levels_ok_flat [OF naive_invD(1) [OF assms]] levels_ok_flat [OF naive_invD(2) [OF assms]]
    by (auto simp: order_ok_def)
  then show ?thesis by (simp add: naive_AllRestingOrders_def naive_side_def filter_empty_conv)
qed

lemma prioritised_best:
  assumes "prioritised buy (r # os)" "x \<in> set (r # os)"
  shows "\<not> better buy (o_price x) (o_price r)"
  using assms by (auto simp: prioritised_def better_def split: if_splits)



lemma collect_levels_eq:
  "depth = 0 \<or> length out < depth \<Longrightarrow>
   collect_levels depth out ls =
     (if depth = 0 then id else take depth) (out @ map (\<lambda>(p, l). (p, lv_total_quantity l)) ls)"
proof (induction depth out ls rule: collect_levels.induct)
  case (2 depth out p level ls)
  show ?case
  proof (cases "depth \<noteq> 0 \<and> length (out @ [(p, lv_total_quantity level)]) \<ge> depth")
    case True
    with "2.prems" have "depth = Suc (length out)" by simp
    then show ?thesis by simp
  next
    case False
    then have "depth = 0 \<or> length (out @ [(p, lv_total_quantity level)]) < depth" by auto
    with False 2 show ?thesis by (auto simp: Let_def)
  qed
qed auto

lemma levels_quantities:
  assumes "levels_ok symb buy ls"
  shows "map (\<lambda>(p, l). (p, lv_total_quantity l)) ls = map (\<lambda>p. (p, level_quantity p ls)) (map fst ls)"
proof -
  have "distinct (map fst ls)"
    using assms side_order.sorted_distinct by (auto simp: levels_ok_def)
  then show ?thesis by (auto simp: level_quantity_def)
qed

text \<open>
  \<open>BidLevels\<close> and \<open>AskLevels\<close> with depth zero list every price that has a resting order, once,
  best first, with the quantity there; a positive depth gives that many levels from the top.
\<close>

theorem levels_best_first:
  assumes "naive_inv b"
  shows "(\<exists>ps. naive_BidLevels 0 b = map (\<lambda>p. (p, naive_QuantityAt Buy p b)) ps \<and>
       sorted_wrt (>) ps \<and> set ps = o_price ` {r \<in> set (naive_AllRestingOrders b). o_side r = Buy}) \<and>
    (\<exists>ps. naive_AskLevels 0 b = map (\<lambda>p. (p, naive_QuantityAt Sell p b)) ps \<and>
       sorted_wrt (<) ps \<and> set ps = o_price ` {r \<in> set (naive_AllRestingOrders b). o_side r \<noteq> Buy}) \<and>
    (n \<noteq> 0 \<longrightarrow> naive_BidLevels n b = take n (naive_BidLevels 0 b) \<and>
       naive_AskLevels n b = take n (naive_AskLevels 0 b))"
proof -
  note l = naive_invD(1,2) [OF assms]
  have sides: "{r \<in> set (naive_AllRestingOrders b). o_side r = Buy} = set (flat (nb_bids b))"
    "{r \<in> set (naive_AllRestingOrders b). o_side r \<noteq> Buy} = set (flat (nb_asks b))"
    using arg_cong [OF filter_side_all [OF assms, of Buy], where f = set]
      arg_cong [OF filter_side_all [OF assms, of Sell], where f = set] by (simp_all add: naive_side_def)
  show ?thesis
    unfolding sides flat_prices [OF l(1)] flat_prices [OF l(2)]
    using l levels_quantities [OF l(1)] levels_quantities [OF l(2)]
    by (intro conjI exI [of _ "map fst (nb_bids b)"] exI [of _ "map fst (nb_asks b)"])
      (simp_all add: naive_BidLevels_def naive_AskLevels_def collect_levels_eq naive_QuantityAt_def
        levels_ok_def better_std)
qed

theorem levels_best_first_witness:
  "naive_AskLevels 0 ex_book = [(Price 100, 10), (Price 101, 5)] \<and>
   naive_AskLevels 1 ex_book = take 1 (naive_AskLevels 0 ex_book)"
proof -
  have "naive_AskLevels 0 ex_book = [(Price 100, 10), (Price 101, 5)]" by code_simp
  with levels_best_first [OF ex_book_inv, of 1] show ?thesis by simp
qed

lemma set_queue_twice: "set_queue buy xs (set_queue buy ys sb) = set_queue buy xs sb"
  by (simp add: set_queue_def)

lemma restore_side:
  assumes "naive_inv b" "\<forall>x \<in> set xs. order_ok (nb_symbol_id b) buy x"
    "distinct (map o_id (all_orders (naive_abs b) @ xs))" "prioritised buy (queue buy (naive_abs b) @ xs)"
    "\<forall>x \<in> set xs. \<forall>y \<in> set (queue (\<not> buy) (naive_abs b)). better (\<not> buy) (o_price x) (o_price y)"
  shows "naive_inv (fold naive_RestoreOrder xs b) \<and>
    naive_abs (fold naive_RestoreOrder xs b) = set_queue buy (queue buy (naive_abs b) @ xs) (naive_abs b)"
  using assms
proof (induction xs arbitrary: b)
  case Nil
  have "set_queue buy (queue buy sb) sb = sb" for sb by (simp add: set_queue_def)
  with Nil show ?case by simp
next
  case (Cons x xs)
  let ?q = "queue buy (naive_abs b)" and ?b = "naive_RestoreOrder x b"
  have x: "order_ok (nb_symbol_id b) buy x" "(o_side x = Buy) = buy" using Cons.prems(2) by (auto simp: order_ok_def)
  have fresh: "o_id x \<notin> o_id ` set (all_orders (naive_abs b))" using Cons.prems(3) by auto
  have "\<forall>r \<in> set ?q. \<not> better buy (o_price x) (o_price r)"
    using Cons.prems(4) by (simp add: prioritised_append)
  then have place: "place buy x ?q = ?q @ [x]" using place_at [of ?q buy x "[]"] by simp
  have ok: "order_ok (nb_symbol_id b) (o_side x = Buy) x" unfolding x(2) by (rule x(1))
  have sep: "\<forall>y \<in> set (queue (o_side x \<noteq> Buy) (naive_abs b)). better (o_side x \<noteq> Buy) (o_price x) (o_price y)"
    using Cons.prems(5) unfolding x(2) by simp
  have ins: "naive_inv ?b" "naive_abs ?b = set_queue buy (?q @ [x]) (naive_abs b)"
    using naive_InsertResting_refines [OF Cons.prems(1) ok fresh sep]
    unfolding naive_RestoreOrder_def x(2) place by blast+
  have symb: "nb_symbol_id ?b = nb_symbol_id b"
    using arg_cong [OF ins(2), where f = sb_symbol_id] by simp
  have q: "queue buy (naive_abs ?b) = ?q @ [x]" "queue (\<not> buy) (naive_abs ?b) = queue (\<not> buy) (naive_abs b)"
    by (simp_all add: ins(2))
  have "mset (all_orders (naive_abs ?b)) = mset (all_orders (naive_abs b) @ [x])"
    by (cases buy) (simp_all add: ins(2) set_queue_def all_orders_def del: naive_abs_simps(4))
  then have "mset (map o_id (all_orders (naive_abs ?b) @ xs)) = mset (map o_id (all_orders (naive_abs b) @ x # xs))"
    by (simp del: naive_abs_simps(4))
  with Cons.prems(3) have dist: "distinct (map o_id (all_orders (naive_abs ?b) @ xs))"
    using mset_eq_imp_distinct_iff by blast
  have "naive_inv (fold naive_RestoreOrder xs ?b) \<and> naive_abs (fold naive_RestoreOrder xs ?b) =
      set_queue buy (queue buy (naive_abs ?b) @ xs) (naive_abs ?b)"
  proof (rule Cons.IH [OF ins(1) _ dist])
    show "\<forall>y \<in> set xs. order_ok (nb_symbol_id ?b) buy y" using Cons.prems(2) unfolding symb by simp
    show "prioritised buy (queue buy (naive_abs ?b) @ xs)" using Cons.prems(4) unfolding q by simp
    show "\<forall>y \<in> set xs. \<forall>z \<in> set (queue (\<not> buy) (naive_abs ?b)). better (\<not> buy) (o_price y) (o_price z)"
      using Cons.prems(5) unfolding q by simp
  qed
  then show ?case unfolding q ins(2) set_queue_twice by simp
qed

lemma restore_all_orders:
  assumes "naive_inv b" "b' = fold naive_RestoreOrder (naive_AllRestingOrders b) (naive_new (nb_symbol_id b))"
  shows "naive_inv b' \<and> naive_abs b' = naive_abs b"
proof -
  let ?n = "naive_new (nb_symbol_id b)" and ?bids = "flat (nb_bids b)" and ?asks = "flat (nb_asks b)"
  have n: "naive_abs ?n = spec_empty (nb_symbol_id b)" "nb_symbol_id ?n = nb_symbol_id b"
    by (simp_all add: naive_abs_def naive_new_def spec_empty_def)
  have inv: "\<forall>x \<in> set ?bids. order_ok (nb_symbol_id b) True x" "\<forall>x \<in> set ?asks. order_ok (nb_symbol_id b) False x"
    "distinct (map o_id (?bids @ ?asks))" "prioritised True ?bids" "prioritised False ?asks"
    "\<forall>x \<in> set ?bids. \<forall>y \<in> set ?asks. o_price x < o_price y"
    using naive_inv_spec [OF assms(1)] unfolding spec_inv_sides naive_abs_simps by simp_all
  define b1 where "b1 = fold naive_RestoreOrder ?bids ?n"
  have b1: "naive_inv b1 \<and> naive_abs b1 = set_queue True (queue True (naive_abs ?n) @ ?bids) (naive_abs ?n)"
    unfolding b1_def
  proof (rule restore_side [OF naive_inv_new])
    show "\<forall>x \<in> set ?bids. order_ok (nb_symbol_id ?n) True x" unfolding n(2) by (rule inv(1))
    show "distinct (map o_id (all_orders (naive_abs ?n) @ ?bids))"
      using inv(3) unfolding n(1) by (simp add: spec_empty_def all_orders_def)
    show "prioritised True (queue True (naive_abs ?n) @ ?bids)"
      using inv(4) unfolding n(1) by (simp add: spec_empty_def)
  qed (simp add: n spec_empty_def)
  then have abs1: "naive_abs b1 = \<lparr>sb_symbol_id = nb_symbol_id b, sb_bids = ?bids, sb_asks = []\<rparr>"
    unfolding n(1) by (simp add: spec_empty_def set_queue_def)
  then have symb: "nb_symbol_id b1 = nb_symbol_id b" by (simp add: naive_abs_def)
  have b2: "naive_inv (fold naive_RestoreOrder ?asks b1) \<and> naive_abs (fold naive_RestoreOrder ?asks b1) =
      set_queue False (queue False (naive_abs b1) @ ?asks) (naive_abs b1)"
  proof (rule restore_side)
    show "naive_inv b1" using b1 by blast
    show "\<forall>x \<in> set ?asks. order_ok (nb_symbol_id b1) False x" unfolding symb by (rule inv(2))
    show "distinct (map o_id (all_orders (naive_abs b1) @ ?asks))"
      using inv(3) unfolding abs1 by (simp add: all_orders_def)
    show "prioritised False (queue False (naive_abs b1) @ ?asks)" using inv(5) unfolding abs1 by simp
    show "\<forall>x \<in> set ?asks. \<forall>y \<in> set (queue (\<not> False) (naive_abs b1)). better (\<not> False) (o_price x) (o_price y)"
      using inv(6) unfolding abs1 by (simp add: better_def)
  qed
  have b': "b' = fold naive_RestoreOrder ?asks b1"
    by (simp add: assms(2) naive_AllRestingOrders_def b1_def)
  from b2 have "naive_inv b'"
    "naive_abs b' = \<lparr>sb_symbol_id = nb_symbol_id b, sb_bids = ?bids, sb_asks = ?asks\<rparr>"
    unfolding b' abs1 by (simp_all add: set_queue_def)
  then show ?thesis by (simp add: naive_abs_def)
qed

end
