(* ===== verification/Fast_Properties.thy ===== *)
theory Fast_Properties
  imports Fast_Refine Book_Properties
begin

text \<open>
  What the fast book promises its users: it is interchangeable with the naive book while its
  pool has room, it never follows a dead pointer and always returns, and its behaviour when the
  pool is exhausted.
\<close>

section \<open>Equivalence with the naive book\<close>

lemma fast_run_total:
  assumes "length ops \<le> n"
  shows "\<exists>f. run_steps fast_step ops (fast_new symb n) = Some (fst (spec_run ops (spec_empty symb)), f) \<and>
    fast_rel f (snd (spec_run ops (spec_empty symb)))"
proof (rule fast.run_refines)
  show "fast_rel (fast_new symb n) (spec_empty symb)"
    unfolding fast_rel_def using fast_rep_new by metis
  show "length (all_orders (spec_empty symb)) + length ops \<le> pool_capacity (fb_pool (fast_new symb n))"
    using assms by (simp add: spec_empty_def all_orders_def fast_new_def pool_capacity_def pool_new_slots)
qed

text \<open>
  C18. The two books are interchangeable: for every sequence of operations no longer than the
  pool, both are defined on it, give the same answers (results, trades, reject reasons), and
  end in books on which every observer agrees.
\<close>

theorem fast_equals_naive:
  assumes "length ops \<le> n"
  shows "\<exists>outs f b. run_steps fast_step ops (fast_new symb n) = Some (outs, f) \<and>
    run_steps naive_step ops (naive_new symb) = Some (outs, b) \<and>
    (\<forall>s p. fast_QuantityAt s p f = naive_QuantityAt s p b \<and> fast_OrderCountAt s p f = naive_OrderCountAt s p b) \<and>
    (\<forall>oid. fast_HasOrder oid f = naive_HasOrder oid b) \<and>
    fast_HasBestBid f = naive_HasBestBid b \<and> fast_BestBid f = naive_BestBid b \<and>
    fast_HasBestAsk f = naive_HasBestAsk b \<and> fast_BestAsk f = naive_BestAsk b \<and>
    fast_TotalOrderCount f = naive_TotalOrderCount b"
proof -
  let ?r = "spec_run ops (spec_empty symb)"
  from fast_run_total [OF assms, of symb] obtain f where
    f: "run_steps fast_step ops (fast_new symb n) = Some (fst ?r, f)" "fast_rel f (snd ?r)" by blast
  from naive_run_total [of ops symb] obtain b where
    b: "run_steps naive_step ops (naive_new symb) = Some (fst ?r, b)" "naive_inv b" "naive_abs b = snd ?r" by blast
  from f(2) obtain G where G: "fast_rep f G" "fast_spec f G = naive_abs b" by (auto simp: fast_rel_def b(3))
  have "\<forall>s p. fast_QuantityAt s p f = naive_QuantityAt s p b \<and> fast_OrderCountAt s p f = naive_OrderCountAt s p b"
    "\<forall>oid. fast_HasOrder oid f = naive_HasOrder oid b" "fast_HasBestBid f = naive_HasBestBid b"
    "fast_BestBid f = naive_BestBid b" "fast_HasBestAsk f = naive_HasBestAsk b" "fast_BestAsk f = naive_BestAsk b"
    "fast_TotalOrderCount f = naive_TotalOrderCount b"
    unfolding fast_observers [OF G(1)] naive_observers [OF b(2)] naive_HasOrder_refines [OF b(2)] G(2) by simp_all
  with f(1) b(1) show ?thesis by blast
qed

theorem fast_equals_naive_witness:
  "\<exists>outs f b. run_steps fast_step (ex_ops @ [Add (ex_args 9 Buy (Price 101) 12)]) (fast_new 1 5) = Some (outs, f) \<and>
     run_steps naive_step (ex_ops @ [Add (ex_args 9 Buy (Price 101) 12)]) (naive_new 1) = Some (outs, b) \<and>
     fast_QuantityAt Sell (Price 101) f = naive_QuantityAt Sell (Price 101) b"
proof -
  have "length (ex_ops @ [Add (ex_args 9 Buy (Price 101) 12)]) \<le> 5" by (simp add: ex_ops_def)
  from fast_equals_naive [OF this, of 1] show ?thesis by metis
qed

section \<open>Safety\<close>

text \<open>
  C19. Memory safety and termination of the fast book, for any pool size and any history, the
  pool being exhausted included: every operation on a reachable book is defined (no dead
  pointer is followed, no slot is released twice, the matching loops end), and the live slots
  are exactly the resting orders, so no slot leaks.
\<close>

theorem fast_always_defined:
  assumes "fast_reachable symb n f"
  shows "(\<exists>out f'. fast_step op f = Some (out, f')) \<and> fast_TotalOrderCount f + fast_PoolAvailable f = n"
proof -
  from fast_reachable_rel [OF assms] obtain G where G: "fast_rep f G" and cap: "pool_capacity (fb_pool f) = n"
    by (auto simp: fast_rel_def)
  have "length (all_orders (fast_spec f G)) \<le> n"
    using fast_rep_count(1) [OF G] pool.heap_finite [OF fast_repD(1) [OF G]] cap by simp
  then have "fast_TotalOrderCount f + fast_PoolAvailable f = n"
    unfolding fast_observers [OF G] cap by simp
  moreover have "fast_rel f (fast_spec f G)" unfolding fast_rel_def using G by blast
  ultimately show ?thesis using fast_step_bounded [of f "fast_spec f G" op] by blast
qed

definition ex_full :: fast_book where
  "ex_full = snd (the (run_steps fast_step ex_ops (fast_new 1 4)))"

lemma fast_reachable_run:
  assumes "fast_reachable symb n f" "run_steps fast_step ops f = Some (outs, f')"
  shows "fast_reachable symb n f'"
  using assms
proof (induction ops arbitrary: f outs)
  case (Cons op ops)
  then show ?case by (auto split: option.splits prod.splits intro: fast_reachable.step)
qed simp

lemma ex_full_reachable: "fast_reachable 1 4 ex_full"
proof -
  have "length ex_ops \<le> 4" by (simp add: ex_ops_def)
  from fast_run_total [OF this, of 1] obtain outs f where
    "run_steps fast_step ex_ops (fast_new 1 4) = Some (outs, f)" by blast
  with fast_reachable_run [OF fast_reachable.init this] show ?thesis by (simp add: ex_full_def)
qed

theorem fast_always_defined_witness:
  "(\<exists>out f'. fast_step (Add (ex_args 5 Buy (Price 98) 1)) ex_full = Some (out, f')) \<and>
   fast_TotalOrderCount ex_full = 4 \<and> fast_PoolAvailable ex_full = 0"
proof -
  have "fast_TotalOrderCount ex_full = 4" by code_simp
  with fast_always_defined [OF ex_full_reachable, of "Add (ex_args 5 Buy (Price 98) 1)"] show ?thesis by simp
qed

section \<open>An exhausted pool\<close>

lemma spec_execute_reason: "ar_reject_reason (fst (spec_execute a b)) = NoReason"
  by (simp add: spec_execute_def result_defs Let_def split: prod.splits)

lemma fast_exhausted:
  assumes rep: "fast_rep f G" and add: "fast_AddOrder a f = Some (r, f')" and ex: "ar_reject_reason r = PoolExhausted"
  obtains rem ts G' where "fast_rep f' G'" "pool_capacity (fb_pool f') = pool_capacity (fb_pool f)"
    "spec_reject a (fast_spec f G) = None" "can_rest a rem"
    "fill (fb_symbol_id f) a (a_quantity a) (queue (a_side a \<noteq> Buy) (fast_spec f G)) =
       (rem, ts, queue (a_side a \<noteq> Buy) (fast_spec f' G'))"
    "fast_spec f' G' = set_queue (a_side a \<noteq> Buy) (queue (a_side a \<noteq> Buy) (fast_spec f' G')) (fast_spec f G)"
    "length (all_orders (fast_spec f' G')) = pool_capacity (fb_pool f)" "r = exhausted_result a rem ts"
proof -
  obtain G' where G': "fast_rep f' G'"
    "bounded_add (pool_capacity (fb_pool f)) a (fast_spec f G) = (r, fast_spec f' G')"
    "pool_capacity (fb_pool f') = pool_capacity (fb_pool f)"
    using fast_AddOrder_refines [OF rep, of a] add by (metis Pair_inject option.inject)
  obtain rem ts opp where f: "fill (sb_symbol_id (fast_spec f G)) a (a_quantity a) (queue (a_side a \<noteq> Buy) (fast_spec f G)) = (rem, ts, opp)"
    by (metis prod_cases3)
  have none: "spec_reject a (fast_spec f G) = None"
  proof (rule ccontr)
    assume "spec_reject a (fast_spec f G) \<noteq> None"
    then obtain rr where rr: "spec_reject a (fast_spec f G) = Some rr" by blast
    with G'(2) ex have "rr = PoolExhausted" by (auto simp: bounded_add_def AddResult_init_def)
    with rr show False by (auto simp: spec_reject_def split: if_splits)
  qed
  let ?b1 = "set_queue (a_side a \<noteq> Buy) opp (fast_spec f G)"
  have c: "can_rest a rem \<and> length (all_orders ?b1) = pool_capacity (fb_pool f)"
  proof (rule ccontr)
    assume "\<not> ?thesis"
    with G'(2) none f have "r = fst (spec_execute a (fast_spec f G))" by (auto simp: bounded_add_def)
    with ex spec_execute_reason [of a "fast_spec f G"] show False by simp
  qed
  with G'(2) none f have r: "r = exhausted_result a rem ts" "fast_spec f' G' = ?b1" by (auto simp: bounded_add_def)
  have "queue (a_side a \<noteq> Buy) ?b1 = opp" by (rule set_queue_simps(1))
  with G' none f c r show thesis by (intro that [of G' rem ts]) simp_all
qed

text \<open>An execution that leaves quantity over and frees no order has not traded at all.\<close>

lemma fill_no_trade:
  assumes "fill symb a q os = (rem, ts, os')" "rem \<noteq> 0" "length os \<le> length os'"
  shows "ts = [] \<and> rem = q \<and> os' = os"
proof -
  from fill_execution [OF assms(1)] assms(2) obtain k where
    k: "k \<le> length os" "ts = map (whole_trade symb a) (take k os)" "os' = drop k os"
      "unat q = unat rem + queue_depth (take k os)" unfolding execution_def by blast
  with assms(3) have "k = 0" by simp
  with k have "unat rem = unat q" "ts = []" "os' = os" by simp_all
  then show ?thesis by (auto intro: unsigned_word_eqI)
qed



end
