(* ===== verification/Matching_Engine.thy ===== *)
theory Matching_Engine
  imports Naive_Book
begin

text \<open>
  \<open>MatchingEngine\<close> (\<open>include/matching_engine/matching_engine.hpp\<close>, \<open>src/matching_engine.cpp\<close>):
  the books of one partition by symbol, the next sequence number, and the processing of
  commands into events. An event handler returns the events it appends to \<open>out\<close>; it is
  undefined (\<open>None\<close>) only where the book operation it calls is.

  The lemmas show that processing is always defined under the invariant of the engine, that it
  touches the book of the command's symbol only, and which events it emits.
\<close>

section \<open>State\<close>

record engine =
  en_partition_index :: nat
  en_next_seq :: sequence_number
  en_books :: "(symbol_id, order_book) unordered_map"

definition engine_new :: "nat \<Rightarrow> engine" where
  "engine_new partition_index = \<lparr>en_partition_index = partition_index, en_next_seq = 1, en_books = []\<rparr>"

text \<open>\<open>try_emplace\<close> does nothing when the symbol is there.\<close>

definition engine_RegisterSymbol :: "symbol_id \<Rightarrow> engine \<Rightarrow> engine" where
  "engine_RegisterSymbol symb e =
     (case map_of (en_books e) symb of
        None \<Rightarrow> e\<lparr>en_books := AList.update symb (naive_new symb) (en_books e)\<rparr>
      | Some _ \<Rightarrow> e)"

definition engine_FindBook :: "symbol_id \<Rightarrow> engine \<Rightarrow> order_book option" where
  "engine_FindBook symb e = map_of (en_books e) symb"

definition engine_OwnsSymbol :: "symbol_id \<Rightarrow> engine \<Rightarrow> bool" where
  "engine_OwnsSymbol symb e = (map_of (en_books e) symb \<noteq> None)"

definition engine_SetNextSequenceNumber :: "sequence_number \<Rightarrow> engine \<Rightarrow> engine" where
  "engine_SetNextSequenceNumber n e = e\<lparr>en_next_seq := n\<rparr>"

text \<open>The book of a symbol after a mutation through the pointer that \<open>FindBookMutable\<close> returned.\<close>

definition engine_set_book :: "symbol_id \<Rightarrow> order_book \<Rightarrow> engine \<Rightarrow> engine" where
  "engine_set_book symb b e = e\<lparr>en_books := AList.update symb b (en_books e)\<rparr>"

definition engine_RestoreOrder :: "symbol_id \<Rightarrow> order \<Rightarrow> engine \<Rightarrow> engine" where
  "engine_RestoreOrder symb x e =
     (case engine_FindBook symb e of
        None \<Rightarrow> e
      | Some book \<Rightarrow> engine_set_book symb (naive_RestoreOrder x book) e)"

section \<open>Processing\<close>

definition AddTouched :: "(side \<times> price) list \<Rightarrow> side \<Rightarrow> price \<Rightarrow> (side \<times> price) list" where
  "AddTouched touched s p = (if (s, p) \<in> set touched then touched else touched @ [(s, p)])"

text \<open>The loop over the trades: the opposite level of each trade is touched.\<close>

fun touch_trades :: "side \<Rightarrow> trade list \<Rightarrow> (side \<times> price) list \<Rightarrow> (side \<times> price) list" where
  "touch_trades s [] touched = touched"
| "touch_trades s (t # ts) touched = touch_trades s ts (AddTouched touched (opposite s) (t_price t))"

definition reject_event :: "sequence_number \<Rightarrow> timestamp \<Rightarrow> symbol_id \<Rightarrow> order_id \<Rightarrow> trader_id \<Rightarrow> reject_reason \<Rightarrow> event" where
  "reject_event seq ts symb oid trader r =
     RejectedEvent \<lparr>re_sequence_number = seq, re_timestamp = ts, re_symbol_id = symb, re_order_id = oid,
       re_trader_id = trader, re_reason = r\<rparr>"

definition book_update :: "sequence_number \<Rightarrow> timestamp \<Rightarrow> symbol_id \<Rightarrow> order_book \<Rightarrow> side \<times> price \<Rightarrow> event" where
  "book_update seq ts symb book sp =
     BookUpdateEvent \<lparr>be_sequence_number = seq, be_timestamp = ts, be_symbol_id = symb, be_side = fst sp,
       be_price = snd sp, be_aggregate_quantity = naive_QuantityAt (fst sp) (snd sp) book\<rparr>"

definition ProcessNewOrder :: "new_order_command \<Rightarrow> sequence_number \<Rightarrow> engine \<Rightarrow> event list \<times> engine" where
  "ProcessNewOrder c seq e =
     (case engine_FindBook (nc_symbol_id c) e of
        None \<Rightarrow>
          ([reject_event seq (nc_timestamp c) (nc_symbol_id c) (nc_order_id c) (nc_trader_id c) InvalidSymbol], e)
      | Some book \<Rightarrow>
          (case naive_AddOrder
                  \<lparr>a_id = nc_order_id c, a_trader_id = nc_trader_id c, a_side = nc_side c, a_type = nc_type c,
                   a_price = nc_price c, a_quantity = nc_quantity c, a_tif = nc_time_in_force c, a_seq = seq,
                   a_ts = nc_timestamp c\<rparr> book of
             (result, book') \<Rightarrow>
               let e' = engine_set_book (nc_symbol_id c) book' e in
               if \<not> ar_accepted result then
                 ([reject_event seq (nc_timestamp c) (nc_symbol_id c) (nc_order_id c) (nc_trader_id c)
                    (ar_reject_reason result)], e')
               else
                 let touched = touch_trades (nc_side c) (ar_trades result) [];
                     rests = ar_remaining_quantity result > 0 \<and> ar_final_status result \<noteq> Cancelled;
                     touched' = (if rests then AddTouched touched (nc_side c) (nc_price c) else touched)
                 in (AcceptedEvent \<lparr>ae_sequence_number = seq, ae_timestamp = nc_timestamp c,
                       ae_symbol_id = nc_symbol_id c, ae_order_id = nc_order_id c,
                       ae_trader_id = nc_trader_id c, ae_side = nc_side c, ae_type = nc_type c,
                       ae_price = nc_price c, ae_quantity = nc_quantity c,
                       ae_filled_quantity = ar_filled_quantity result,
                       ae_remaining_quantity = ar_remaining_quantity result,
                       ae_status = ar_final_status result\<rparr>
                     # map TradeEvent (ar_trades result)
                     @ map (book_update seq (nc_timestamp c) (nc_symbol_id c) book') touched', e')))"

definition ProcessCancel :: "cancel_command \<Rightarrow> sequence_number \<Rightarrow> engine \<Rightarrow> (event list \<times> engine) option" where
  "ProcessCancel c seq e =
     (case engine_FindBook (cc_symbol_id c) e of
        None \<Rightarrow>
          Some ([reject_event seq (cc_timestamp c) (cc_symbol_id c) (cc_order_id c) (cc_trader_id c) InvalidSymbol], e)
      | Some book \<Rightarrow>
          do {
            existing \<leftarrow> naive_FindOrder (cc_order_id c) book;
            let level = (case existing of None \<Rightarrow> (Buy, Price 0) | Some x \<Rightarrow> (o_side x, o_price x));
            (result, book') \<leftarrow> naive_CancelOrder (cc_order_id c) book;
            let e' = engine_set_book (cc_symbol_id c) book' e;
            Some (if \<not> cr_success result then
                    ([reject_event seq (cc_timestamp c) (cc_symbol_id c) (cc_order_id c) (cc_trader_id c)
                       (cr_reject_reason result)], e')
                  else
                    (CancelledEvent \<lparr>ce_sequence_number = seq, ce_timestamp = cc_timestamp c,
                       ce_symbol_id = cc_symbol_id c, ce_order_id = cc_order_id c,
                       ce_trader_id = cr_trader_id result\<rparr>
                     # (if existing \<noteq> None
                        then [book_update seq (cc_timestamp c) (cc_symbol_id c) book' level] else []), e'))
          })"

definition ProcessModify :: "modify_command \<Rightarrow> sequence_number \<Rightarrow> engine \<Rightarrow> (event list \<times> engine) option" where
  "ProcessModify c seq e =
     (case engine_FindBook (mc_symbol_id c) e of
        None \<Rightarrow>
          Some ([reject_event seq (mc_timestamp c) (mc_symbol_id c) (mc_order_id c) (mc_trader_id c) InvalidSymbol], e)
      | Some book \<Rightarrow>
          do {
            existing \<leftarrow> naive_FindOrder (mc_order_id c) book;
            (case existing of
               None \<Rightarrow>
                 Some ([reject_event seq (mc_timestamp c) (mc_symbol_id c) (mc_order_id c) (mc_trader_id c)
                          UnknownOrder], e)
             | Some x \<Rightarrow>
                 do {
                   (result, book') \<leftarrow>
                     naive_ModifyOrder (mc_order_id c) (mc_new_price c) (mc_new_quantity c) seq (mc_timestamp c) book;
                   let e' = engine_set_book (mc_symbol_id c) book' e;
                   Some (if \<not> mr_success result then
                           ([reject_event seq (mc_timestamp c) (mc_symbol_id c) (mc_order_id c) (mc_trader_id c)
                              (mr_reject_reason result)], e')
                         else
                           let touched = touch_trades (o_side x) (mr_trades result) [];
                               touched1 = AddTouched touched (o_side x) (o_price x);
                               touched2 = (if mc_new_price c \<noteq> o_price x
                                           then AddTouched touched1 (o_side x) (mc_new_price c) else touched1)
                           in (ModifiedEvent \<lparr>me_sequence_number = seq, me_timestamp = mc_timestamp c,
                                 me_symbol_id = mc_symbol_id c, me_order_id = mc_order_id c,
                                 me_trader_id = mc_trader_id c, me_new_price = mc_new_price c,
                                 me_new_remaining_quantity = mr_remaining_quantity result,
                                 me_lost_priority = mr_lost_priority result\<rparr>
                               # map TradeEvent (mr_trades result)
                               @ map (book_update seq (mc_timestamp c) (mc_symbol_id c) book') touched2, e'))
                 })
          })"

definition engine_Process :: "command \<Rightarrow> engine \<Rightarrow> event list \<Rightarrow> (sequence_number \<times> event list \<times> engine) option" where
  "engine_Process cmd e out_events =
     (let seq = en_next_seq e; e1 = e\<lparr>en_next_seq := en_next_seq e + 1\<rparr> in
      do {
        (evs, e2) \<leftarrow>
          (case cmd of
             NewOrderCommand c \<Rightarrow> Some (ProcessNewOrder c seq e1)
           | CancelCommand c \<Rightarrow> ProcessCancel c seq e1
           | ModifyCommand c \<Rightarrow> ProcessModify c seq e1);
        Some (seq, out_events @ evs, e2)
      })"

section \<open>Invariant\<close>

definition engine_inv :: "engine \<Rightarrow> bool" where
  "engine_inv e \<longleftrightarrow>
     distinct (map fst (en_books e)) \<and> (\<forall>(symb, b) \<in> set (en_books e). naive_inv b \<and> nb_symbol_id b = symb)"

lemma engine_inv_new: "engine_inv (engine_new i)"
  by (simp add: engine_inv_def engine_new_def)

lemma engine_FindBook_set [simp]:
  "engine_FindBook s (engine_set_book symb b e) = (if s = symb then Some b else engine_FindBook s e)"
  by (simp add: engine_FindBook_def engine_set_book_def update_conv')

lemma engine_set_book_simps [simp]:
  "en_next_seq (engine_set_book symb b e) = en_next_seq e"
  "en_partition_index (engine_set_book symb b e) = en_partition_index e"
  by (simp_all add: engine_set_book_def)

lemma set_update_subset: "set (AList.update k v m) \<subseteq> insert (k, v) (set m)"
  by (induction m) auto

lemma engine_inv_set:
  assumes "engine_inv e" "naive_inv b" "nb_symbol_id b = symb"
  shows "engine_inv (engine_set_book symb b e)"
  using assms set_update_subset [of symb b "en_books e"]
  by (auto simp: engine_inv_def engine_set_book_def distinct_update)

lemma engine_inv_book:
  assumes "engine_inv e" "engine_FindBook symb e = Some b"
  shows "naive_inv b" "nb_symbol_id b = symb"
  using assms map_of_SomeD by (fastforce simp: engine_inv_def engine_FindBook_def)+

lemma engine_inv_register: "engine_inv e \<Longrightarrow> engine_inv (engine_RegisterSymbol symb e)"
  using engine_inv_set [OF _ naive_inv_new, of e symb symb]
  by (simp add: engine_RegisterSymbol_def engine_set_book_def naive_new_def split: option.splits)

section \<open>The contract of a partition\<close>

text \<open>
  The same processing on the contract of a book: which events a command produces is a function
  of the queues of its symbol alone.
\<close>

definition new_args :: "new_order_command \<Rightarrow> sequence_number \<Rightarrow> order_args" where
  "new_args c seq = \<lparr>a_id = nc_order_id c, a_trader_id = nc_trader_id c, a_side = nc_side c, a_type = nc_type c,
     a_price = nc_price c, a_quantity = nc_quantity c, a_tif = nc_time_in_force c, a_seq = seq,
     a_ts = nc_timestamp c\<rparr>"

definition spec_update :: "sequence_number \<Rightarrow> timestamp \<Rightarrow> symbol_id \<Rightarrow> spec_book \<Rightarrow> side \<times> price \<Rightarrow> event" where
  "spec_update seq ts symb b sp =
     BookUpdateEvent \<lparr>be_sequence_number = seq, be_timestamp = ts, be_symbol_id = symb, be_side = fst sp,
       be_price = snd sp, be_aggregate_quantity = spec_quantity_at (fst sp) (snd sp) b\<rparr>"

definition accepted_ack :: "new_order_command \<Rightarrow> sequence_number \<Rightarrow> add_result \<Rightarrow> event" where
  "accepted_ack c seq r =
     AcceptedEvent \<lparr>ae_sequence_number = seq, ae_timestamp = nc_timestamp c, ae_symbol_id = nc_symbol_id c,
       ae_order_id = nc_order_id c, ae_trader_id = nc_trader_id c, ae_side = nc_side c, ae_type = nc_type c,
       ae_price = nc_price c, ae_quantity = nc_quantity c, ae_filled_quantity = ar_filled_quantity r,
       ae_remaining_quantity = ar_remaining_quantity r, ae_status = ar_final_status r\<rparr>"

definition modified_ack :: "modify_command \<Rightarrow> sequence_number \<Rightarrow> modify_result \<Rightarrow> event" where
  "modified_ack c seq r =
     ModifiedEvent \<lparr>me_sequence_number = seq, me_timestamp = mc_timestamp c, me_symbol_id = mc_symbol_id c,
       me_order_id = mc_order_id c, me_trader_id = mc_trader_id c, me_new_price = mc_new_price c,
       me_new_remaining_quantity = mr_remaining_quantity r, me_lost_priority = mr_lost_priority r\<rparr>"

definition new_touched :: "new_order_command \<Rightarrow> add_result \<Rightarrow> (side \<times> price) list" where
  "new_touched c r =
     (let touched = touch_trades (nc_side c) (ar_trades r) [] in
      if ar_remaining_quantity r > 0 \<and> ar_final_status r \<noteq> Cancelled
      then AddTouched touched (nc_side c) (nc_price c) else touched)"

definition modify_touched :: "modify_command \<Rightarrow> order \<Rightarrow> modify_result \<Rightarrow> (side \<times> price) list" where
  "modify_touched c x r =
     (let touched = AddTouched (touch_trades (o_side x) (mr_trades r) []) (o_side x) (o_price x) in
      if mc_new_price c \<noteq> o_price x then AddTouched touched (o_side x) (mc_new_price c) else touched)"

fun spec_process :: "sequence_number \<Rightarrow> command \<Rightarrow> spec_book \<Rightarrow> event list \<times> spec_book" where
  "spec_process seq (NewOrderCommand c) b =
     (case spec_add (new_args c seq) b of (r, b') \<Rightarrow>
        (if \<not> ar_accepted r then
           [reject_event seq (nc_timestamp c) (nc_symbol_id c) (nc_order_id c) (nc_trader_id c) (ar_reject_reason r)]
         else accepted_ack c seq r # map TradeEvent (ar_trades r) @
           map (spec_update seq (nc_timestamp c) (nc_symbol_id c) b') (new_touched c r), b'))"
| "spec_process seq (CancelCommand c) b =
     (case spec_find (cc_order_id c) b of
        None \<Rightarrow>
          ([reject_event seq (cc_timestamp c) (cc_symbol_id c) (cc_order_id c) (cc_trader_id c) UnknownOrder], b)
      | Some x \<Rightarrow>
          let b' = spec_remove (cc_order_id c) b in
          ([CancelledEvent \<lparr>ce_sequence_number = seq, ce_timestamp = cc_timestamp c, ce_symbol_id = cc_symbol_id c,
              ce_order_id = cc_order_id c, ce_trader_id = o_trader_id x\<rparr>,
            spec_update seq (cc_timestamp c) (cc_symbol_id c) b' (o_side x, o_price x)], b'))"
| "spec_process seq (ModifyCommand c) b =
     (case spec_find (mc_order_id c) b of
        None \<Rightarrow>
          ([reject_event seq (mc_timestamp c) (mc_symbol_id c) (mc_order_id c) (mc_trader_id c) UnknownOrder], b)
      | Some x \<Rightarrow>
          (case spec_modify (mc_order_id c) (mc_new_price c) (mc_new_quantity c) seq (mc_timestamp c) b of (r, b') \<Rightarrow>
            (if \<not> mr_success r then
               [reject_event seq (mc_timestamp c) (mc_symbol_id c) (mc_order_id c) (mc_trader_id c) (mr_reject_reason r)]
             else modified_ack c seq r # map TradeEvent (mr_trades r) @
               map (spec_update seq (mc_timestamp c) (mc_symbol_id c) b') (modify_touched c x r), b')))"

lemma book_update_refines:
  "naive_inv b \<Longrightarrow> book_update seq ts symb b = spec_update seq ts symb (naive_abs b)"
  by (simp add: fun_eq_iff book_update_def spec_update_def naive_observers(1))

lemma engine_FindBook_next [simp]: "engine_FindBook symb (e\<lparr>en_next_seq := n\<rparr>) = engine_FindBook symb e"
  by (simp add: engine_FindBook_def)

lemma engine_inv_next [simp]: "engine_inv (e\<lparr>en_next_seq := n\<rparr>) = engine_inv e"
  by (simp add: engine_inv_def)

text \<open>One command on a known symbol.\<close>

lemma engine_Process_known:
  assumes inv: "engine_inv e" and book: "engine_FindBook (SymbolOf cmd) e = Some b"
  obtains b' where
    "engine_Process cmd e out =
       Some (en_next_seq e, out @ fst (spec_process (en_next_seq e) cmd (naive_abs b)),
             engine_set_book (SymbolOf cmd) b' (e\<lparr>en_next_seq := en_next_seq e + 1\<rparr>))"
    "naive_inv b'" "naive_abs b' = snd (spec_process (en_next_seq e) cmd (naive_abs b))"
proof (cases cmd)
  case (NewOrderCommand c)
  have b: "naive_inv b" "engine_FindBook (nc_symbol_id c) e = Some b"
    using engine_inv_book [OF inv book] book NewOrderCommand by simp_all
  obtain r b' where add: "naive_AddOrder (new_args c (en_next_seq e)) b = (r, b')" by fastforce
  note ref = naive_AddOrder_refines [OF b(1) add]
  show thesis
    by (rule that [of b'])
      (use b(2) add ref in \<open>simp_all add: NewOrderCommand engine_Process_def ProcessNewOrder_def new_args_def [symmetric]
         Let_def accepted_ack_def new_touched_def book_update_refines\<close>)
next
  case (CancelCommand c)
  have b: "naive_inv b" "engine_FindBook (cc_symbol_id c) e = Some b"
    using engine_inv_book [OF inv book] book CancelCommand by simp_all
  obtain r b' where cn: "naive_CancelOrder (cc_order_id c) b = Some (r, b')" "naive_inv b'"
    "spec_cancel (cc_order_id c) (naive_abs b) = (r, naive_abs b')"
    using naive_CancelOrder_refines [OF b(1)] by blast
  show thesis
    by (rule that [of b'])
      (use b(2) cn naive_FindOrder_refines [OF b(1), of "cc_order_id c"] in
        \<open>auto simp: CancelCommand engine_Process_def ProcessCancel_def Let_def spec_cancel_def
           book_update_refines CancelResult_init_def split: option.splits\<close>)
next
  case (ModifyCommand c)
  have b: "naive_inv b" "engine_FindBook (mc_symbol_id c) e = Some b"
    using engine_inv_book [OF inv book] book ModifyCommand by simp_all
  obtain r b' where md: "naive_ModifyOrder (mc_order_id c) (mc_new_price c) (mc_new_quantity c) (en_next_seq e)
      (mc_timestamp c) b = Some (r, b')" "naive_inv b'"
    "spec_modify (mc_order_id c) (mc_new_price c) (mc_new_quantity c) (en_next_seq e) (mc_timestamp c) (naive_abs b) =
      (r, naive_abs b')"
    using naive_ModifyOrder_refines [OF b(1)] by blast
  show thesis
  proof (cases "spec_find (mc_order_id c) (naive_abs b)")
    case None
    have same: "engine_set_book (mc_symbol_id c) b (e\<lparr>en_next_seq := en_next_seq e + 1\<rparr>) = e\<lparr>en_next_seq := en_next_seq e + 1\<rparr>"
      using b(2) inv by (auto simp: engine_set_book_def engine_FindBook_def engine_inv_def update_triv)
    show thesis
      by (rule that [of b])
        (use None b same naive_FindOrder_refines [OF b(1), of "mc_order_id c"] in
          \<open>simp_all add: ModifyCommand engine_Process_def ProcessModify_def Let_def\<close>)
  next
    case (Some x)
    show thesis
      by (rule that [of b'])
        (use Some b(2) md naive_FindOrder_refines [OF b(1), of "mc_order_id c"] in
          \<open>simp_all add: ModifyCommand engine_Process_def ProcessModify_def Let_def modified_ack_def modify_touched_def
             book_update_refines\<close>)
  qed
qed

definition no_symbol :: "sequence_number \<Rightarrow> command \<Rightarrow> event" where
  "no_symbol seq cmd =
     (case cmd of
        NewOrderCommand c \<Rightarrow> reject_event seq (nc_timestamp c) (nc_symbol_id c) (nc_order_id c) (nc_trader_id c) InvalidSymbol
      | CancelCommand c \<Rightarrow> reject_event seq (cc_timestamp c) (cc_symbol_id c) (cc_order_id c) (cc_trader_id c) InvalidSymbol
      | ModifyCommand c \<Rightarrow> reject_event seq (mc_timestamp c) (mc_symbol_id c) (mc_order_id c) (mc_trader_id c) InvalidSymbol)"

lemma engine_Process_unknown:
  assumes "engine_FindBook (SymbolOf cmd) e = None"
  shows "engine_Process cmd e out =
    Some (en_next_seq e, out @ [no_symbol (en_next_seq e) cmd], e\<lparr>en_next_seq := en_next_seq e + 1\<rparr>)"
  using assms
  by (cases cmd)
    (simp_all add: engine_Process_def ProcessNewOrder_def ProcessCancel_def ProcessModify_def Let_def no_symbol_def)

end
