(* ===== verification/Engine_Laws.thy ===== *)
theory Engine_Laws
  imports Matching_Engine
begin

text \<open>
  Laws of the contract of a partition that the properties of the engine rest on: which levels a
  command changes and that every one of them is reported, who an event belongs to, and that the
  order of a queue is the order of the sequence numbers.
\<close>

section \<open>Touched levels\<close>

lemma set_AddTouched [simp]: "set (AddTouched touched s p) = insert (s, p) (set touched)"
  by (auto simp: AddTouched_def)

lemma set_touch_trades: "set (touch_trades s ts touched) = set touched \<union> Pair (opposite s) ` t_price ` set ts"
  by (induction s ts touched rule: touch_trades.induct) auto

lemma opposite_Buy: "(opposite s = Buy) = (s \<noteq> Buy)"
  by (simp add: opposite_def)

text \<open>\<open>level_of\<close> identifies the level that a side and a price name in the book.\<close>

definition level_of :: "side \<times> price \<Rightarrow> bool \<times> price" where
  "level_of sp = (fst sp = Buy, snd sp)"

definition quantity_of :: "spec_book \<Rightarrow> bool \<times> price \<Rightarrow> quantity" where
  "quantity_of b l = sum_list (map o_remaining_quantity (filter (\<lambda>r. o_price r = snd l) (queue (fst l) b)))"

lemma spec_quantity_level: "spec_quantity_at s p b = quantity_of b (level_of (s, p))"
  by (simp add: spec_quantity_at_def quantity_of_def level_of_def)

section \<open>Levels that do not change\<close>

lemma fill_trades:
  assumes "fill symb a rem os = (rem', ts, os')" "t \<in> set ts"
  shows "t_symbol_id t = symb" "t_sequence_number t = a_seq a" "t_timestamp t = a_ts a"
    "t_aggressor_order_id t = a_id a"
  using fill_execution [OF assms(1)] assms(2)
  by (auto simp: execution_def whole_trade_def make_trade_def)

lemma fill_other_prices:
  assumes "fill symb a rem os = (rem', ts, os')" "p \<notin> t_price ` set ts"
  shows "filter (\<lambda>r. o_price r = p) os' = filter (\<lambda>r. o_price r = p) os"
proof -
  from fill_execution [OF assms(1)] obtain k where ex: "execution symb a rem os k rem' ts os'" by blast
  have "set (map (whole_trade symb a) (take k os)) \<subseteq> set ts" using ex by (auto simp: execution_def)
  then have "\<forall>r \<in> set (take k os). o_price r \<noteq> p"
    using assms(2) by (force simp: whole_trade_def make_trade_def)
  then have pre: "filter (\<lambda>r. o_price r = p) (take k os) = []" by (simp add: filter_empty_conv)
  consider "os' = drop k os"
    | q where "k < length os" "ts = map (whole_trade symb a) (take k os) @ [make_trade symb a (os ! k) q]"
      "os' = (os ! k)\<lparr>o_remaining_quantity := o_remaining_quantity (os ! k) - q, o_status := PartiallyFilled\<rparr> # drop (Suc k) os"
    using ex unfolding execution_def by blast
  then show ?thesis
  proof cases
    case 1
    have "filter (\<lambda>r. o_price r = p) os = filter (\<lambda>r. o_price r = p) (take k os @ drop k os)" by simp
    then show ?thesis unfolding filter_append pre 1 by simp
  next
    case 2
    have "o_price (os ! k) \<noteq> p" using assms(2) 2(2) by (auto simp: make_trade_def)
    moreover have "filter (\<lambda>r. o_price r = p) os = filter (\<lambda>r. o_price r = p) (take k os @ os ! k # drop (Suc k) os)"
      using id_take_nth_drop [OF 2(1)] by simp
    ultimately show ?thesis unfolding filter_append pre 2(3) by simp
  qed
qed

lemma place_other_prices:
  "p \<noteq> o_price x \<Longrightarrow> filter (\<lambda>r. o_price r = p) (place buy x os) = filter (\<lambda>r. o_price r = p) os"
  by (rule place_split [of os buy x]) auto

text \<open>An order changes the opposite levels it trades at, and its own level if it rests.\<close>

lemma spec_add_levels:
  assumes add: "spec_add a b = (r, b')"
    and opp: "l \<notin> Pair (a_side a \<noteq> Buy) ` t_price ` set (ar_trades r)"
    and own: "ar_remaining_quantity r > 0 \<Longrightarrow> l \<noteq> (a_side a = Buy, a_price a)"
  shows "quantity_of b' l = quantity_of b l"
proof (cases "ar_accepted r")
  case False
  then have "b' = b" using spec_add_rejected [OF add] by blast
  then show ?thesis by simp
next
  case True
  from spec_add_accepted [OF add True] obtain rem where
    f: "fill (sb_symbol_id b) a (a_quantity a) (queue (a_side a \<noteq> Buy) b) =
       (rem, ar_trades r, queue (a_side a \<noteq> Buy) b')"
    and rem: "ar_remaining_quantity r = (if can_rest a rem then rem else 0)"
    and q: "queue (a_side a = Buy) b' =
       (if can_rest a rem then
          place (a_side a = Buy) (resting_order (sb_symbol_id b) a rem) (queue (a_side a = Buy) b)
        else queue (a_side a = Buy) b)" by metis
  obtain s p where l: "l = (s, p)" by (cases l)
  show ?thesis
  proof (cases "s = (a_side a = Buy)")
    case True
    have "can_rest a rem \<Longrightarrow> p \<noteq> o_price (resting_order (sb_symbol_id b) a rem)"
      using own rem l True by (simp add: resting_order_def can_rest_def)
    then show ?thesis
      using q by (simp add: quantity_of_def l True place_other_prices)
  next
    case False
    then have s: "s = (a_side a \<noteq> Buy)" by blast
    have "p \<notin> t_price ` set (ar_trades r)" using opp l s by auto
    from fill_other_prices [OF f this] show ?thesis by (simp add: quantity_of_def l s)
  qed
qed

lemma withdraw_other_prices:
  assumes "\<forall>x \<in> set os. o_id x = oid \<longrightarrow> o_price x \<noteq> p"
  shows "filter (\<lambda>r. o_price r = p) (withdraw oid os) = filter (\<lambda>r. o_price r = p) os"
  using assms by (induction os) (auto simp: withdraw_def)

lemma amend_other_prices:
  assumes "\<forall>x \<in> set os. o_id x = oid \<longrightarrow> o_price x \<noteq> p" "\<And>x. o_price (f x) = o_price x"
  shows "filter (\<lambda>r. o_price r = p) (amend oid f os) = filter (\<lambda>r. o_price r = p) os"
  using assms by (induction os) (auto simp: amend_def)

lemma found_elsewhere:
  assumes inv: "spec_inv b" and find: "spec_find oid b = Some x" and l: "l \<noteq> (o_side x = Buy, o_price x)"
  shows "\<forall>y \<in> set (queue (fst l) b). o_id y = oid \<longrightarrow> o_price y \<noteq> snd l"
proof (intro ballI impI notI)
  fix y assume y: "y \<in> set (queue (fst l) b)" "o_id y = oid" "o_price y = snd l"
  then have "y \<in> set (all_orders b)" by (auto simp: all_orders_def queue_def split: if_splits)
  then have "y = x" using spec_find_unique [OF inv find] y(2) by blast
  moreover have "(o_side y = Buy) = fst l" using inv y(1) by (auto simp: spec_inv_def order_ok_def)
  ultimately show False using l y(3) by (cases l) simp
qed

lemma spec_remove_levels:
  assumes "spec_inv b" "spec_find oid b = Some x" "l \<noteq> (o_side x = Buy, o_price x)"
  shows "quantity_of (spec_remove oid b) l = quantity_of b l"
proof -
  have "queue (fst l) (spec_remove oid b) = withdraw oid (queue (fst l) b)"
    by (cases "fst l") (simp_all add: spec_remove_def)
  then show ?thesis using withdraw_other_prices [OF found_elsewhere [OF assms]] by (simp add: quantity_of_def)
qed

lemma spec_modify_levels:
  assumes inv: "spec_inv b" and find: "spec_find oid b = Some x" and mod: "spec_modify oid p q seq ts b = (r, b')"
    and opp: "l \<notin> Pair (o_side x \<noteq> Buy) ` t_price ` set (mr_trades r)"
    and own: "l \<noteq> (o_side x = Buy, o_price x)" "l \<noteq> (o_side x = Buy, p)"
  shows "quantity_of b' l = quantity_of b l"
proof -
  consider "b' = b" | "b' = b\<lparr>sb_bids := amend oid (amend_order q) (sb_bids b), sb_asks := amend oid (amend_order q) (sb_asks b)\<rparr>"
    | add where "spec_add (replace_args x p q seq ts) (spec_remove oid b) = (add, b')" "mr_trades r = ar_trades add"
    using mod find by (auto simp: spec_modify_def replace_result_def split: if_splits prod.splits)
  then show ?thesis
  proof cases
    case 2
    have "queue (fst l) b' = amend oid (amend_order q) (queue (fst l) b)" unfolding 2 by (cases "fst l") simp_all
    then show ?thesis
      using amend_other_prices [OF found_elsewhere [OF inv find own(1)], of "amend_order q"] by (simp add: quantity_of_def)
  next
    case 3
    have "quantity_of b' l = quantity_of (spec_remove oid b) l"
      using spec_add_levels [OF 3(1), of l] opp own(2) 3(2) by (simp add: replace_args_def)
    with spec_remove_levels [OF inv find own(1)] show ?thesis by simp
  qed simp
qed

section \<open>A mirror of the book\<close>

text \<open>A consumer that keeps, per symbol, side and price, the last quantity it was told.\<close>

type_synonym mirror = "symbol_id \<times> bool \<times> price \<Rightarrow> quantity"

fun mirror_apply :: "event \<Rightarrow> mirror \<Rightarrow> mirror" where
  "mirror_apply (BookUpdateEvent u) M = M((be_symbol_id u, be_side u = Buy, be_price u) := be_aggregate_quantity u)"
| "mirror_apply _ M = M"

lemma mirror_trades: "fold mirror_apply (map TradeEvent ts) M = M"
  by (induction ts) simp_all

lemma mirror_updates:
  "fold mirror_apply (map (spec_update seq ts symb b) touched) M (symb', l) =
     (if symb' = symb \<and> l \<in> level_of ` set touched then quantity_of b l else M (symb', l))"
  by (induction touched arbitrary: M)
    (auto simp: spec_update_def spec_quantity_level level_of_def)

lemma mirror_reject [simp]: "mirror_apply (reject_event seq ts symb oid trader r) M = M"
  by (simp add: reject_event_def)

lemma ack_not_update [simp]:
  "mirror_apply (accepted_ack c seq r) M = M" "mirror_apply (modified_ack m seq r') M = M"
  by (simp_all add: accepted_ack_def modified_ack_def)

lemma level_of_touched:
  "level_of ` set (touch_trades s ts touched) = level_of ` set touched \<union> Pair (s \<noteq> Buy) ` t_price ` set ts"
  unfolding set_touch_trades image_Un image_image by (simp add: level_of_def opposite_Buy)

lemma new_touched_set:
  "level_of ` set (new_touched c r) = Pair (nc_side c \<noteq> Buy) ` t_price ` set (ar_trades r) \<union>
     (if ar_remaining_quantity r > 0 \<and> ar_final_status r \<noteq> Cancelled then {(nc_side c = Buy, nc_price c)} else {})"
  unfolding new_touched_def Let_def by (simp add: level_of_touched) (simp add: level_of_def)

lemma modify_touched_set:
  "level_of ` set (modify_touched c x r) = Pair (o_side x \<noteq> Buy) ` t_price ` set (mr_trades r) \<union>
     {(o_side x = Buy, o_price x), (o_side x = Buy, mc_new_price c)}"
  unfolding modify_touched_def Let_def by (simp add: level_of_touched) (auto simp: level_of_def)

lemma new_touched_levels:
  assumes "spec_add a b = (r, b')" "ar_accepted r"
  shows "ar_remaining_quantity r > 0 \<and> ar_final_status r \<noteq> Cancelled \<longleftrightarrow> ar_remaining_quantity r > 0"
proof -
  from spec_add_accepted [OF assms] obtain rem ts where
    "r = (if can_rest a rem then rest_result (sb_symbol_id b) a rem ts else done_result a rem ts)" by blast
  then show ?thesis by (simp add: result_defs resting_order_def)
qed

lemma spec_process_mirror:
  assumes inv: "spec_inv b" and proc: "spec_process seq cmd b = (evs, b')"
    and M: "\<And>l. M (SymbolOf cmd, l) = quantity_of b l"
  shows "fold mirror_apply evs M (SymbolOf cmd, l) = quantity_of b' l"
    and "symb \<noteq> SymbolOf cmd \<Longrightarrow> fold mirror_apply evs M (symb, l) = M (symb, l)"
proof -
  note Ml = M [of l]
  have "fold mirror_apply evs M (SymbolOf cmd, l) = quantity_of b' l \<and>
    (symb \<noteq> SymbolOf cmd \<longrightarrow> fold mirror_apply evs M (symb, l) = M (symb, l))"
  proof (cases cmd)
    case (NewOrderCommand c)
    obtain r where add: "spec_add (new_args c seq) b = (r, b')" using proc NewOrderCommand by (auto split: prod.splits)
    show ?thesis
    proof (cases "ar_accepted r")
      case False
      then have "b' = b" using spec_add_rejected [OF add] by blast
      with False proc add Ml NewOrderCommand show ?thesis by auto
    next
      case True
      have "l \<notin> level_of ` set (new_touched c r) \<Longrightarrow> quantity_of b' l = quantity_of b l"
        using new_touched_levels [OF add True]
        unfolding new_touched_set by (intro spec_add_levels [OF add]) (simp_all add: new_args_def)
      with True proc add Ml NewOrderCommand show ?thesis by (auto simp: mirror_trades mirror_updates)
    qed
  next
    case (CancelCommand c)
    then show ?thesis
      using proc Ml spec_remove_levels [OF inv, of _ _ l]
      by (auto simp: Let_def spec_update_def spec_quantity_level level_of_def split: option.splits)
  next
    case (ModifyCommand c)
    show ?thesis
    proof (cases "spec_find (mc_order_id c) b")
      case None
      with proc Ml ModifyCommand show ?thesis by auto
    next
      case (Some x)
      obtain r where mod: "spec_modify (mc_order_id c) (mc_new_price c) (mc_new_quantity c) seq (mc_timestamp c) b = (r, b')"
        using proc ModifyCommand Some by (auto split: prod.splits)
      show ?thesis
      proof (cases "mr_success r")
        case False
        have "b' = b"
        proof (cases "mc_new_quantity c \<noteq> 0 \<and> Price 0 < mc_new_price c")
          case True
          then have none: "spec_reject (replace_args x (mc_new_price c) (mc_new_quantity c) seq (mc_timestamp c))
              (spec_remove (mc_order_id c) b) = None" using spec_replace_accepted [OF inv Some] by blast
          have "mr_success r"
            using mod Some True none spec_add_accepted_iff
            by (auto simp: spec_modify_def result_defs not_le split: if_splits prod.splits)
          with False show ?thesis by simp
        next
          case False
          with mod Some show ?thesis by (auto simp: spec_modify_def not_less split: if_splits)
        qed
        with False proc Ml ModifyCommand Some mod show ?thesis by auto
      next
        case True
        have "l \<notin> level_of ` set (modify_touched c x r) \<Longrightarrow> quantity_of b' l = quantity_of b l"
          unfolding modify_touched_set by (intro spec_modify_levels [OF inv Some mod]) simp_all
        with True proc Ml ModifyCommand Some mod show ?thesis by (auto simp: mirror_trades mirror_updates)
      qed
    qed
  qed
  then show "fold mirror_apply evs M (SymbolOf cmd, l) = quantity_of b' l"
    and "symb \<noteq> SymbolOf cmd \<Longrightarrow> fold mirror_apply evs M (symb, l) = M (symb, l)" by blast+
qed

section \<open>Whose events they are\<close>

fun event_symbol :: "event \<Rightarrow> symbol_id" where
  "event_symbol (AcceptedEvent v) = ae_symbol_id v"
| "event_symbol (RejectedEvent v) = re_symbol_id v"
| "event_symbol (CancelledEvent v) = ce_symbol_id v"
| "event_symbol (ModifiedEvent v) = me_symbol_id v"
| "event_symbol (TradeEvent v) = t_symbol_id v"
| "event_symbol (BookUpdateEvent v) = be_symbol_id v"

fun event_seq :: "event \<Rightarrow> sequence_number" where
  "event_seq (AcceptedEvent v) = ae_sequence_number v"
| "event_seq (RejectedEvent v) = re_sequence_number v"
| "event_seq (CancelledEvent v) = ce_sequence_number v"
| "event_seq (ModifiedEvent v) = me_sequence_number v"
| "event_seq (TradeEvent v) = t_sequence_number v"
| "event_seq (BookUpdateEvent v) = be_sequence_number v"

lemma event_owner_simps [simp]:
  "event_symbol (reject_event seq ts symb oid trader r) = symb" "event_seq (reject_event seq ts symb oid trader r) = seq"
  "event_symbol (accepted_ack c seq ar) = nc_symbol_id c" "event_seq (accepted_ack c seq ar) = seq"
  "event_symbol (modified_ack m seq mr) = mc_symbol_id m" "event_seq (modified_ack m seq mr) = seq"
  "event_symbol (spec_update seq ts symb b sp) = symb" "event_seq (spec_update seq ts symb b sp) = seq"
  by (simp_all add: reject_event_def accepted_ack_def modified_ack_def spec_update_def)

lemma spec_add_trades:
  assumes "spec_add a b = (r, b')" "t \<in> set (ar_trades r)"
  shows "t_symbol_id t = sb_symbol_id b \<and> t_sequence_number t = a_seq a"
proof (cases "ar_accepted r")
  case True
  from spec_add_accepted [OF assms(1) True] obtain rem where
    "fill (sb_symbol_id b) a (a_quantity a) (queue (a_side a \<noteq> Buy) b) = (rem, ar_trades r, queue (a_side a \<noteq> Buy) b')"
    by metis
  from fill_trades [OF this assms(2)] show ?thesis by simp
next
  case False
  then obtain rr where "r = add_reject rr" using spec_add_rejected [OF assms(1)] by blast
  with assms(2) show ?thesis by (simp add: AddResult_init_def)
qed

lemma spec_modify_trades:
  assumes "spec_modify oid p q seq ts b = (r, b')" "t \<in> set (mr_trades r)"
  shows "t_symbol_id t = sb_symbol_id b \<and> t_sequence_number t = seq"
proof -
  obtain x add where "spec_add (replace_args x p q seq ts) (spec_remove oid b) = (add, b')" "mr_trades r = ar_trades add"
    using assms by (auto simp: spec_modify_def replace_result_def amend_result_def ModifyResult_init_def
        split: option.splits if_splits prod.splits)
  with assms(2) spec_add_trades [of "replace_args x p q seq ts" "spec_remove oid b" add b' t] show ?thesis
    by (simp add: spec_remove_def replace_args_def)
qed

lemma spec_process_owner:
  assumes "spec_process seq cmd b = (evs, b')" "sb_symbol_id b = SymbolOf cmd" "ev \<in> set evs"
  shows "event_symbol ev = SymbolOf cmd \<and> event_seq ev = seq"
proof (cases cmd)
  case (NewOrderCommand c)
  obtain r where add: "spec_add (new_args c seq) b = (r, b')" using assms(1) NewOrderCommand by (auto split: prod.splits)
  have "\<forall>t \<in> set (ar_trades r). t_symbol_id t = sb_symbol_id b \<and> t_sequence_number t = seq"
    using spec_add_trades [OF add] by (simp add: new_args_def)
  with assms add NewOrderCommand show ?thesis by (auto split: if_splits)
next
  case (CancelCommand c)
  with assms show ?thesis by (auto simp: Let_def split: option.splits)
next
  case (ModifyCommand c)
  show ?thesis
  proof (cases "spec_find (mc_order_id c) b")
    case None
    with assms ModifyCommand show ?thesis by auto
  next
    case (Some x)
    obtain r where mod: "spec_modify (mc_order_id c) (mc_new_price c) (mc_new_quantity c) seq (mc_timestamp c) b = (r, b')"
      using assms(1) ModifyCommand Some by (auto split: prod.splits)
    have "\<forall>t \<in> set (mr_trades r). t_symbol_id t = sb_symbol_id b \<and> t_sequence_number t = seq"
      using spec_modify_trades [OF mod] by blast
    with assms mod ModifyCommand Some show ?thesis by (auto split: if_splits)
  qed
qed

lemma spec_process_nonempty: "fst (spec_process seq cmd b) \<noteq> []"
  by (cases cmd) (auto simp: Let_def split: prod.splits option.splits)

section \<open>Time priority\<close>

text \<open>
  A queue in price-time order: a better price first, and at one price the order with the
  smaller sequence number first. The sequence number of an order is that of the command that
  gave it its place.
\<close>

definition earlier :: "bool \<Rightarrow> price \<times> sequence_number \<Rightarrow> price \<times> sequence_number \<Rightarrow> bool" where
  "earlier buy x y \<longleftrightarrow> better buy (fst x) (fst y) \<or> fst x = fst y \<and> snd x < snd y"

definition priority_key :: "order \<Rightarrow> price \<times> sequence_number" where
  "priority_key x = (o_price x, o_sequence_number x)"

definition price_time :: "bool \<Rightarrow> order list \<Rightarrow> bool" where
  "price_time buy os \<longleftrightarrow> sorted_wrt (earlier buy) (map priority_key os)"

definition fifo :: "sequence_number \<Rightarrow> spec_book \<Rightarrow> bool" where
  "fifo n b \<longleftrightarrow>
     (\<forall>buy. price_time buy (queue buy b) \<and> (\<forall>x \<in> set (queue buy b). o_sequence_number x < n))"

lemma fill_keys:
  assumes "fill symb a rem os = (rem', ts, os')"
  shows "\<exists>k. map priority_key os' = drop k (map priority_key os)"
proof -
  from fill_execution [OF assms] obtain k where "execution symb a rem os k rem' ts os'" by blast
  then show ?thesis
    by (intro exI [of _ k]) (auto simp: execution_def drop_map priority_key_def Cons_nth_drop_Suc [symmetric])
qed

lemma fill_price_time:
  assumes "fill symb a rem os = (rem', ts, os')" "price_time buy os" "\<forall>x \<in> set os. o_sequence_number x < n"
  shows "price_time buy os'" "\<forall>x \<in> set os'. o_sequence_number x < n"
proof -
  from fill_keys [OF assms(1)] obtain k where k: "map priority_key os' = drop k (map priority_key os)" by blast
  show "price_time buy os'" using assms(2) unfolding price_time_def k by (rule sorted_wrt_drop)
  have "priority_key ` set os' \<subseteq> priority_key ` set os"
    by (metis k list.set_map set_drop_subset)
  then show "\<forall>x \<in> set os'. o_sequence_number x < n"
    using assms(3) by (force simp: priority_key_def)
qed

lemma place_price_time:
  assumes "price_time buy os" "\<forall>r \<in> set os. o_sequence_number r < o_sequence_number x"
  shows "price_time buy (place buy x os)"
proof (rule place_split [of os buy x])
  fix xs ys
  assume os: "os = xs @ ys" and pl: "place buy x os = xs @ x # ys"
    and xs: "\<forall>r \<in> set xs. \<not> better buy (o_price x) (o_price r)"
    and ys: "prioritised buy os \<longrightarrow> (\<forall>r \<in> set ys. better buy (o_price x) (o_price r))"
  have "sorted_wrt (\<lambda>r r'. \<not> better buy (o_price r') (o_price r)) os"
    using assms(1) unfolding price_time_def sorted_wrt_map
    by (rule sorted_wrt_mono_rel [rotated]) (auto simp: earlier_def priority_key_def better_def split: if_splits)
  then have "prioritised buy os" by (simp add: prioritised_def sorted_wrt_map)
  with ys have after: "\<forall>r \<in> set ys. earlier buy (priority_key x) (priority_key r)"
    by (simp add: earlier_def priority_key_def)
  have before: "\<forall>r \<in> set xs. earlier buy (priority_key r) (priority_key x)"
    using xs assms(2) os by (auto simp: earlier_def priority_key_def better_def split: if_splits)
  show ?thesis
    using assms(1) after before unfolding price_time_def pl unfolding os by (auto simp: sorted_wrt_append)
qed

lemma fifo_add:
  assumes fifo: "fifo n b" and add: "spec_add a b = (r, b')" and seq: "a_seq a = n" and n: "n < n'"
  shows "fifo n' b'"
proof (cases "ar_accepted r")
  case False
  then have "b' = b" using spec_add_rejected [OF add] by blast
  with fifo n show ?thesis by (auto simp: fifo_def intro: order_less_trans)
next
  case True
  from spec_add_accepted [OF add True] obtain rem where
    f: "fill (sb_symbol_id b) a (a_quantity a) (queue (a_side a \<noteq> Buy) b) =
       (rem, ar_trades r, queue (a_side a \<noteq> Buy) b')"
    and q: "queue (a_side a = Buy) b' =
       (if can_rest a rem then
          place (a_side a = Buy) (resting_order (sb_symbol_id b) a rem) (queue (a_side a = Buy) b)
        else queue (a_side a = Buy) b)" by metis
  have old: "price_time buy (queue buy b)" "\<forall>x \<in> set (queue buy b). o_sequence_number x < n" for buy
    using fifo by (auto simp: fifo_def)
  have opp: "price_time (a_side a \<noteq> Buy) (queue (a_side a \<noteq> Buy) b')"
    "\<forall>x \<in> set (queue (a_side a \<noteq> Buy) b'). o_sequence_number x < n"
    using fill_price_time [OF f old] by blast+
  have own: "price_time (a_side a = Buy) (queue (a_side a = Buy) b')"
    "\<forall>x \<in> set (queue (a_side a = Buy) b'). o_sequence_number x \<le> n"
    using q old [of "a_side a = Buy"] seq
    by (auto simp: resting_order_def intro: place_price_time order_less_imp_le split: if_splits)
  have "price_time buy (queue buy b') \<and> (\<forall>x \<in> set (queue buy b'). o_sequence_number x < n')" for buy
  proof (cases "buy = (a_side a = Buy)")
    case True
    with own n show ?thesis by (auto intro: order_le_less_trans)
  next
    case False
    then have "buy = (a_side a \<noteq> Buy)" by blast
    with opp n show ?thesis by (auto intro: order_less_trans)
  qed
  then show ?thesis by (simp add: fifo_def)
qed

lemma fifo_mono: "fifo n b \<Longrightarrow> n < n' \<Longrightarrow> fifo n' b"
  by (auto simp: fifo_def intro: order_less_trans)

lemma fifo_remove: "fifo n b \<Longrightarrow> fifo n (spec_remove oid b)"
proof -
  have "queue buy (spec_remove oid b) = withdraw oid (queue buy b)" for buy
    by (cases buy) (simp_all add: spec_remove_def)
  moreover assume "fifo n b"
  ultimately show ?thesis
    by (auto simp: fifo_def price_time_def sorted_wrt_map withdraw_def intro: sorted_wrt_filter)
qed

lemma fifo_amend:
  assumes "fifo n b" "\<And>x. priority_key (f x) = priority_key x"
  shows "fifo n (b\<lparr>sb_bids := amend oid f (sb_bids b), sb_asks := amend oid f (sb_asks b)\<rparr>)" (is "fifo n ?b")
proof -
  have q: "queue buy ?b = amend oid f (queue buy b)" for buy by (cases buy) simp_all
  have "o_sequence_number (f x) = o_sequence_number x" for x using assms(2) [of x] by (simp add: priority_key_def)
  with assms show ?thesis by (auto simp: fifo_def q price_time_def map_amend) (auto simp: amend_def)
qed

lemma fifo_process:
  assumes fifo: "fifo n b" and proc: "spec_process n cmd b = (evs, b')" and n: "n < n'"
  shows "fifo n' b'"
proof (cases cmd)
  case (NewOrderCommand c)
  obtain r where add: "spec_add (new_args c n) b = (r, b')" using proc NewOrderCommand by (auto split: prod.splits)
  show ?thesis by (rule fifo_add [OF fifo add _ n]) (simp add: new_args_def)
next
  case (CancelCommand c)
  with proc fifo_mono [OF fifo n] fifo_mono [OF fifo_remove [OF fifo] n] show ?thesis
    by (auto simp: Let_def split: option.splits)
next
  case (ModifyCommand c)
  show ?thesis
  proof (cases "spec_find (mc_order_id c) b")
    case None
    with proc ModifyCommand fifo_mono [OF fifo n] show ?thesis by auto
  next
    case (Some x)
    obtain r where mod: "spec_modify (mc_order_id c) (mc_new_price c) (mc_new_quantity c) n (mc_timestamp c) b = (r, b')"
      using proc ModifyCommand Some by (auto split: prod.splits)
    let ?q = "mc_new_quantity c" and ?id = "mc_order_id c"
    consider "b' = b" | "b' = b\<lparr>sb_bids := amend ?id (amend_order ?q) (sb_bids b), sb_asks := amend ?id (amend_order ?q) (sb_asks b)\<rparr>"
      | add where "spec_add (replace_args x (mc_new_price c) ?q n (mc_timestamp c)) (spec_remove ?id b) = (add, b')"
      using mod Some by (auto simp: spec_modify_def split: if_splits prod.splits)
    then show ?thesis
    proof cases
      case 1
      with fifo_mono [OF fifo n] show ?thesis by simp
    next
      case 2
      show ?thesis unfolding 2
        by (rule fifo_mono [OF fifo_amend [OF fifo] n]) (simp add: priority_key_def amend_order_def)
    next
      case 3
      show ?thesis by (rule fifo_add [OF fifo_remove [OF fifo] 3 _ n]) (simp add: replace_args_def)
    qed
  qed
qed

end
