(* ===== verification/Engine_Properties.thy ===== *)
theory Engine_Properties
  imports Engine_Laws Book_Properties
begin

text \<open>
  The correctness of one partition: \<open>MatchingEngine\<close> refines an abstract engine that keeps the
  contract of a book per symbol and a counter. From the refinement follow the determinism of a
  replay, the isolation of the symbols, the completeness of the \<open>BookUpdateEvent\<close> stream and
  the time priority of the resting orders.
\<close>

section \<open>The abstract engine\<close>

type_synonym spec_engine = "sequence_number \<times> (symbol_id \<rightharpoonup> spec_book)"

definition engine_abs :: "engine \<Rightarrow> spec_engine" where
  "engine_abs e = (en_next_seq e, \<lambda>s. map_option naive_abs (engine_FindBook s e))"

definition spec_dispatch :: "command \<Rightarrow> spec_engine \<Rightarrow> event list \<times> spec_engine" where
  "spec_dispatch cmd se =
     (case snd se (SymbolOf cmd) of
        None \<Rightarrow> ([no_symbol (fst se) cmd], (fst se + 1, snd se))
      | Some b \<Rightarrow>
          (fst (spec_process (fst se) cmd b),
           (fst se + 1, (snd se)(SymbolOf cmd \<mapsto> snd (spec_process (fst se) cmd b)))))"

fun spec_engine_run :: "command list \<Rightarrow> spec_engine \<Rightarrow> event list \<times> spec_engine" where
  "spec_engine_run [] se = ([], se)"
| "spec_engine_run (cmd # cmds) se =
     (fst (spec_dispatch cmd se) @ fst (spec_engine_run cmds (snd (spec_dispatch cmd se))),
      snd (spec_engine_run cmds (snd (spec_dispatch cmd se))))"

text \<open>Commands handed to \<open>Process\<close> one after the other, with one vector of events.\<close>

fun engine_run :: "command list \<Rightarrow> engine \<Rightarrow> event list \<Rightarrow> (event list \<times> engine) option" where
  "engine_run [] e out = Some (out, e)"
| "engine_run (cmd # cmds) e out =
     do { (seq, out', e') \<leftarrow> engine_Process cmd e out; engine_run cmds e' out' }"

lemma spec_process_symbol:
  assumes "spec_process seq cmd b = (evs, b')"
  shows "sb_symbol_id b' = sb_symbol_id b"
proof -
  have add: "sb_symbol_id b2 = sb_symbol_id b1" if "spec_add a b1 = (r, b2)" for a r b1 b2
    using that by (auto simp: spec_add_def spec_execute_def Let_def split: option.splits prod.splits if_splits)
  show ?thesis
    using assms
    by (cases cmd)
      (auto simp: Let_def spec_modify_def spec_remove_def split: option.splits prod.splits if_splits dest!: add)
qed

lemma engine_Process_refines:
  assumes inv: "engine_inv e"
  shows "\<exists>e'. engine_Process cmd e out = Some (en_next_seq e, out @ fst (spec_dispatch cmd (engine_abs e)), e') \<and>
    engine_inv e' \<and> engine_abs e' = snd (spec_dispatch cmd (engine_abs e))"
proof (cases "engine_FindBook (SymbolOf cmd) e")
  case None
  with engine_Process_unknown [OF None, of out] inv show ?thesis
    by (simp add: spec_dispatch_def engine_abs_def)
next
  case (Some b)
  let ?e = "e\<lparr>en_next_seq := en_next_seq e + 1\<rparr>"
  obtain b' where b': "engine_Process cmd e out =
       Some (en_next_seq e, out @ fst (spec_process (en_next_seq e) cmd (naive_abs b)), engine_set_book (SymbolOf cmd) b' ?e)"
    "naive_inv b'" "naive_abs b' = snd (spec_process (en_next_seq e) cmd (naive_abs b))"
    by (rule engine_Process_known [OF inv Some])
  have "sb_symbol_id (naive_abs b') = sb_symbol_id (naive_abs b)"
    using spec_process_symbol [of "en_next_seq e" cmd "naive_abs b"] b'(3) by (metis prod.collapse)
  then have "nb_symbol_id b' = SymbolOf cmd"
    using engine_inv_book [OF inv Some] by simp
  then have "engine_inv (engine_set_book (SymbolOf cmd) b' ?e)"
    using engine_inv_set [of ?e b'] inv b'(2) by simp
  with b' Some show ?thesis by (auto simp: spec_dispatch_def engine_abs_def fun_eq_iff)
qed

lemma engine_run_refines:
  assumes "engine_inv e"
  shows "\<exists>e'. engine_run cmds e out = Some (out @ fst (spec_engine_run cmds (engine_abs e)), e') \<and>
    engine_inv e' \<and> engine_abs e' = snd (spec_engine_run cmds (engine_abs e))"
  using assms
proof (induction cmds arbitrary: e out)
  case (Cons cmd cmds)
  obtain e1 where e1: "engine_Process cmd e out = Some (en_next_seq e, out @ fst (spec_dispatch cmd (engine_abs e)), e1)"
    "engine_inv e1" "engine_abs e1 = snd (spec_dispatch cmd (engine_abs e))"
    using engine_Process_refines [OF Cons.prems] by blast
  from Cons.IH [OF e1(2), of "out @ fst (spec_dispatch cmd (engine_abs e))"] e1 show ?case by simp
qed simp

text \<open>The engine of the examples: symbols 1 and 2, and orders of both symbols.\<close>

definition ex_cmd :: "symbol_id \<Rightarrow> order_id \<Rightarrow> side \<Rightarrow> price \<Rightarrow> quantity \<Rightarrow> command" where
  "ex_cmd symb oid s p q = NewOrderCommand \<lparr>nc_order_id = oid, nc_trader_id = 7, nc_symbol_id = symb, nc_side = s,
     nc_type = Limit, nc_price = p, nc_quantity = q, nc_time_in_force = GoodTillCancel, nc_timestamp = 0\<rparr>"

definition ex_engine :: engine where
  "ex_engine = engine_RegisterSymbol 2 (engine_RegisterSymbol 1 (engine_new 0))"

definition ex_cmds :: "command list" where
  "ex_cmds = [ex_cmd 1 1 Sell (Price 100) 5, ex_cmd 1 2 Sell (Price 100) 4, ex_cmd 2 3 Buy (Price 70) 2,
     ex_cmd 1 4 Buy (Price 100) 6]"

lemma ex_engine_inv: "engine_inv ex_engine"
  unfolding ex_engine_def by (intro engine_inv_register engine_inv_new)

text \<open>
  C21. Processing a sequence of commands is always defined and emits, command by command, the
  events that the abstract engine emits; it ends in an engine that represents the abstract
  one's final state. In particular the events depend on the resting orders and the counter
  only, which is what makes a replay of the same commands produce the same events.
\<close>

theorem engine_run_refines_contract:
  assumes "engine_inv e"
  shows "\<exists>e'. engine_run cmds e out = Some (out @ fst (spec_engine_run cmds (engine_abs e)), e') \<and>
    engine_inv e' \<and> engine_abs e' = snd (spec_engine_run cmds (engine_abs e))"
  by (rule engine_run_refines [OF assms])

theorem engine_run_refines_contract_witness:
  "\<exists>e'. engine_run ex_cmds ex_engine [] = Some (fst (spec_engine_run ex_cmds (engine_abs ex_engine)), e') \<and>
     engine_inv e' \<and> length (fst (spec_engine_run ex_cmds (engine_abs ex_engine))) = 10"
proof -
  have "map_option (length \<circ> fst) (engine_run ex_cmds ex_engine []) = Some 10" by code_simp
  with engine_run_refines_contract [OF ex_engine_inv, of ex_cmds "[]"] show ?thesis by auto
qed

section \<open>Isolation of the symbols\<close>

text \<open>The events of a command do not depend on what the vector holds before.\<close>

lemma process_step_appends:
  assumes inv: "engine_inv e"
  shows "\<exists>evs e'. (\<forall>out. engine_Process cmd e out = Some (en_next_seq e, out @ evs, e')) \<and> engine_inv e' \<and>
    (\<forall>symb. engine_OwnsSymbol symb e' = engine_OwnsSymbol symb e)"
proof -
  obtain e' where e': "engine_Process cmd e [] = Some (en_next_seq e, fst (spec_dispatch cmd (engine_abs e)), e')"
    "engine_inv e'" "engine_abs e' = snd (spec_dispatch cmd (engine_abs e))"
    using engine_Process_refines [OF inv, of cmd "[]"] by auto
  have "engine_Process cmd e out = Some (en_next_seq e, out @ fst (spec_dispatch cmd (engine_abs e)), e')" for out
    using e'(1) by (auto simp: engine_Process_def Let_def bind_eq_Some_conv)
  moreover have "engine_OwnsSymbol symb e' = engine_OwnsSymbol symb e" for symb
    using arg_cong [OF e'(3), of "\<lambda>x. snd x symb = None"]
    by (auto simp: engine_abs_def spec_dispatch_def engine_OwnsSymbol_def engine_FindBook_def split: option.splits if_splits)
  ultimately show ?thesis using e'(2) by blast
qed

text \<open>
  C22. \<open>Process\<close> is always defined. It returns the next sequence number and advances the
  counter by one, appends at least one event, and every appended event carries the symbol of
  the command and that number. The books of the other symbols are unchanged and no symbol is
  added or lost; a command for a symbol the partition does not own is answered by one
  \<open>InvalidSymbol\<close> rejection and changes no book.
\<close>

theorem process_isolated:
  assumes inv: "engine_inv e"
  shows "\<exists>evs e'. engine_Process cmd e out = Some (en_next_seq e, out @ evs, e') \<and>
    en_next_seq e' = en_next_seq e + 1 \<and> evs \<noteq> [] \<and>
    (\<forall>ev \<in> set evs. event_symbol ev = SymbolOf cmd \<and> event_seq ev = en_next_seq e) \<and>
    (\<forall>symb. symb \<noteq> SymbolOf cmd \<longrightarrow> engine_FindBook symb e' = engine_FindBook symb e) \<and>
    (\<forall>symb. engine_OwnsSymbol symb e' = engine_OwnsSymbol symb e) \<and>
    (\<not> engine_OwnsSymbol (SymbolOf cmd) e \<longrightarrow>
       evs = [no_symbol (en_next_seq e) cmd] \<and> en_books e' = en_books e)"
proof (cases "engine_FindBook (SymbolOf cmd) e")
  case None
  have "event_symbol (no_symbol n cmd) = SymbolOf cmd \<and> event_seq (no_symbol n cmd) = n" for n
    by (cases cmd) (simp_all add: no_symbol_def)
  with engine_Process_unknown [OF None, of out] show ?thesis by (simp add: engine_OwnsSymbol_def)
next
  case (Some b)
  obtain b' where b': "engine_Process cmd e out =
       Some (en_next_seq e, out @ fst (spec_process (en_next_seq e) cmd (naive_abs b)),
         engine_set_book (SymbolOf cmd) b' (e\<lparr>en_next_seq := en_next_seq e + 1\<rparr>))"
    by (rule engine_Process_known [OF inv Some])
  have "\<forall>ev \<in> set (fst (spec_process (en_next_seq e) cmd (naive_abs b))).
      event_symbol ev = SymbolOf cmd \<and> event_seq ev = en_next_seq e"
    using spec_process_owner [of "en_next_seq e" cmd "naive_abs b"] engine_inv_book [OF inv Some]
    by (metis naive_abs_simps(1) prod.collapse)
  with b' Some spec_process_nonempty show ?thesis
    by (auto simp: engine_OwnsSymbol_def engine_FindBook_def [symmetric])
qed

theorem process_isolated_witness:
  "(\<exists>evs e'. engine_Process (ex_cmd 1 1 Sell (Price 100) 5) ex_engine [] = Some (1, evs, e') \<and>
     engine_FindBook 2 e' = engine_FindBook 2 ex_engine \<and> (\<forall>ev \<in> set evs. event_symbol ev = 1)) \<and>
   (\<exists>evs e'. engine_Process (ex_cmd 9 1 Sell (Price 100) 5) ex_engine [] = Some (1, evs, e') \<and>
     en_books e' = en_books ex_engine)"
proof -
  have v: "en_next_seq ex_engine = 1" "\<not> engine_OwnsSymbol 9 ex_engine" "(2 :: symbol_id) \<noteq> 1" by code_simp+
  have symb: "SymbolOf (ex_cmd s oid sd p q) = s" for s oid sd p q by (simp add: ex_cmd_def)
  from process_isolated [OF ex_engine_inv, of "ex_cmd 1 1 Sell (Price 100) 5" "[]"]
  have one: "\<exists>evs e'. engine_Process (ex_cmd 1 1 Sell (Price 100) 5) ex_engine [] = Some (1, evs, e') \<and>
     engine_FindBook 2 e' = engine_FindBook 2 ex_engine \<and> (\<forall>ev \<in> set evs. event_symbol ev = 1)"
    using v by (auto simp: symb)
  from process_isolated [OF ex_engine_inv, of "ex_cmd 9 1 Sell (Price 100) 5" "[]"]
  have "\<exists>evs e'. engine_Process (ex_cmd 9 1 Sell (Price 100) 5) ex_engine [] = Some (1, evs, e') \<and>
     en_books e' = en_books ex_engine"
    using v by (auto simp: symb)
  with one show ?thesis by blast
qed

section \<open>The book updates are complete\<close>

definition mirrors :: "mirror \<Rightarrow> engine \<Rightarrow> bool" where
  "mirrors M e \<longleftrightarrow>
     (\<forall>symb b s p. engine_FindBook symb e = Some b \<longrightarrow> M (symb, s = Buy, p) = naive_QuantityAt s p b)"

lemma all_side_levels: "(\<forall>s p. P (s = Buy, p)) \<longleftrightarrow> (\<forall>l :: bool \<times> price. P l)"
proof
  assume P: "\<forall>s p. P (s = Buy, p)"
  show "\<forall>l. P l"
  proof
    fix l :: "bool \<times> price"
    obtain buy p where l: "l = (buy, p)" by (cases l)
    show "P l"
      using P [rule_format, of Buy p] P [rule_format, of Sell p] by (cases buy) (simp_all add: l)
  qed
qed simp

lemma mirrors_levels:
  assumes "engine_inv e"
  shows "mirrors M e \<longleftrightarrow> (\<forall>symb b l. engine_FindBook symb e = Some b \<longrightarrow> M (symb, l) = quantity_of (naive_abs b) l)"
proof -
  have "(\<forall>s p. M (symb, s = Buy, p) = naive_QuantityAt s p b) \<longleftrightarrow> (\<forall>l. M (symb, l) = quantity_of (naive_abs b) l)"
    if "engine_FindBook symb e = Some b" for symb b
  proof -
    have "naive_QuantityAt s p b = quantity_of (naive_abs b) (s = Buy, p)" for s p
      using naive_observers(1) [OF engine_inv_book(1) [OF assms that]] by (simp add: spec_quantity_level level_of_def)
    then show ?thesis
      using all_side_levels [of "\<lambda>l. M (symb, l) = quantity_of (naive_abs b) l"] by simp
  qed
  then show ?thesis unfolding mirrors_def by simp
qed

lemma mirrors_process:
  assumes inv: "engine_inv e" and M: "mirrors M e" and proc: "engine_Process cmd e out = Some (seq, out @ evs, e')"
  shows "mirrors (fold mirror_apply evs M) e'"
proof -
  obtain e1 where "engine_Process cmd e out = Some (en_next_seq e, out @ fst (spec_dispatch cmd (engine_abs e)), e1)"
    "engine_inv e1" using engine_Process_refines [OF inv] by blast
  with proc have evs: "evs = fst (spec_dispatch cmd (engine_abs e))" and inv': "engine_inv e'" by simp_all
  show ?thesis
  proof (cases "engine_FindBook (SymbolOf cmd) e")
    case None
    have "mirror_apply (no_symbol n cmd) M = M" for n by (cases cmd) (simp_all add: no_symbol_def)
    moreover have "evs = [no_symbol (en_next_seq e) cmd]" using None evs by (simp add: spec_dispatch_def engine_abs_def)
    ultimately show ?thesis using M proc engine_Process_unknown [OF None, of out] by (auto simp: mirrors_def)
  next
    case (Some b)
    obtain b' where b': "engine_Process cmd e out =
       Some (en_next_seq e, out @ fst (spec_process (en_next_seq e) cmd (naive_abs b)),
         engine_set_book (SymbolOf cmd) b' (e\<lparr>en_next_seq := en_next_seq e + 1\<rparr>))"
      "naive_abs b' = snd (spec_process (en_next_seq e) cmd (naive_abs b))"
      by (rule engine_Process_known [OF inv Some])
    have sp: "spec_process (en_next_seq e) cmd (naive_abs b) = (evs, naive_abs b')"
      using b' proc by (simp add: prod_eq_iff)
    have Mb: "M (SymbolOf cmd, l) = quantity_of (naive_abs b) l" for l
      using M Some mirrors_levels [OF inv] by blast
    note mirror = spec_process_mirror [OF naive_inv_spec [OF engine_inv_book(1) [OF inv Some]] sp Mb]
    have e': "e' = engine_set_book (SymbolOf cmd) b' (e\<lparr>en_next_seq := en_next_seq e + 1\<rparr>)" using b'(1) proc by simp
    show ?thesis
      unfolding mirrors_levels [OF inv'] unfolding e'
      using mirror M [unfolded mirrors_levels [OF inv]] by auto
  qed
qed

lemma mirrors_run:
  assumes "engine_inv e" "mirrors M e" "engine_run cmds e out = Some (out @ evs, e')"
  shows "mirrors (fold mirror_apply evs M) e'"
  using assms
proof (induction cmds arbitrary: e e' M out evs)
  case (Cons cmd cmds)
  obtain e1 where e1: "engine_Process cmd e out = Some (en_next_seq e, out @ fst (spec_dispatch cmd (engine_abs e)), e1)"
    "engine_inv e1" using engine_Process_refines [OF Cons.prems(1)] by blast
  let ?out = "out @ fst (spec_dispatch cmd (engine_abs e))"
  obtain e2 where e2: "engine_run cmds e1 ?out = Some (?out @ fst (spec_engine_run cmds (engine_abs e1)), e2)"
    using engine_run_refines [OF e1(2)] by blast
  have "mirrors (fold mirror_apply (fst (spec_dispatch cmd (engine_abs e))) M) e1"
    by (rule mirrors_process [OF Cons.prems(1,2) e1(1)])
  from Cons.IH [OF e1(2) this e2] e1(1) e2 Cons.prems(3) show ?case by auto
qed simp

text \<open>
  C23. A consumer that starts from the quantities of every level and overwrites one level per
  \<open>BookUpdateEvent\<close> holds, after any sequence of commands, exactly what \<open>QuantityAt\<close> answers for
  every symbol, side and price: no change of a level goes unreported.
\<close>

theorem updates_complete:
  assumes "engine_inv e" "mirrors M e"
  shows "\<exists>evs e'. engine_run cmds e [] = Some (evs, e') \<and>
    (\<forall>symb b s p. engine_FindBook symb e' = Some b \<longrightarrow>
       fold mirror_apply evs M (symb, s = Buy, p) = naive_QuantityAt s p b)"
proof -
  obtain evs e' where r: "engine_run cmds e [] = Some (evs, e')" using engine_run_refines [OF assms(1), of cmds "[]"] by auto
  with mirrors_run [OF assms, of cmds "[]" evs e'] show ?thesis by (simp add: mirrors_def)
qed

theorem updates_complete_witness:
  "\<exists>evs e' b. engine_run ex_cmds ex_engine [] = Some (evs, e') \<and> engine_FindBook 1 e' = Some b \<and>
     fold mirror_apply evs (\<lambda>_. 0) (1, False, Price 100) = 3 \<and> naive_QuantityAt Sell (Price 100) b = 3"
proof -
  have "mirrors (\<lambda>_. 0) ex_engine"
    by (auto simp: mirrors_def ex_engine_def engine_RegisterSymbol_def engine_new_def engine_FindBook_def naive_new_def
        naive_QuantityAt_def level_quantity_def split: if_splits)
  from updates_complete [OF ex_engine_inv this, of ex_cmds] obtain evs e' where
    r: "engine_run ex_cmds ex_engine [] = Some (evs, e')"
    and q: "\<And>symb b s p. engine_FindBook symb e' = Some b \<Longrightarrow>
       fold mirror_apply evs (\<lambda>_. 0) (symb, s = Buy, p) = naive_QuantityAt s p b" by blast
  have "Option.bind (engine_run ex_cmds ex_engine []) (\<lambda>r. map_option (naive_QuantityAt Sell (Price 100)) (engine_FindBook 1 (snd r)))
      = Some 3" by code_simp
  then obtain b where b: "engine_FindBook 1 e' = Some b" "naive_QuantityAt Sell (Price 100) b = 3" using r by auto
  with q [OF b(1), of Sell "Price 100"] r show ?thesis by auto
qed

section \<open>Time priority\<close>

text \<open>The engines that a partition can hold after \<open>n\<close> commands, symbols being registered at any time.\<close>

inductive engine_history :: "nat \<Rightarrow> engine \<Rightarrow> bool" where
  start: "engine_history 0 (engine_new i)"
| register: "engine_history n e \<Longrightarrow> engine_history n (engine_RegisterSymbol symb e)"
| process: "engine_history n e \<Longrightarrow> engine_Process cmd e out = Some (seq, out', e') \<Longrightarrow> engine_history (Suc n) e'"

lemma unat_u64: "n < 2 ^ 64 \<Longrightarrow> unat (word_of_nat n :: u64) = n"
  by (simp add: unsigned_of_nat take_bit_nat_eq_self)

lemma engine_process_step:
  assumes "engine_inv e" "engine_Process cmd e out = Some (seq, out', e')"
  shows "engine_inv e'" "engine_abs e' = snd (spec_dispatch cmd (engine_abs e))" "en_next_seq e' = en_next_seq e + 1"
proof -
  show inv: "engine_inv e'" and abs: "engine_abs e' = snd (spec_dispatch cmd (engine_abs e))"
    using engine_Process_refines [OF assms(1), of cmd out] assms(2) by auto
  from arg_cong [OF abs, of fst] show "en_next_seq e' = en_next_seq e + 1"
    by (simp add: engine_abs_def spec_dispatch_def split: option.splits)
qed

lemma engine_history_inv: "engine_history n e \<Longrightarrow> engine_inv e \<and> en_next_seq e = word_of_nat (Suc n)"
proof (induction rule: engine_history.induct)
  case (register n e symb)
  then show ?case
    using engine_inv_register [of e symb] by (simp add: engine_RegisterSymbol_def split: option.splits)
next
  case (process n e cmd out seq out' e')
  then show ?case using engine_process_step [of e cmd out seq out' e'] by simp
qed (simp_all add: engine_inv_new, simp add: engine_new_def)

lemma engine_history_fifo:
  assumes "engine_history n e" "n < 2 ^ 64 - 1" "engine_FindBook symb e = Some b"
  shows "fifo (en_next_seq e) (naive_abs b)"
  using assms
proof (induction arbitrary: symb b rule: engine_history.induct)
  case (start i)
  then show ?case by (simp add: engine_new_def engine_FindBook_def)
next
  case (register n e s)
  have "fifo m (naive_abs (naive_new s))" for m
    by (simp add: fifo_def price_time_def naive_new_def naive_abs_def queue_def)
  with register show ?case
    by (auto simp: engine_RegisterSymbol_def engine_FindBook_def update_conv' split: option.splits if_splits)
next
  case (process n e cmd out seq out' e')
  have inv: "engine_inv e" "en_next_seq e = word_of_nat (Suc n)" using engine_history_inv [OF process.hyps(1)] by simp_all
  note step = engine_process_step [OF inv(1) process.hyps(2)]
  have less: "en_next_seq e < en_next_seq e'"
    using process.prems(1) unat_u64 [of "Suc n"] unat_u64 [of "Suc (Suc n)"]
    unfolding step(3) inv(2) by (simp add: word_less_nat_alt add.commute)
  have "map_option naive_abs (engine_FindBook symb e') = snd (snd (spec_dispatch cmd (engine_abs e))) symb"
    using arg_cong [OF step(2), of "\<lambda>x. snd x symb"] by (simp add: engine_abs_def)
  then have ab: "snd (snd (spec_dispatch cmd (engine_abs e))) symb = Some (naive_abs b)"
    using process.prems(2) by simp
  have old: "fifo (en_next_seq e) b0" if "map_option naive_abs (engine_FindBook symb e) = Some b0" for b0
    using process.IH [of symb] process.prems(1) that by auto
  show ?case
  proof (cases "symb = SymbolOf cmd \<and> engine_FindBook symb e \<noteq> None")
    case True
    then obtain b0 where b0: "engine_FindBook symb e = Some b0" by blast
    then have "spec_process (en_next_seq e) cmd (naive_abs b0) = (fst (spec_process (en_next_seq e) cmd (naive_abs b0)), naive_abs b)"
      using True ab by (simp add: spec_dispatch_def engine_abs_def prod_eq_iff)
    from fifo_process [OF old this less] b0 show ?thesis by simp
  next
    case False
    then have "map_option naive_abs (engine_FindBook symb e) = Some (naive_abs b)"
      using ab by (auto simp: spec_dispatch_def engine_abs_def split: option.splits if_splits)
    from fifo_mono [OF old [OF this] less] show ?thesis .
  qed
qed

lemma engine_history_run:
  assumes "engine_history n e" "engine_run cmds e out = Some (out', e')"
  shows "engine_history (n + length cmds) e'"
  using assms
proof (induction cmds arbitrary: n e out)
  case (Cons cmd cmds)
  then obtain seq out1 e1 where "engine_Process cmd e out = Some (seq, out1, e1)" "engine_run cmds e1 out1 = Some (out', e')"
    by (auto simp: bind_eq_Some_conv split: prod.splits)
  with Cons.IH [of "Suc n" e1 out1] Cons.prems(1) show ?case by (auto intro: engine_history.process)
qed simp

text \<open>
  C25. After fewer than \<open>2^64 - 1\<close> commands the counter has not wrapped and counts them, and on
  every side of every book a better price comes before a worse one and, at one price, an order
  comes before another exactly as the command that placed it was processed before; matching
  consumes the side from the front. No two resting orders of a side carry the same sequence
  number at one price.
\<close>

theorem resting_orders_in_time_priority:
  assumes "engine_history n e" "n < 2 ^ 64 - 1" "engine_FindBook symb e = Some b"
  shows "unat (en_next_seq e) = n + 1 \<and> price_time True (flat (nb_bids b)) \<and> price_time False (flat (nb_asks b)) \<and>
    (\<forall>x \<in> set (naive_AllRestingOrders b). unat (o_sequence_number x) \<le> n)"
proof -
  have inv: "engine_inv e" "en_next_seq e = word_of_nat (Suc n)" using engine_history_inv [OF assms(1)] by simp_all
  have seq: "unat (en_next_seq e) = n + 1" unfolding inv(2) using assms(2) unat_u64 [of "Suc n"] by simp
  have f: "fifo (en_next_seq e) (naive_abs b)" by (rule engine_history_fifo [OF assms])
  then have q: "price_time True (flat (nb_bids b))" "price_time False (flat (nb_asks b))"
    "\<forall>x \<in> set (flat (nb_bids b)) \<union> set (flat (nb_asks b)). o_sequence_number x < en_next_seq e"
    by (auto simp: fifo_def all_bool_eq)
  have "naive_AllRestingOrders b = flat (nb_bids b) @ flat (nb_asks b)"
    using naive_observers(8) [OF engine_inv_book(1) [OF inv(1) assms(3)]] by (simp add: all_orders_def)
  with q(3) seq have "\<forall>x \<in> set (naive_AllRestingOrders b). unat (o_sequence_number x) \<le> n"
    by (simp add: word_less_nat_alt ball_Un less_Suc_eq_le)
  with q seq show ?thesis by simp
qed

theorem resting_orders_in_time_priority_witness:
  "\<exists>e b. engine_history 2 e \<and> engine_FindBook 1 e = Some b \<and> price_time False (flat (nb_asks b)) \<and>
     map o_id (flat (nb_asks b)) = [1, 2]"
proof -
  have "engine_history 0 ex_engine" unfolding ex_engine_def by (intro engine_history.register engine_history.start)
  moreover have "Option.bind (engine_run (take 2 ex_cmds) ex_engine []) (\<lambda>r. map_option (\<lambda>b. map o_id (flat (nb_asks b)))
      (engine_FindBook 1 (snd r))) = Some [1, 2]" by code_simp
  ultimately obtain evs e b where r: "engine_run (take 2 ex_cmds) ex_engine [] = Some (evs, e)"
    "engine_FindBook 1 e = Some b" "map o_id (flat (nb_asks b)) = [1, 2]" "engine_history 0 ex_engine"
    by (auto simp: bind_eq_Some_conv)
  have "length (take 2 ex_cmds) = 2" by (simp add: ex_cmds_def)
  with engine_history_run [OF r(4,1)] have h: "engine_history 2 e" by simp
  from resting_orders_in_time_priority [OF h _ r(2)] h r show ?thesis by auto
qed

end
