(* ===== verification/Event_Types.thy ===== *)
theory Event_Types
  imports Engine_Properties
begin

text \<open>
  Well-formedness of the events that \<open>MatchingEngine::Process\<close> emits. The bytes of a command's
  enums are not checked anywhere, and a printed report shows its status and reason through
  \<open>to_string\<close>; the lemmas show that whatever the command, its events carry enumerators and
  quantities that agree with each other.
\<close>

text \<open>What the fields of an event promise to its reader.\<close>

fun event_ok :: "event \<Rightarrow> bool" where
  "event_ok (AcceptedEvent e) \<longleftrightarrow>
     0 < ae_quantity e \<and> unat (ae_filled_quantity e) + unat (ae_remaining_quantity e) \<le> unat (ae_quantity e) \<and>
     (ae_status e = New \<and> ae_filled_quantity e = 0 \<and> ae_remaining_quantity e = ae_quantity e \<or>
      ae_status e = PartiallyFilled \<and> 0 < ae_filled_quantity e \<and> 0 < ae_remaining_quantity e \<and>
        ae_filled_quantity e + ae_remaining_quantity e = ae_quantity e \<or>
      ae_status e = Filled \<and> ae_filled_quantity e = ae_quantity e \<and> ae_remaining_quantity e = 0 \<or>
      ae_status e = Cancelled \<and> ae_filled_quantity e < ae_quantity e \<and> ae_remaining_quantity e = 0)"
| "event_ok (RejectedEvent e) \<longleftrightarrow>
     re_reason e \<in> {InvalidSymbol, InvalidPrice, InvalidQuantity, UnknownOrder, DuplicateOrderId,
                    MarketOrderNoLiquidity, FillOrKillNotFilled}"
| "event_ok (TradeEvent t) \<longleftrightarrow> 0 < t_quantity t \<and> Price 0 < t_price t"
| "event_ok (ModifiedEvent e) \<longleftrightarrow> Price 0 < me_new_price e"
| "event_ok (CancelledEvent e) \<longleftrightarrow> True"
| "event_ok (BookUpdateEvent e) \<longleftrightarrow> True"

lemma fill_trades_ok:
  "fill symb a rem os = (rem', ts, os') \<Longrightarrow> \<forall>x \<in> set os. 0 < o_remaining_quantity x \<and> Price 0 < o_price x \<Longrightarrow>
   \<forall>t \<in> set ts. 0 < t_quantity t \<and> Price 0 < t_price t"
proof (induction symb a rem os arbitrary: rem' ts os' rule: fill.induct)
  case (2 symb a rem r rs)
  have "0 < rem" if "rem \<noteq> 0" using that by (simp add: word_gt_0)
  with 2 show ?case by (auto simp: make_trade_def split: if_splits prod.splits)
qed simp

lemma spec_reject_reason:
  "spec_reject a b = Some r \<Longrightarrow>
   r \<in> {InvalidPrice, InvalidQuantity, UnknownOrder, DuplicateOrderId, MarketOrderNoLiquidity, FillOrKillNotFilled}"
  by (auto simp: spec_reject_def split: if_splits)

lemma spec_add_ok:
  assumes inv: "spec_inv b" and add: "spec_add a b = (r, b')"
  shows "ar_accepted r \<Longrightarrow> \<forall>t \<in> set (ar_trades r). 0 < t_quantity t \<and> Price 0 < t_price t"
    and "\<not> ar_accepted r \<Longrightarrow> ar_reject_reason r \<in> {InvalidPrice, InvalidQuantity, UnknownOrder, DuplicateOrderId,
      MarketOrderNoLiquidity, FillOrKillNotFilled}"
    and "ar_accepted r \<Longrightarrow> a_quantity a = nc_quantity c \<Longrightarrow> event_ok (accepted_ack c seq r)"
proof -
  show "ar_reject_reason r \<in> {InvalidPrice, InvalidQuantity, UnknownOrder, DuplicateOrderId,
      MarketOrderNoLiquidity, FillOrKillNotFilled}" if "\<not> ar_accepted r"
    using add that spec_reject_reason [of a b]
    by (auto simp: spec_add_def spec_execute_def result_defs Let_def split: option.splits prod.splits if_splits)
  obtain rem ts opp where f: "fill (sb_symbol_id b) a (a_quantity a) (queue (a_side a \<noteq> Buy) b) = (rem, ts, opp)"
    by (metis prod_cases3)
  have ok: "\<forall>x \<in> set (queue (a_side a \<noteq> Buy) b). 0 < o_remaining_quantity x \<and> Price 0 < o_price x"
    using inv by (simp add: spec_inv_def order_ok_def)
  have r: "r = (if can_rest a rem then rest_result (sb_symbol_id b) a rem ts else done_result a rem ts)" "a_quantity a \<noteq> 0"
    if "ar_accepted r"
    using add that f
    by (auto simp: spec_add_def spec_execute_def spec_reject_def Let_def AddResult_init_def split: if_splits)
  show "\<forall>t \<in> set (ar_trades r). 0 < t_quantity t \<and> Price 0 < t_price t" if "ar_accepted r"
    using fill_trades_ok [OF f ok] r(1) [OF that] by (simp add: result_defs)
  show "event_ok (accepted_ack c seq r)" if acc: "ar_accepted r" and q: "a_quantity a = nc_quantity c"
  proof -
    have le: "rem \<le> a_quantity a" by (rule fill_filled(2) [OF f])
    then have sub: "unat (a_quantity a - rem) = unat (a_quantity a) - unat rem" "unat rem \<le> unat (a_quantity a)"
      by (simp_all add: unat_sub word_le_nat_alt)
    have "0 < a_quantity a" using r(2) [OF acc] by (simp add: word_gt_0)
    moreover have "rem = a_quantity a" if "\<not> 0 < a_quantity a - rem" using that by (simp add: word_gt_0)
    moreover have "a_quantity a - rem < a_quantity a" if "a_quantity a - rem \<noteq> a_quantity a"
      using that sub by (auto simp: word_less_nat_alt word_unat_eq_iff)
    ultimately show ?thesis
      using r(1) [OF acc] sub q
      by (cases "can_rest a rem"; cases "0 < a_quantity a - rem")
        (auto simp: accepted_ack_def result_defs resting_order_def can_rest_def)
  qed
qed

lemma spec_modify_ok:
  assumes inv: "spec_inv b" and m: "spec_modify oid p q seq ts b = (r, b')"
  shows "mr_success r \<Longrightarrow> Price 0 < p \<and> (\<forall>t \<in> set (mr_trades r). 0 < t_quantity t \<and> Price 0 < t_price t)"
    and "\<not> mr_success r \<Longrightarrow> mr_reject_reason r \<in> {InvalidPrice, InvalidQuantity, UnknownOrder, DuplicateOrderId,
      MarketOrderNoLiquidity, FillOrKillNotFilled}"
proof -
  consider (refused) "r = modify_reject UnknownOrder \<or> r = modify_reject InvalidQuantity \<or> r = modify_reject InvalidPrice"
    | (amended) "r = amend_result q" "Price 0 < p"
    | (replaced) x add where "spec_add (replace_args x p q seq ts) (spec_remove oid b) = (add, b')" "r = replace_result add" "Price 0 < p"
    using m by (auto simp: spec_modify_def not_le split: option.splits if_splits prod.splits)
  then have "(mr_success r \<longrightarrow> Price 0 < p \<and> (\<forall>t \<in> set (mr_trades r). 0 < t_quantity t \<and> Price 0 < t_price t)) \<and>
    (\<not> mr_success r \<longrightarrow> mr_reject_reason r \<in> {InvalidPrice, InvalidQuantity, UnknownOrder, DuplicateOrderId,
      MarketOrderNoLiquidity, FillOrKillNotFilled})"
  proof cases
    case replaced
    from spec_add_ok(1,2) [OF spec_remove_inv [OF inv] replaced(1)] replaced(2,3) show ?thesis by (simp add: result_defs)
  qed (auto simp: result_defs)
  then show "mr_success r \<Longrightarrow> Price 0 < p \<and> (\<forall>t \<in> set (mr_trades r). 0 < t_quantity t \<and> Price 0 < t_price t)"
    and "\<not> mr_success r \<Longrightarrow> mr_reject_reason r \<in> {InvalidPrice, InvalidQuantity, UnknownOrder, DuplicateOrderId,
      MarketOrderNoLiquidity, FillOrKillNotFilled}" by blast+
qed

lemma event_ok_update [simp]: "event_ok (spec_update seq ts symb b sp)"
  by (simp add: spec_update_def)

lemma event_ok_reject: "event_ok (reject_event seq ts symb oid trader r) \<longleftrightarrow>
    r \<in> {InvalidSymbol, InvalidPrice, InvalidQuantity, UnknownOrder, DuplicateOrderId, MarketOrderNoLiquidity, FillOrKillNotFilled}"
  by (simp add: reject_event_def)

lemma spec_process_ok:
  assumes inv: "spec_inv b" and proc: "spec_process seq cmd b = (evs, b')" and ev: "ev \<in> set evs"
  shows "event_ok ev"
proof (cases cmd)
  case (NewOrderCommand c)
  obtain r where add: "spec_add (new_args c seq) b = (r, b')" using proc NewOrderCommand by (auto split: prod.splits)
  have q: "a_quantity (new_args c seq) = nc_quantity c" by (simp add: new_args_def)
  show ?thesis
  proof (cases "ar_accepted r")
    case True
    from spec_add_ok(3) [OF inv add True q, of seq] spec_add_ok(1) [OF inv add True] True proc ev add NewOrderCommand show ?thesis
      by auto
  next
    case False
    from spec_add_ok(2) [OF inv add False] False proc ev add NewOrderCommand show ?thesis by (auto simp: event_ok_reject)
  qed
next
  case (CancelCommand c)
  with proc ev show ?thesis by (auto simp: Let_def event_ok_reject split: option.splits)
next
  case (ModifyCommand c)
  show ?thesis
  proof (cases "spec_find (mc_order_id c) b")
    case None
    with ModifyCommand proc ev show ?thesis by (auto simp: event_ok_reject)
  next
    case (Some x)
    obtain r where md: "spec_modify (mc_order_id c) (mc_new_price c) (mc_new_quantity c) seq (mc_timestamp c) b = (r, b')"
      using proc ModifyCommand Some by (auto split: prod.splits)
    show ?thesis
    proof (cases "mr_success r")
      case True
      from spec_modify_ok(1) [OF inv md True] True Some md ModifyCommand proc ev show ?thesis by (auto simp: modified_ack_def)
    next
      case False
      from spec_modify_ok(2) [OF inv md False] False Some md ModifyCommand proc ev show ?thesis by (auto simp: event_ok_reject)
    qed
  qed
qed

lemma event_ok_named:
  "event_ok (AcceptedEvent a) \<Longrightarrow> to_string_status (ae_status a) \<noteq> ''UNKNOWN''"
  "event_ok (RejectedEvent r) \<Longrightarrow> to_string_reason (re_reason r) \<notin> {''UNKNOWN'', ''NONE''}"
  by (auto simp: to_string_status_def to_string_reason_def)



end
