(* ===== verification/Spsc_Queue.thy ===== *)
theory Spsc_Queue
  imports ME_Prelude
begin

text \<open>
  \<open>include/matching_engine/spsc_queue.hpp\<close>: the bounded single-producer single-consumer ring
  buffer. The cursors are 64-bit words that wrap; the buffer has a power-of-two number of slots
  and is indexed by the low bits of a cursor. An index past the buffer would be undefined and is
  \<open>None\<close>. A slot that was moved from keeps its old value here; it is not read again before it is
  written.

  This theory has the two operations as each thread runs them undisturbed, and shows that they
  implement a bounded first-in first-out queue, for any number of operations: the wrap-around of
  the cursors is invisible. The theory \<open>Spsc_Threads\<close> interleaves the threads.
\<close>

unbundle bit_operations_syntax

section \<open>The queue\<close>

record 'a spsc =
  sq_mask :: u64
  sq_buffer :: "'a list"
  sq_head :: u64
  sq_cached_tail :: u64
  sq_tail :: u64
  sq_cached_head :: u64

datatype spsc_error = InvalidArgument

text \<open>The buffer of \<open>capacity\<close> default values \<open>d\<close> is made before the capacity is checked.\<close>

definition spsc_new :: "'a \<Rightarrow> u64 \<Rightarrow> spsc_error + 'a spsc" where
  "spsc_new d cap =
     (let q = \<lparr>sq_mask = cap - 1, sq_buffer = replicate (unat cap) d, sq_head = 0, sq_cached_tail = 0,
               sq_tail = 0, sq_cached_head = 0\<rparr>
      in if cap = 0 \<or> cap AND (cap - 1) \<noteq> 0 then Inl InvalidArgument else Inr q)"

definition spsc_size :: "'a spsc \<Rightarrow> u64" where
  "spsc_size q = word_of_nat (length (sq_buffer q))"

definition spsc_store :: "u64 \<Rightarrow> 'a \<Rightarrow> 'a spsc \<Rightarrow> 'a spsc option" where
  "spsc_store i v q =
     (if unat i < length (sq_buffer q) then Some (q\<lparr>sq_buffer := (sq_buffer q)[unat i := v]\<rparr>) else None)"

definition spsc_load :: "u64 \<Rightarrow> 'a spsc \<Rightarrow> 'a option" where
  "spsc_load i q = (if unat i < length (sq_buffer q) then Some (sq_buffer q ! unat i) else None)"

definition spsc_TryPush :: "'a \<Rightarrow> 'a spsc \<Rightarrow> (bool \<times> 'a spsc) option" where
  "spsc_TryPush v q =
     (let head = sq_head q; next = head + 1;
          q1 = (if next - sq_cached_tail q > spsc_size q then q\<lparr>sq_cached_tail := sq_tail q\<rparr> else q)
      in if next - sq_cached_tail q > spsc_size q \<and> next - sq_cached_tail q1 > spsc_size q1
         then Some (False, q1)
         else do {
           q2 \<leftarrow> spsc_store (head AND sq_mask q1) v q1;
           Some (True, q2\<lparr>sq_head := next\<rparr>)
         })"

definition spsc_TryPop :: "'a spsc \<Rightarrow> ('a option \<times> 'a spsc) option" where
  "spsc_TryPop q =
     (let tail = sq_tail q;
          q1 = (if tail = sq_cached_head q then q\<lparr>sq_cached_head := sq_head q\<rparr> else q)
      in if tail = sq_cached_head q \<and> tail = sq_cached_head q1
         then Some (None, q1)
         else do {
           out \<leftarrow> spsc_load (tail AND sq_mask q1) q1;
           Some (Some out, q1\<lparr>sq_tail := tail + 1\<rparr>)
         })"

definition spsc_SizeApprox :: "'a spsc \<Rightarrow> u64" where
  "spsc_SizeApprox q = sq_head q - sq_tail q"

definition spsc_capacity :: "'a spsc \<Rightarrow> nat" where
  "spsc_capacity q = length (sq_buffer q)"

section \<open>Cursors\<close>

text \<open>
  A ring of \<open>2^k\<close> slots whose cursors count \<open>H\<close> pushes and \<open>T\<close> pops, with copies \<open>CT\<close> and \<open>CH\<close>
  of the other side's count that may be old.
\<close>

definition ring :: "nat \<Rightarrow> nat \<Rightarrow> nat \<Rightarrow> nat \<Rightarrow> nat \<Rightarrow> 'a spsc \<Rightarrow> bool" where
  "ring k H CT T CH q \<longleftrightarrow>
     k < 64 \<and> length (sq_buffer q) = 2 ^ k \<and> sq_mask q = mask k \<and>
     sq_head q = word_of_nat H \<and> sq_cached_tail q = word_of_nat CT \<and>
     sq_tail q = word_of_nat T \<and> sq_cached_head q = word_of_nat CH \<and>
     CT \<le> T \<and> T \<le> CH \<and> CH \<le> H \<and> H \<le> CT + 2 ^ k"

lemma power_of_two_cap:
  fixes cap :: u64
  assumes "cap \<noteq> 0" "cap AND (cap - 1) = 0"
  obtains k where "k < 64" "unat cap = 2 ^ k" "cap - 1 = mask k"
proof -
  have pos: "1 \<le> unat cap" using assms(1) by (simp add: Suc_le_eq unat_gt_0)
  obtain k where k: "2 ^ k \<le> unat cap" "unat cap < 2 ^ (k + 1)" using ex_power_ivl1 [of 2 "unat cap"] pos by auto
  have less: "unat cap < 2 ^ 64" using unsigned_less [of cap] by simp
  have "k < 64"
  proof (rule ccontr)
    assume "\<not> k < 64"
    then have "(2 :: nat) ^ 64 \<le> 2 ^ k" by (intro power_increasing) simp_all
    with k(1) less show False by linarith
  qed
  have dec: "unat (cap - 1) = unat cap - 1" using pos by (simp add: unat_sub word_le_nat_alt)
  have bit: "bit x k \<longleftrightarrow> odd (unat x div 2 ^ k)" for x :: u64
  proof -
    have "bit x k \<longleftrightarrow> bit (unat x) k" by (simp add: bit_unsigned_iff)
    also have "\<dots> \<longleftrightarrow> odd (unat x div 2 ^ k)" by (rule bit_iff_odd)
    finally show ?thesis .
  qed
  have "unat cap = 2 ^ k"
  proof (rule ccontr)
    assume "unat cap \<noteq> 2 ^ k"
    with k have "unat cap div 2 ^ k = 1" "(unat cap - 1) div 2 ^ k = 1" by (simp_all add: div_nat_eqI)
    then have "bit cap k" "bit (cap - 1) k" by (simp_all add: bit dec)
    then have "bit (cap AND (cap - 1)) k" by (simp add: bit_and_iff)
    with assms(2) show False by simp
  qed
  moreover have "cap - 1 = mask k"
    using arg_cong [OF calculation, of "word_of_nat :: nat \<Rightarrow> u64"] by (simp add: mask_eq_exp_minus_1)
  ultimately show thesis using that [OF \<open>k < 64\<close>] by blast
qed

text \<open>Differences of cursors are exact while they are below \<open>2^64\<close>, whatever the counts are.\<close>

lemma cursor_diff:
  assumes "a \<le> b" "b - a < 2 ^ 64"
  shows "unat (word_of_nat b - word_of_nat a :: u64) = b - a"
proof -
  have "word_of_nat b - word_of_nat a = (word_of_nat (b - a) :: u64)" using assms(1) by simp
  with assms(2) show ?thesis by (simp add: unsigned_of_nat take_bit_nat_eq_self)
qed

lemma unat_small: "n \<le> 2 ^ 63 \<Longrightarrow> unat (word_of_nat n :: u64) = n"
  by (simp add: unsigned_of_nat take_bit_nat_eq_self)

lemma power_below: "k < 64 \<Longrightarrow> (2 :: nat) ^ k \<le> 2 ^ 63"
  by (rule power_increasing) simp_all

lemma cursor_slot:
  assumes "k < 64"
  shows "unat (word_of_nat n AND mask k :: u64) = n mod 2 ^ k"
proof -
  have "word_of_nat n AND mask k = (word_of_nat (take_bit k n) :: u64)"
    by (simp add: take_bit_eq_mask [symmetric] take_bit_of_nat)
  moreover have "take_bit k n < 2 ^ 64"
    by (rule order_less_trans [OF order_less_le_trans [OF take_bit_nat_less_exp power_below [OF assms]]]) simp
  ultimately show ?thesis
    using assms by (simp add: unsigned_of_nat take_bit_nat_eq_self) (simp add: take_bit_eq_mod min_def)
qed

lemma ring_full:
  assumes "ring k H CT T CH q" "CT \<le> c" "c \<le> H"
  shows "word_of_nat H + 1 - word_of_nat c > spsc_size q \<longleftrightarrow> H = c + 2 ^ k"
proof -
  have k: "k < 64" "length (sq_buffer q) = 2 ^ k" "H \<le> CT + 2 ^ k" using assms(1) by (simp_all add: ring_def)
  note p = power_below [OF k(1)]
  have "unat (word_of_nat (H + 1) - word_of_nat c :: u64) = H + 1 - c" using assms(2,3) k p by (intro cursor_diff) simp_all
  moreover have "unat (spsc_size q) = 2 ^ k"
    unfolding spsc_size_def k(2) by (rule unat_small [OF p])
  ultimately show ?thesis using assms(2,3) k(3) by (auto simp: word_less_nat_alt add.commute)
qed

lemma ring_empty:
  assumes "ring k H CT T CH q" "T \<le> c" "c \<le> H"
  shows "word_of_nat T = (word_of_nat c :: u64) \<longleftrightarrow> T = c"
proof -
  have k: "k < 64" "H \<le> CT + 2 ^ k" "CT \<le> T" using assms(1) by (simp_all add: ring_def)
  note p = power_below [OF k(1)]
  have "unat (word_of_nat c - word_of_nat T :: u64) = c - T" using assms(2,3) k p by (intro cursor_diff) simp_all
  then show ?thesis using assms(2) by auto
qed

lemma slot_differs:
  assumes "i < j" "j < i + (n :: nat)"
  shows "i mod n \<noteq> j mod n"
proof
  assume "i mod n = j mod n"
  then have "n dvd j - i" using assms(1) mod_eq_dvd_iff_nat [of i j n] by simp
  with assms show False by (auto dest!: dvd_imp_le)
qed

section \<open>A bounded first-in first-out queue\<close>

text \<open>What is in the queue, oldest first, read off the cursors.\<close>

definition spsc_contents :: "'a spsc \<Rightarrow> 'a list" where
  "spsc_contents q =
     map (\<lambda>i. sq_buffer q ! unat ((sq_tail q + word_of_nat i) AND sq_mask q)) [0..<unat (sq_head q - sq_tail q)]"

definition spsc_inv :: "'a spsc \<Rightarrow> bool" where
  "spsc_inv q \<longleftrightarrow> (\<exists>k H CT T CH. ring k H CT T CH q)"

lemma ring_inv: "ring k H CT T CH q \<Longrightarrow> spsc_inv q"
  unfolding spsc_inv_def by blast

lemma ring_contents:
  assumes "ring k H CT T CH q"
  shows "spsc_contents q = map (\<lambda>i. sq_buffer q ! (i mod 2 ^ k)) [T..<H]"
proof -
  have r: "k < 64" "sq_mask q = mask k" "sq_head q = word_of_nat H" "sq_tail q = word_of_nat T" "T \<le> H" "H \<le> T + 2 ^ k"
    using assms by (simp_all add: ring_def)
  have "unat (word_of_nat H - word_of_nat T :: u64) = H - T"
    using r power_below [OF r(1)] by (intro cursor_diff) simp_all
  then have "spsc_contents q = map (\<lambda>i. sq_buffer q ! ((T + i) mod 2 ^ k)) [0..<H - T]"
    using cursor_slot [OF r(1)] by (simp add: spsc_contents_def r flip: of_nat_add)
  also have "\<dots> = map (\<lambda>i. sq_buffer q ! (i mod 2 ^ k)) [T..<H]"
    using r(5) by (intro nth_equalityI) simp_all
  finally show ?thesis .
qed

text \<open>
  The contract that the clients of a queue rely on: refusing exactly when it is full, delivering
  in order of arrival.
\<close>

locale bounded_fifo =
  fixes inv :: "'q \<Rightarrow> bool" and cap :: "'q \<Rightarrow> nat" and contents :: "'q \<Rightarrow> 'a list"
    and push :: "'a \<Rightarrow> 'q \<Rightarrow> (bool \<times> 'q) option" and pop :: "'q \<Rightarrow> ('a option \<times> 'q) option"
  assumes bounded: "inv q \<Longrightarrow> length (contents q) \<le> cap q"
    and push_law: "inv q \<Longrightarrow> \<exists>q'. push v q = Some (length (contents q) < cap q, q') \<and> inv q' \<and> cap q' = cap q \<and>
      contents q' = (if length (contents q) < cap q then contents q @ [v] else contents q)"
    and pop_law: "inv q \<Longrightarrow> \<exists>q'. pop q = Some (if contents q = [] then None else Some (hd (contents q)), q') \<and>
      inv q' \<and> cap q' = cap q \<and> contents q' = tl (contents q)"
begin

lemma push_cases:
  assumes "inv q"
  obtains (accepted) q' where "push v q = Some (True, q')" "length (contents q) < cap q" "inv q'" "cap q' = cap q"
      "contents q' = contents q @ [v]"
  | (refused) q' where "push v q = Some (False, q')" "length (contents q) = cap q" "inv q'" "cap q' = cap q"
      "contents q' = contents q"
  using push_law [OF assms, of v] bounded [OF assms] by (cases "length (contents q) < cap q") auto

lemma pop_cases:
  assumes "inv q"
  obtains (empty) q' where "pop q = Some (None, q')" "contents q = []" "inv q'" "cap q' = cap q" "contents q' = []"
  | (item) v q' where "pop q = Some (Some v, q')" "contents q = v # contents q'" "inv q'" "cap q' = cap q"
  using pop_law [OF assms] by (cases "contents q") auto

end

lemma ring_store:
  assumes r: "ring k H CT T CH q" and room: "H < CT + 2 ^ k"
  shows "\<exists>q'. spsc_store (word_of_nat H AND sq_mask q) v q = Some q' \<and> ring k (H + 1) CT T CH (q'\<lparr>sq_head := word_of_nat H + 1\<rparr>) \<and>
    spsc_contents (q'\<lparr>sq_head := word_of_nat H + 1\<rparr>) = spsc_contents q @ [v] \<and> length (sq_buffer q') = length (sq_buffer q)"
proof -
  have k: "k < 64" "length (sq_buffer q) = 2 ^ k" "sq_mask q = mask k" "CT \<le> T" "T \<le> H" using r by (simp_all add: ring_def)
  let ?i = "H mod 2 ^ k" and ?q = "q\<lparr>sq_buffer := (sq_buffer q)[H mod 2 ^ k := v]\<rparr>"
  have i: "unat (word_of_nat H AND sq_mask q) = ?i" "?i < 2 ^ k" using cursor_slot [OF k(1)] k(3) by simp_all
  have ring: "ring k (H + 1) CT T CH (?q\<lparr>sq_head := word_of_nat H + 1\<rparr>)"
    using r room by (auto simp: ring_def add.commute)
  have "sq_buffer ?q ! (j mod 2 ^ k) = sq_buffer q ! (j mod 2 ^ k)" if "T \<le> j" "j < H" for j
    using slot_differs [of j H "2 ^ k"] that room k(4) by simp
  then have "spsc_contents (?q\<lparr>sq_head := word_of_nat H + 1\<rparr>) = spsc_contents q @ [v]"
    using k i(2) by (simp add: ring_contents [OF ring] ring_contents [OF r])
  with ring i k(2) show ?thesis by (intro exI [of _ ?q]) (simp add: spsc_store_def)
qed

lemma ring_refresh:
  assumes "ring k H CT T CH q"
  shows "ring k H T T CH (q\<lparr>sq_cached_tail := sq_tail q\<rparr>)" "ring k H CT T H (q\<lparr>sq_cached_head := sq_head q\<rparr>)"
  using assms by (auto simp: ring_def)

lemma contents_refresh [simp]:
  "spsc_contents (q\<lparr>sq_cached_tail := x\<rparr>) = spsc_contents q" "spsc_contents (q\<lparr>sq_cached_head := y\<rparr>) = spsc_contents q"
  "spsc_size (q\<lparr>sq_cached_tail := x\<rparr>) = spsc_size q"
  by (simp_all add: spsc_contents_def spsc_size_def)

lemma spsc_TryPush_fifo:
  assumes "spsc_inv q"
  shows "\<exists>q'. spsc_TryPush v q = Some (length (spsc_contents q) < spsc_capacity q, q') \<and> spsc_inv q' \<and>
    spsc_capacity q' = spsc_capacity q \<and>
    spsc_contents q' = (if length (spsc_contents q) < spsc_capacity q then spsc_contents q @ [v] else spsc_contents q)"
proof -
  from assms obtain k H CT T CH where r: "ring k H CT T CH q" by (auto simp: spsc_inv_def)
  then have q: "sq_head q = word_of_nat H" "sq_cached_tail q = word_of_nat CT" "sq_tail q = word_of_nat T"
    "length (sq_buffer q) = 2 ^ k" "CT \<le> T" "T \<le> H" "H \<le> CT + 2 ^ k" by (simp_all add: ring_def)
  have len: "length (spsc_contents q) = H - T" by (simp add: ring_contents [OF r])
  have full_iff: "sq_head q + 1 - sq_cached_tail q > spsc_size q \<longleftrightarrow> H = CT + 2 ^ k"
    "sq_head q + 1 - sq_tail q > spsc_size q \<longleftrightarrow> H = T + 2 ^ k"
    using ring_full [OF r, of CT] ring_full [OF r, of T] q by simp_all
  let ?q = "q\<lparr>sq_cached_tail := sq_tail q\<rparr>"
  note r1 = ring_refresh(1) [OF r]
  consider (full) "H = T + 2 ^ k" "H = CT + 2 ^ k" | (stale) "H = CT + 2 ^ k" "H < T + 2 ^ k" | (room) "H < CT + 2 ^ k"
    using q by linarith
  then show ?thesis
  proof cases
    case full
    then have "spsc_TryPush v q = Some (False, ?q)" using full full_iff by (simp add: spsc_TryPush_def Let_def)
    with full(1) r1 len q(4) show ?thesis by (auto simp: spsc_capacity_def intro: ring_inv)
  next
    case stale
    from ring_store [OF r1 stale(2), of v] obtain q' where
      q': "spsc_store (word_of_nat H AND sq_mask ?q) v ?q = Some q'" "ring k (H + 1) T T CH (q'\<lparr>sq_head := word_of_nat H + 1\<rparr>)"
      "spsc_contents (q'\<lparr>sq_head := word_of_nat H + 1\<rparr>) = spsc_contents ?q @ [v]" "length (sq_buffer q') = length (sq_buffer ?q)"
      by blast
    have "spsc_TryPush v q = Some (True, q'\<lparr>sq_head := word_of_nat H + 1\<rparr>)"
      using stale full_iff q'(1) q(1) by (simp add: spsc_TryPush_def Let_def)
    moreover have "length (spsc_contents q) < spsc_capacity q"
      using stale(2) q len by (simp add: spsc_capacity_def less_diff_conv2)
    ultimately show ?thesis using q' by (auto simp: spsc_capacity_def intro: ring_inv)
  next
    case room
    from ring_store [OF r room, of v] obtain q' where
      q': "spsc_store (word_of_nat H AND sq_mask q) v q = Some q'" "ring k (H + 1) CT T CH (q'\<lparr>sq_head := word_of_nat H + 1\<rparr>)"
      "spsc_contents (q'\<lparr>sq_head := word_of_nat H + 1\<rparr>) = spsc_contents q @ [v]" "length (sq_buffer q') = length (sq_buffer q)"
      by blast
    have "spsc_TryPush v q = Some (True, q'\<lparr>sq_head := word_of_nat H + 1\<rparr>)"
      using room full_iff q'(1) q(1) by (simp add: spsc_TryPush_def Let_def)
    moreover have "length (spsc_contents q) < spsc_capacity q"
      using room q len by (simp add: spsc_capacity_def less_diff_conv2)
    ultimately show ?thesis using q' by (auto simp: spsc_capacity_def intro: ring_inv)
  qed
qed

lemma ring_load:
  assumes r: "ring k H CT T CH q" and some: "T < CH"
  shows "spsc_load (word_of_nat T AND sq_mask q) q = Some (hd (spsc_contents q)) \<and> spsc_contents q \<noteq> [] \<and>
    ring k H CT (T + 1) CH (q\<lparr>sq_tail := word_of_nat T + 1\<rparr>) \<and>
    spsc_contents (q\<lparr>sq_tail := word_of_nat T + 1\<rparr>) = tl (spsc_contents q)"
proof -
  have k: "k < 64" "length (sq_buffer q) = 2 ^ k" "sq_mask q = mask k" "CH \<le> H" using r by (simp_all add: ring_def)
  have ring: "ring k H CT (T + 1) CH (q\<lparr>sq_tail := word_of_nat T + 1\<rparr>)"
    using r some by (auto simp: ring_def add.commute)
  have "[T..<H] = T # [T + 1..<H]" using some k(4) by (simp add: upt_conv_Cons)
  with k ring show ?thesis
    by (simp add: ring_contents [OF ring] ring_contents [OF r] spsc_load_def cursor_slot)
qed

lemma spsc_TryPop_fifo:
  assumes "spsc_inv q"
  shows "\<exists>q'. spsc_TryPop q = Some (if spsc_contents q = [] then None else Some (hd (spsc_contents q)), q') \<and>
    spsc_inv q' \<and> spsc_capacity q' = spsc_capacity q \<and> spsc_contents q' = tl (spsc_contents q)"
proof -
  from assms obtain k H CT T CH where r: "ring k H CT T CH q" by (auto simp: spsc_inv_def)
  then have q: "sq_head q = word_of_nat H" "sq_cached_head q = word_of_nat CH" "sq_tail q = word_of_nat T"
    "T \<le> CH" "CH \<le> H" by (simp_all add: ring_def)
  have empty: "sq_tail q = sq_cached_head q \<longleftrightarrow> T = CH" "sq_tail q = sq_head q \<longleftrightarrow> T = H"
    using ring_empty [OF r, of CH] ring_empty [OF r, of H] q by simp_all
  let ?q = "q\<lparr>sq_cached_head := sq_head q\<rparr>"
  note r1 = ring_refresh(2) [OF r]
  consider (empty) "T = H" "T = CH" | (stale) "T = CH" "T < H" | (item) "T < CH" using q by linarith
  then show ?thesis
  proof cases
    case empty
    then have "spsc_TryPop q = Some (None, ?q)" using \<open>sq_tail q = sq_head q \<longleftrightarrow> T = H\<close> \<open>sq_tail q = sq_cached_head q \<longleftrightarrow> T = CH\<close>
      by (simp add: spsc_TryPop_def Let_def)
    with empty r1 show ?thesis by (auto simp: spsc_capacity_def ring_contents [OF r] intro: ring_inv)
  next
    case stale
    note l = ring_load [OF r1 stale(2)]
    have "spsc_TryPop q = Some (Some (hd (spsc_contents q)), ?q\<lparr>sq_tail := word_of_nat T + 1\<rparr>)"
      using stale empty l q(3) by (simp add: spsc_TryPop_def Let_def)
    with l show ?thesis by (auto simp: spsc_capacity_def intro: ring_inv)
  next
    case item
    note l = ring_load [OF r item]
    have "spsc_TryPop q = Some (Some (hd (spsc_contents q)), q\<lparr>sq_tail := word_of_nat T + 1\<rparr>)"
      using item empty l q(3) by (simp add: spsc_TryPop_def Let_def)
    with l show ?thesis by (auto simp: spsc_capacity_def intro: ring_inv)
  qed
qed

interpretation spsc: bounded_fifo spsc_inv spsc_capacity spsc_contents spsc_TryPush spsc_TryPop
proof
  fix q :: "'a spsc" and v :: 'a
  assume inv: "spsc_inv q"
  then obtain k H CT T CH where r: "ring k H CT T CH q" by (auto simp: spsc_inv_def)
  then show "length (spsc_contents q) \<le> spsc_capacity q"
    by (auto simp: ring_contents [OF r] spsc_capacity_def ring_def)
  show "\<exists>q'. spsc_TryPush v q = Some (length (spsc_contents q) < spsc_capacity q, q') \<and> spsc_inv q' \<and>
      spsc_capacity q' = spsc_capacity q \<and>
      spsc_contents q' = (if length (spsc_contents q) < spsc_capacity q then spsc_contents q @ [v] else spsc_contents q)"
    by (rule spsc_TryPush_fifo [OF inv])
  show "\<exists>q'. spsc_TryPop q = Some (if spsc_contents q = [] then None else Some (hd (spsc_contents q)), q') \<and>
      spsc_inv q' \<and> spsc_capacity q' = spsc_capacity q \<and> spsc_contents q' = tl (spsc_contents q)"
    by (rule spsc_TryPop_fifo [OF inv])
qed

lemma spsc_new_ring:
  assumes "spsc_new d cap = Inr q"
  shows "spsc_inv q \<and> spsc_contents q = [] \<and> spsc_capacity q = unat cap"
proof -
  have c: "cap \<noteq> 0" "cap AND (cap - 1) = 0" using assms by (auto simp: spsc_new_def Let_def split: if_splits)
  obtain k where k: "k < 64" "unat cap = 2 ^ k" "cap - 1 = mask k" by (rule power_of_two_cap [OF c])
  have "ring k 0 0 0 0 q" using assms k c by (auto simp: spsc_new_def ring_def Let_def)
  with k show ?thesis using assms c by (auto simp: ring_contents spsc_capacity_def spsc_new_def Let_def intro: ring_inv)
qed

section \<open>Properties\<close>

text \<open>Sequences of operations, on the ring and on a list with a capacity.\<close>

datatype 'a queue_op = Push 'a | Pop

fun spsc_run :: "'a queue_op list \<Rightarrow> 'a spsc \<Rightarrow> ((bool + 'a option) list \<times> 'a spsc) option" where
  "spsc_run [] q = Some ([], q)"
| "spsc_run (Push v # ops) q =
     do { (ok, q1) \<leftarrow> spsc_TryPush v q; (outs, q2) \<leftarrow> spsc_run ops q1; Some (Inl ok # outs, q2) }"
| "spsc_run (Pop # ops) q =
     do { (out, q1) \<leftarrow> spsc_TryPop q; (outs, q2) \<leftarrow> spsc_run ops q1; Some (Inr out # outs, q2) }"

fun fifo_run :: "nat \<Rightarrow> 'a queue_op list \<Rightarrow> 'a list \<Rightarrow> (bool + 'a option) list" where
  "fifo_run cap [] xs = []"
| "fifo_run cap (Push v # ops) xs =
     (if length xs < cap then Inl True # fifo_run cap ops (xs @ [v]) else Inl False # fifo_run cap ops xs)"
| "fifo_run cap (Pop # ops) xs =
     (case xs of [] \<Rightarrow> Inr None # fifo_run cap ops [] | x # ys \<Rightarrow> Inr (Some x) # fifo_run cap ops ys)"

lemma spsc_run_fifo:
  assumes "spsc_inv q"
  shows "\<exists>q'. spsc_run ops q = Some (fifo_run (spsc_capacity q) ops (spsc_contents q), q') \<and> spsc_inv q'"
  using assms
proof (induction ops arbitrary: q)
  case (Cons op ops)
  show ?case
  proof (cases op)
    case (Push v)
    show ?thesis
    proof (rule spsc.push_cases [OF Cons.prems, of v])
      fix q1
      assume "spsc_TryPush v q = Some (True, q1)" "length (spsc_contents q) < spsc_capacity q" "spsc_inv q1"
        "spsc_capacity q1 = spsc_capacity q" "spsc_contents q1 = spsc_contents q @ [v]"
      with Cons.IH [of q1] Push show ?thesis by auto
    next
      fix q1
      assume "spsc_TryPush v q = Some (False, q1)" "length (spsc_contents q) = spsc_capacity q" "spsc_inv q1"
        "spsc_capacity q1 = spsc_capacity q" "spsc_contents q1 = spsc_contents q"
      with Cons.IH [of q1] Push show ?thesis by auto
    qed
  next
    case Pop
    show ?thesis
    proof (rule spsc.pop_cases [OF Cons.prems])
      fix q1
      assume "spsc_TryPop q = Some (None, q1)" "spsc_contents q = []" "spsc_inv q1" "spsc_capacity q1 = spsc_capacity q"
        "spsc_contents q1 = []"
      with Cons.IH [of q1] Pop show ?thesis by auto
    next
      fix v q1
      assume "spsc_TryPop q = Some (Some v, q1)" "spsc_contents q = v # spsc_contents q1" "spsc_inv q1"
        "spsc_capacity q1 = spsc_capacity q"
      with Cons.IH [of q1] Pop show ?thesis by auto
    qed
  qed
qed simp

text \<open>
  The ring buffer is a bounded first-in first-out queue: for every sequence of pushes and
  pops of any length on a new queue, no access leaves the buffer, a push is refused exactly when
  as many elements are waiting as the capacity, and a pop delivers the oldest waiting element.
  The 64-bit cursors may wrap any number of times.
\<close>

lemma spsc_is_bounded_fifo:
  assumes "spsc_new d cap = Inr q"
  shows "\<exists>q'. spsc_run ops q = Some (fifo_run (unat cap) ops [], q')"
  using spsc_new_ring [OF assms] spsc_run_fifo [of q ops] by auto

lemma spsc_is_bounded_fifo_witness:
  "\<exists>q q'. spsc_new (0 :: nat) 2 = Inr q \<and>
     spsc_run [Push 5, Push 6, Push 7, Pop, Push 8, Pop, Pop, Pop] q =
       Some ([Inl True, Inl True, Inl False, Inr (Some 5), Inl True, Inr (Some 6), Inr (Some 8), Inr None], q')"
proof -
  have "spsc_new (0 :: nat) 2 \<noteq> Inl InvalidArgument" by code_simp
  then obtain q where q: "spsc_new (0 :: nat) 2 = Inr q"
    by (cases "spsc_new (0 :: nat) 2") (metis spsc_error.exhaust, blast)
  from spsc_is_bounded_fifo [OF q, of "[Push 5, Push 6, Push 7, Pop, Push 8, Pop, Pop, Pop]"] q show ?thesis by auto
qed

text \<open>
  The constructor accepts exactly the powers of two: any other capacity, zero included,
  is refused with \<open>std::invalid_argument\<close>.
\<close>

theorem capacity_is_power_of_two:
  "(\<exists>q. spsc_new d cap = Inr q) \<longleftrightarrow> (\<exists>k < 64. cap = 2 ^ k)"
proof
  assume "\<exists>q. spsc_new d cap = Inr q"
  then have c: "cap \<noteq> 0" "cap AND (cap - 1) = 0" by (auto simp: spsc_new_def Let_def split: if_splits)
  obtain k where k: "k < 64" "unat cap = 2 ^ k" by (rule power_of_two_cap [OF c])
  have "cap = 2 ^ k" using arg_cong [OF k(2), of "word_of_nat :: nat \<Rightarrow> u64"] by simp
  with k(1) show "\<exists>k < 64. cap = 2 ^ k" by blast
next
  assume "\<exists>k < 64. cap = 2 ^ k"
  then obtain k where k: "k < 64" "cap = 2 ^ k" by blast
  have "cap AND (cap - 1) = 0"
    unfolding k(2) by (rule bit_word_eqI) (auto simp: bit_and_iff bit_exp_iff bit_mask_iff simp flip: mask_eq_exp_minus_1)
  moreover have "cap \<noteq> 0" unfolding k(2) using k(1) by (simp add: exp_eq_zero_iff)
  ultimately show "\<exists>q. spsc_new d cap = Inr q" by (simp add: spsc_new_def Let_def)
qed

end
