(* ===== verification/Spsc_Threads.thy ===== *)
theory Spsc_Threads
  imports Spsc_Queue
begin

text \<open>
  The producer and the consumer of \<open>spsc_queue.hpp\<close> interleaved, one access to shared memory per
  step. An atomic cursor is the list of the values stored to it, in order; its owner reads the
  last one, and an acquire load by the other thread may return any value that is not older than
  one that thread has read before. This is what the C++ memory model guarantees for a variable
  with one writer: a load may be stale but not go back. The accesses to the buffer are plain; that
  they never race is one of the theorems below, and is what allows to read them as ordinary reads
  and writes.

  The theorems hold for every interleaving of any number of calls.
\<close>

section \<open>The two threads\<close>

text \<open>Where a thread is in \<open>TryPush\<close>: the argument and the value of \<open>head\<close> it has loaded.\<close>

datatype 'a producer = PIdle | PReload 'a u64 | PWrite 'a u64 | PPublish 'a u64

text \<open>Where a thread is in \<open>TryPop\<close>: the value of \<open>tail\<close> it has loaded, and then the element.\<close>

datatype 'a consumer = CIdle | CReload u64 | CRead u64 | CPublish 'a u64

record 'a threads =
  th_mask :: u64
  th_buffer :: "'a list"
  th_head :: "u64 list"
  th_cached_tail :: u64
  th_tail_view :: nat
  th_tail :: "u64 list"
  th_cached_head :: u64
  th_head_view :: nat
  th_producer :: "'a producer"
  th_consumer :: "'a consumer"
  th_accepted :: "'a list"
  th_delivered :: "'a list"

definition threads_of :: "'a spsc \<Rightarrow> 'a threads" where
  "threads_of q = \<lparr>th_mask = sq_mask q, th_buffer = sq_buffer q, th_head = [sq_head q],
     th_cached_tail = sq_cached_tail q, th_tail_view = 0, th_tail = [sq_tail q],
     th_cached_head = sq_cached_head q, th_head_view = 0, th_producer = PIdle, th_consumer = CIdle,
     th_accepted = [], th_delivered = []\<rparr>"

definition push_full :: "u64 \<Rightarrow> u64 \<Rightarrow> 'a threads \<Rightarrow> bool" where
  "push_full head cached s \<longleftrightarrow> head + 1 - cached > word_of_nat (length (th_buffer s))"

text \<open>The steps of \<open>TryPush\<close>.\<close>

inductive producer_step :: "'a threads \<Rightarrow> 'a threads \<Rightarrow> bool" where
  push_call: "th_producer s = PIdle \<Longrightarrow> head = last (th_head s) \<Longrightarrow>
    producer_step s (s\<lparr>th_producer := if push_full head (th_cached_tail s) s then PReload v head else PWrite v head\<rparr>)"
| push_reload: "th_producer s = PReload v head \<Longrightarrow> th_tail_view s \<le> i \<Longrightarrow> i < length (th_tail s) \<Longrightarrow>
    producer_step s (s\<lparr>th_cached_tail := th_tail s ! i, th_tail_view := i,
      th_producer := if push_full head (th_tail s ! i) s then PIdle else PWrite v head\<rparr>)"
| push_write: "th_producer s = PWrite v head \<Longrightarrow> unat (head AND th_mask s) < length (th_buffer s) \<Longrightarrow>
    producer_step s (s\<lparr>th_buffer := (th_buffer s)[unat (head AND th_mask s) := v], th_producer := PPublish v head\<rparr>)"
| push_publish: "th_producer s = PPublish v head \<Longrightarrow>
    producer_step s (s\<lparr>th_head := th_head s @ [head + 1], th_accepted := th_accepted s @ [v], th_producer := PIdle\<rparr>)"

text \<open>The steps of \<open>TryPop\<close>.\<close>

inductive consumer_step :: "'a threads \<Rightarrow> 'a threads \<Rightarrow> bool" where
  pop_call: "th_consumer s = CIdle \<Longrightarrow> tail = last (th_tail s) \<Longrightarrow>
    consumer_step s (s\<lparr>th_consumer := if tail = th_cached_head s then CReload tail else CRead tail\<rparr>)"
| pop_reload: "th_consumer s = CReload tail \<Longrightarrow> th_head_view s \<le> i \<Longrightarrow> i < length (th_head s) \<Longrightarrow>
    consumer_step s (s\<lparr>th_cached_head := th_head s ! i, th_head_view := i,
      th_consumer := if tail = th_head s ! i then CIdle else CRead tail\<rparr>)"
| pop_read: "th_consumer s = CRead tail \<Longrightarrow> unat (tail AND th_mask s) < length (th_buffer s) \<Longrightarrow>
    consumer_step s (s\<lparr>th_consumer := CPublish (th_buffer s ! unat (tail AND th_mask s)) tail\<rparr>)"
| pop_publish: "th_consumer s = CPublish v tail \<Longrightarrow>
    consumer_step s (s\<lparr>th_tail := th_tail s @ [tail + 1], th_delivered := th_delivered s @ [v], th_consumer := CIdle\<rparr>)"

inductive threads_reachable :: "'a spsc \<Rightarrow> 'a threads \<Rightarrow> bool" for q where
  start: "threads_reachable q (threads_of q)"
| producer: "threads_reachable q s \<Longrightarrow> producer_step s s' \<Longrightarrow> threads_reachable q s'"
| consumer: "threads_reachable q s \<Longrightarrow> consumer_step s s' \<Longrightarrow> threads_reachable q s'"

section \<open>Invariant\<close>

text \<open>
  \<open>H\<close> and \<open>T\<close> are the numbers of stores to the cursors; the views are the numbers of stores that
  the other thread has seen.
\<close>

abbreviation pushes :: "'a threads \<Rightarrow> nat" where "pushes s \<equiv> length (th_accepted s)"
abbreviation pops :: "'a threads \<Rightarrow> nat" where "pops s \<equiv> length (th_delivered s)"

definition cursors_ok :: "nat \<Rightarrow> 'a threads \<Rightarrow> bool" where
  "cursors_ok k s \<longleftrightarrow>
     k < 64 \<and> length (th_buffer s) = 2 ^ k \<and> th_mask s = mask k \<and>
     th_head s = map word_of_nat [0..<Suc (pushes s)] \<and> th_tail s = map word_of_nat [0..<Suc (pops s)] \<and>
     th_cached_tail s = word_of_nat (th_tail_view s) \<and> th_cached_head s = word_of_nat (th_head_view s) \<and>
     th_tail_view s \<le> pops s \<and> pops s \<le> th_head_view s \<and> th_head_view s \<le> pushes s \<and>
     pushes s \<le> th_tail_view s + 2 ^ k"

definition producer_ok :: "nat \<Rightarrow> 'a threads \<Rightarrow> bool" where
  "producer_ok k s \<longleftrightarrow>
     (case th_producer s of
        PIdle \<Rightarrow> True
      | PReload v head \<Rightarrow> head = word_of_nat (pushes s)
      | PWrite v head \<Rightarrow> head = word_of_nat (pushes s) \<and> pushes s < th_tail_view s + 2 ^ k
      | PPublish v head \<Rightarrow> head = word_of_nat (pushes s) \<and> pushes s < th_tail_view s + 2 ^ k \<and>
          th_buffer s ! (pushes s mod 2 ^ k) = v)"

definition consumer_ok :: "nat \<Rightarrow> 'a threads \<Rightarrow> bool" where
  "consumer_ok k s \<longleftrightarrow>
     (case th_consumer s of
        CIdle \<Rightarrow> True
      | CReload tail \<Rightarrow> tail = word_of_nat (pops s)
      | CRead tail \<Rightarrow> tail = word_of_nat (pops s) \<and> pops s < th_head_view s
      | CPublish v tail \<Rightarrow> tail = word_of_nat (pops s) \<and> pops s < th_head_view s \<and> v = th_accepted s ! pops s)"

definition data_ok :: "nat \<Rightarrow> 'a threads \<Rightarrow> bool" where
  "data_ok k s \<longleftrightarrow>
     th_delivered s = take (pops s) (th_accepted s) \<and>
     (\<forall>i. pops s \<le> i \<and> i < pushes s \<longrightarrow> th_buffer s ! (i mod 2 ^ k) = th_accepted s ! i)"

definition threads_inv :: "nat \<Rightarrow> 'a threads \<Rightarrow> bool" where
  "threads_inv k s \<longleftrightarrow> cursors_ok k s \<and> producer_ok k s \<and> consumer_ok k s \<and> data_ok k s"

lemmas threads_inv_defs = threads_inv_def cursors_ok_def producer_ok_def consumer_ok_def data_ok_def

lemma cursor_full:
  assumes "cursors_ok k s" "c \<le> pops s" "th_tail_view s \<le> c"
  shows "push_full (word_of_nat (pushes s)) (word_of_nat c) s \<longleftrightarrow> pushes s = c + 2 ^ k"
proof -
  have k: "k < 64" "length (th_buffer s) = 2 ^ k" "c \<le> pushes s" "pushes s \<le> c + 2 ^ k"
    using assms by (auto simp: cursors_ok_def)
  note p = power_below [OF k(1)]
  have "unat (word_of_nat (pushes s + 1) - word_of_nat c :: u64) = pushes s + 1 - c" using k p by (intro cursor_diff) simp_all
  moreover have "unat (word_of_nat (length (th_buffer s)) :: u64) = 2 ^ k" unfolding k(2) by (rule unat_small [OF p])
  ultimately show ?thesis using k by (auto simp: push_full_def word_less_nat_alt add.commute)
qed

lemma cursor_empty:
  assumes "cursors_ok k s" "pops s \<le> c" "c \<le> pushes s"
  shows "word_of_nat (pops s) = (word_of_nat c :: u64) \<longleftrightarrow> pops s = c"
proof -
  have k: "k < 64" "c \<le> pops s + 2 ^ k" using assms by (auto simp: cursors_ok_def)
  have "unat (word_of_nat c - word_of_nat (pops s) :: u64) = c - pops s"
    using assms(2) k power_below [OF k(1)] by (intro cursor_diff) simp_all
  then show ?thesis using assms(2) by auto
qed

lemma last_cursor [simp]: "last (map word_of_nat [0..<Suc n]) = word_of_nat n"
  by simp

lemma nth_cursor: "i < Suc n \<Longrightarrow> map word_of_nat [0..<Suc n] ! i = word_of_nat i"
  by (simp del: upt_Suc)

lemma producer_step_inv:
  assumes inv: "threads_inv k s" and step: "producer_step s s'"
  shows "threads_inv k s'"
proof -
  have c: "cursors_ok k s" and d: "data_ok k s" and co: "consumer_ok k s" and po: "producer_ok k s"
    using inv by (simp_all add: threads_inv_def)
  show ?thesis
    using step
  proof cases
    case (push_call head v)
    have head: "head = word_of_nat (pushes s)" using c push_call(3) by (simp add: cursors_ok_def)
    have "\<not> push_full head (th_cached_tail s) s \<Longrightarrow> pushes s < th_tail_view s + 2 ^ k"
      using c cursor_full [OF c, of "th_tail_view s"] head by (auto simp: cursors_ok_def)
    then show ?thesis using c d co head unfolding push_call(1) by (auto simp: threads_inv_defs split: producer.splits consumer.splits)
  next
    case (push_reload v head i)
    have i: "i \<le> pops s" "th_tail s ! i = word_of_nat i"
      using c push_reload(4) nth_cursor [of i "pops s"] by (auto simp: cursors_ok_def)
    have head: "head = word_of_nat (pushes s)" using po push_reload(2) by (simp add: producer_ok_def)
    have "\<not> push_full head (th_tail s ! i) s \<Longrightarrow> pushes s < i + 2 ^ k"
      using c cursor_full [OF c i(1) push_reload(3)] push_reload(3) head i(2) by (auto simp: cursors_ok_def)
    then show ?thesis using c d co head i push_reload(3) unfolding push_reload(1) by (auto simp: threads_inv_defs split: producer.splits consumer.splits)
  next
    case (push_write v head)
    have p: "head = word_of_nat (pushes s)" "pushes s < th_tail_view s + 2 ^ k"
      using po push_write(2) by (simp_all add: producer_ok_def)
    have k: "k < 64" "th_mask s = mask k" "length (th_buffer s) = 2 ^ k" "th_tail_view s \<le> pops s" using c by (simp_all add: cursors_ok_def)
    have slot: "unat (head AND th_mask s) = pushes s mod 2 ^ k" unfolding p(1) k(2) by (rule cursor_slot [OF k(1)])
    have "(th_buffer s)[pushes s mod 2 ^ k := v] ! (i mod 2 ^ k) = th_buffer s ! (i mod 2 ^ k)"
      if "pops s \<le> i" "i < pushes s" for i
      using slot_differs [of i "pushes s" "2 ^ k"] that p(2) k(4) by simp
    then show ?thesis
      using c d co p k unfolding push_write(1) slot by (auto simp: threads_inv_defs split: producer.splits consumer.splits)
  next
    case (push_publish v head)
    have p: "head = word_of_nat (pushes s)" "pushes s < th_tail_view s + 2 ^ k" "th_buffer s ! (pushes s mod 2 ^ k) = v"
      using po push_publish(2) by (simp_all add: producer_ok_def)
    have "pops s \<le> pushes s" using c by (simp add: cursors_ok_def)
    then show ?thesis
      using c d co p unfolding push_publish(1)
      by (auto simp: threads_inv_defs nth_append less_Suc_eq add.commute split: producer.splits consumer.splits)
  qed
qed

lemma consumer_step_inv:
  assumes inv: "threads_inv k s" and step: "consumer_step s s'"
  shows "threads_inv k s'"
proof -
  have c: "cursors_ok k s" and d: "data_ok k s" and co: "consumer_ok k s" and po: "producer_ok k s"
    using inv by (simp_all add: threads_inv_def)
  show ?thesis
    using step
  proof cases
    case (pop_call tail)
    have tail: "tail = word_of_nat (pops s)" using c pop_call(3) by (simp add: cursors_ok_def)
    have "tail \<noteq> th_cached_head s \<Longrightarrow> pops s < th_head_view s"
      using c cursor_empty [OF c, of "th_head_view s"] tail by (auto simp: cursors_ok_def)
    then show ?thesis using c d po tail unfolding pop_call(1) by (auto simp: threads_inv_defs split: producer.splits consumer.splits)
  next
    case (pop_reload tail i)
    have i: "i \<le> pushes s" "th_head s ! i = word_of_nat i"
      using c pop_reload(4) nth_cursor [of i "pushes s"] by (auto simp: cursors_ok_def)
    have tail: "tail = word_of_nat (pops s)" using co pop_reload(2) by (simp add: consumer_ok_def)
    have le: "pops s \<le> i" using c pop_reload(3) by (simp add: cursors_ok_def)
    have "tail \<noteq> th_head s ! i \<Longrightarrow> pops s < i" using cursor_empty [OF c le i(1)] tail i(2) le by auto
    then show ?thesis using c d po tail i le unfolding pop_reload(1) by (auto simp: threads_inv_defs split: producer.splits consumer.splits)
  next
    case (pop_read tail)
    have t: "tail = word_of_nat (pops s)" "pops s < th_head_view s" using co pop_read(2) by (simp_all add: consumer_ok_def)
    have k: "k < 64" "th_mask s = mask k" "th_head_view s \<le> pushes s" using c by (simp_all add: cursors_ok_def)
    have slot: "unat (tail AND th_mask s) = pops s mod 2 ^ k" unfolding t(1) k(2) by (rule cursor_slot [OF k(1)])
    have "th_buffer s ! (pops s mod 2 ^ k) = th_accepted s ! pops s" using d t(2) k(3) by (simp add: data_ok_def)
    then show ?thesis using c d po t unfolding pop_read(1) slot by (auto simp: threads_inv_defs split: producer.splits consumer.splits)
  next
    case (pop_publish v tail)
    have t: "tail = word_of_nat (pops s)" "pops s < th_head_view s" "v = th_accepted s ! pops s"
      using co pop_publish(2) by (simp_all add: consumer_ok_def)
    have h: "th_head_view s \<le> pushes s" using c by (simp add: cursors_ok_def)
    have "th_delivered s @ [v] = take (Suc (pops s)) (th_accepted s)"
      using d t h by (simp add: data_ok_def take_Suc_conv_app_nth)
    then show ?thesis
      using c d po t h unfolding pop_publish(1)
      by (auto simp: threads_inv_defs add.commute split: producer.splits consumer.splits)
  qed
qed

lemma threads_reachable_inv:
  assumes new: "spsc_new d cap = Inr q" and "threads_reachable q s"
  shows "\<exists>k. unat cap = 2 ^ k \<and> threads_inv k s"
proof -
  have c: "cap \<noteq> 0" "cap AND (cap - 1) = 0" and q: "q = \<lparr>sq_mask = cap - 1, sq_buffer = replicate (unat cap) d,
      sq_head = 0, sq_cached_tail = 0, sq_tail = 0, sq_cached_head = 0\<rparr>"
    using new by (auto simp: spsc_new_def Let_def split: if_splits)
  obtain k where k: "k < 64" "unat cap = 2 ^ k" "cap - 1 = mask k" by (rule power_of_two_cap [OF c])
  from assms(2) have "threads_inv k s"
  proof (induction rule: threads_reachable.induct)
    case start
    show ?case using k by (simp add: threads_inv_defs threads_of_def q)
  qed (auto intro: producer_step_inv consumer_step_inv)
  with k(2) show ?thesis by blast
qed

section \<open>Properties\<close>

lemma threads_race_free:
  assumes "spsc_new d cap = Inr q" "threads_reachable q s"
  shows "(\<forall>v head. th_producer s = PWrite v head \<longrightarrow> unat (head AND th_mask s) < length (th_buffer s)) \<and>
    (\<forall>tail. th_consumer s = CRead tail \<longrightarrow> unat (tail AND th_mask s) < length (th_buffer s)) \<and>
    (\<forall>v head tail. th_producer s = PWrite v head \<and> th_consumer s = CRead tail \<longrightarrow>
       head AND th_mask s \<noteq> tail AND th_mask s)"
proof -
  obtain k where inv: "threads_inv k s" using threads_reachable_inv [OF assms] by blast
  then have k: "k < 64" "th_mask s = mask k" "length (th_buffer s) = 2 ^ k" "pops s \<le> th_head_view s"
    "th_head_view s \<le> pushes s" "th_tail_view s \<le> pops s" by (simp_all add: threads_inv_defs)
  note slot = cursor_slot [OF k(1)]
  have p: "head = word_of_nat (pushes s) \<and> pushes s < th_tail_view s + 2 ^ k" if "th_producer s = PWrite v head" for v head
    using inv that by (simp add: threads_inv_def producer_ok_def)
  have c: "tail = word_of_nat (pops s) \<and> pops s < th_head_view s" if "th_consumer s = CRead tail" for tail
    using inv that by (simp add: threads_inv_def consumer_ok_def)
  have "head AND th_mask s \<noteq> tail AND th_mask s" if "th_producer s = PWrite v head" "th_consumer s = CRead tail" for v head tail
  proof -
    have "pops s mod 2 ^ k \<noteq> pushes s mod 2 ^ k" using p [OF that(1)] c [OF that(2)] k by (intro slot_differs) simp_all
    then show ?thesis using p [OF that(1)] c [OF that(2)] slot [of "pops s"] slot [of "pushes s"] k(2) by auto
  qed
  with p c slot k show ?thesis by auto
qed

text \<open>
  C32. First in, first out, under every interleaving: what the consumer has received is a prefix
  of what the producer's successful calls have put in, in the same order, and no more elements
  than the capacity are between them. Nothing is lost, duplicated, reordered or made up, and
  neither the staleness of the loads nor the wrap-around of the cursors is visible. There is no
  data race: whenever the producer is about to write a slot and the consumer is about to read one,
  both are in the buffer and they are different slots.
\<close>

theorem threads_fifo:
  assumes "spsc_new d cap = Inr q" "threads_reachable q s"
  shows "th_delivered s = take (length (th_delivered s)) (th_accepted s) \<and>
    length (th_delivered s) \<le> length (th_accepted s) \<and>
    length (th_accepted s) \<le> length (th_delivered s) + unat cap \<and>
    (\<forall>v head. th_producer s = PWrite v head \<longrightarrow> unat (head AND th_mask s) < length (th_buffer s)) \<and>
    (\<forall>tail. th_consumer s = CRead tail \<longrightarrow> unat (tail AND th_mask s) < length (th_buffer s)) \<and>
    (\<forall>v head tail. th_producer s = PWrite v head \<and> th_consumer s = CRead tail \<longrightarrow>
       head AND th_mask s \<noteq> tail AND th_mask s)"
proof -
  have "th_delivered s = take (length (th_delivered s)) (th_accepted s)" "length (th_delivered s) \<le> length (th_accepted s)"
    "length (th_accepted s) \<le> length (th_delivered s) + unat cap"
    using threads_reachable_inv [OF assms] by (auto simp: threads_inv_defs)
  with threads_race_free [OF assms] show ?thesis by simp
qed

definition ex_queue :: "nat spsc" where
  "ex_queue = \<lparr>sq_mask = 1, sq_buffer = [0, 0], sq_head = 0, sq_cached_tail = 0, sq_tail = 0, sq_cached_head = 0\<rparr>"

lemma ex_queue_new: "spsc_new 0 2 = Inr ex_queue"
proof -
  have "case spsc_new (0 :: nat) 2 of Inl e \<Rightarrow> False | Inr q \<Rightarrow> q = ex_queue" by code_simp
  then show ?thesis by (auto split: sum.splits)
qed

text \<open>One push, and the consumer about to read it while the producer starts the next push.\<close>

definition ex_threads :: "nat threads" where
  "ex_threads = \<lparr>th_mask = 1, th_buffer = [5, 0], th_head = [0, 1], th_cached_tail = 0, th_tail_view = 0, th_tail = [0],
     th_cached_head = 1, th_head_view = 1, th_producer = PWrite 6 1, th_consumer = CRead 0,
     th_accepted = [5], th_delivered = []\<rparr>"

lemma ex_threads_reachable: "threads_reachable ex_queue ex_threads"
proof -
  let ?s0 = "threads_of ex_queue"
  let ?s1 = "?s0\<lparr>th_producer := PWrite 5 0\<rparr>"
  let ?s2 = "?s1\<lparr>th_buffer := [5, 0], th_producer := PPublish 5 0\<rparr>"
  let ?s3 = "?s2\<lparr>th_head := [0, 1], th_accepted := [5], th_producer := PIdle\<rparr>"
  let ?s4 = "?s3\<lparr>th_consumer := CReload 0\<rparr>"
  let ?s5 = "?s4\<lparr>th_cached_head := 1, th_head_view := 1, th_consumer := CRead 0\<rparr>"
  note defs = threads_of_def ex_queue_def ex_threads_def push_full_def word_less_nat_alt
  have "producer_step ?s0 ?s1" using producer_step.push_call [of ?s0 0 5] by (simp add: defs)
  moreover have "producer_step ?s1 ?s2" using producer_step.push_write [of ?s1 5 0] by (simp add: defs)
  moreover have "producer_step ?s2 ?s3" using producer_step.push_publish [of ?s2 5 0] by (simp add: defs)
  moreover have "consumer_step ?s3 ?s4" using consumer_step.pop_call [of ?s3 0] by (simp add: defs)
  moreover have "consumer_step ?s4 ?s5" using consumer_step.pop_reload [of ?s4 0 1] by (simp add: defs)
  moreover have "producer_step ?s5 ex_threads" using producer_step.push_call [of ?s5 1 6] by (simp add: defs)
  ultimately show ?thesis by (meson threads_reachable.intros)
qed

theorem threads_fifo_witness:
  "threads_reachable ex_queue ex_threads \<and>
   th_delivered ex_threads = take (length (th_delivered ex_threads)) (th_accepted ex_threads) \<and>
   length (th_accepted ex_threads) \<le> length (th_delivered ex_threads) + 2 \<and>
   th_producer ex_threads = PWrite 6 1 \<and> th_consumer ex_threads = CRead 0 \<and>
   (1 :: u64) AND th_mask ex_threads \<noteq> 0 AND th_mask ex_threads"
  using threads_fifo [OF ex_queue_new ex_threads_reachable] ex_threads_reachable by (simp add: ex_threads_def)

fun producer_steps_left :: "'a producer \<Rightarrow> nat" where
  "producer_steps_left PIdle = 0"
| "producer_steps_left (PReload v head) = 3"
| "producer_steps_left (PWrite v head) = 2"
| "producer_steps_left (PPublish v head) = 1"

fun consumer_steps_left :: "'a consumer \<Rightarrow> nat" where
  "consumer_steps_left CIdle = 0"
| "consumer_steps_left (CReload tail) = 3"
| "consumer_steps_left (CRead tail) = 2"
| "consumer_steps_left (CPublish v tail) = 1"

text \<open>
  Wait-freedom: a thread in the middle of a call can always take its next step, whatever the
  other thread does or does not do, and every step brings it closer to its return: \<open>TryPush\<close> and
  \<open>TryPop\<close> return after at most four steps of their own thread.
\<close>

lemma threads_wait_free:
  assumes "spsc_new d cap = Inr q" "threads_reachable q s"
  shows "(\<exists>s'. producer_step s s') \<and> (\<exists>s'. consumer_step s s') \<and>
    (\<forall>s'. producer_step s s' \<and> th_producer s \<noteq> PIdle \<longrightarrow>
       producer_steps_left (th_producer s') < producer_steps_left (th_producer s) \<and> th_consumer s' = th_consumer s) \<and>
    (\<forall>s'. consumer_step s s' \<and> th_consumer s \<noteq> CIdle \<longrightarrow>
       consumer_steps_left (th_consumer s') < consumer_steps_left (th_consumer s) \<and> th_producer s' = th_producer s)"
proof -
  obtain k where inv: "threads_inv k s" using threads_reachable_inv [OF assms] by blast
  then have k: "k < 64" "th_mask s = mask k" "length (th_buffer s) = 2 ^ k" "th_tail_view s < length (th_tail s)"
    "th_head_view s < length (th_head s)" by (simp_all add: threads_inv_defs)
  have slot: "unat (word_of_nat n AND th_mask s) < length (th_buffer s)" for n
    using cursor_slot [OF k(1)] k(2,3) by simp
  have "\<exists>s'. producer_step s s'"
  proof (cases "th_producer s")
    case PIdle
    then show ?thesis by (intro exI, rule producer_step.push_call [OF _ refl])
  next
    case (PReload v head)
    then show ?thesis by (intro exI, rule producer_step.push_reload [OF _ order_refl k(4)])
  next
    case (PWrite v head)
    then have "head = word_of_nat (pushes s)" using inv by (simp add: threads_inv_def producer_ok_def)
    with slot have "unat (head AND th_mask s) < length (th_buffer s)" by simp
    from producer_step.push_write [OF PWrite this] show ?thesis by (rule exI)
  next
    case (PPublish v head)
    then show ?thesis by (intro exI, rule producer_step.push_publish)
  qed
  moreover have "\<exists>s'. consumer_step s s'"
  proof (cases "th_consumer s")
    case CIdle
    then show ?thesis by (intro exI, rule consumer_step.pop_call [OF _ refl])
  next
    case (CReload tail)
    then show ?thesis by (intro exI, rule consumer_step.pop_reload [OF _ order_refl k(5)])
  next
    case (CRead tail)
    then have "tail = word_of_nat (pops s)" using inv by (simp add: threads_inv_def consumer_ok_def)
    with slot have "unat (tail AND th_mask s) < length (th_buffer s)" by simp
    from consumer_step.pop_read [OF CRead this] show ?thesis by (rule exI)
  next
    case (CPublish v tail)
    then show ?thesis by (intro exI, rule consumer_step.pop_publish)
  qed
  moreover have "producer_steps_left (th_producer s') < producer_steps_left (th_producer s) \<and> th_consumer s' = th_consumer s"
    if "producer_step s s'" "th_producer s \<noteq> PIdle" for s'
    using that by cases auto
  moreover have "consumer_steps_left (th_consumer s') < consumer_steps_left (th_consumer s) \<and> th_producer s' = th_producer s"
    if "consumer_step s s'" "th_consumer s \<noteq> CIdle" for s'
    using that by cases auto
  ultimately show ?thesis by blast
qed

lemma threads_wait_free_witness:
  "\<exists>s'. producer_step ex_threads s' \<and> producer_steps_left (th_producer s') < 2"
proof -
  have p: "th_producer ex_threads \<noteq> PIdle" "producer_steps_left (th_producer ex_threads) = 2"
    by (simp_all add: ex_threads_def)
  note free = threads_wait_free [OF ex_queue_new ex_threads_reachable]
  then obtain s' where s': "producer_step ex_threads s'" by blast
  with free p(1) have "producer_steps_left (th_producer s') < producer_steps_left (th_producer ex_threads)" by blast
  with s' p(2) show ?thesis by auto
qed

end
