(* ===== verification/Spsc_Atomic.thy ===== *)
theory Spsc_Atomic
  imports Spsc_Threads
begin

text \<open>
  The two models of \<open>spsc_queue.hpp\<close> agree. The theories of the components that use
  the queue call \<open>TryPush\<close> and \<open>TryPop\<close> as the functions of
  \<open>Spsc_Queue\<close>, in one step; \<open>Spsc_Threads\<close> has them as four accesses
  to shared memory that interleave with the other thread. A call that runs without interference
  and loads the current cursor goes through exactly the states of the function, from every state
  that an interleaving with stale loads can leave behind.
\<close>

text \<open>The queue object when no call is under way: each cursor is the value stored last.\<close>

definition queue_of :: "'a threads \<Rightarrow> 'a spsc" where
  "queue_of s = \<lparr>sq_mask = th_mask s, sq_buffer = th_buffer s, sq_head = last (th_head s),
     sq_cached_tail = th_cached_tail s, sq_tail = last (th_tail s), sq_cached_head = th_cached_head s\<rparr>"

lemma queue_of_simps [simp]:
  "sq_mask (queue_of s) = th_mask s" "sq_buffer (queue_of s) = th_buffer s" "sq_head (queue_of s) = last (th_head s)"
  "sq_cached_tail (queue_of s) = th_cached_tail s" "sq_tail (queue_of s) = last (th_tail s)"
  "sq_cached_head (queue_of s) = th_cached_head s"
  by (simp_all add: queue_of_def)

lemma queue_of_updates [simp]:
  "queue_of (s\<lparr>th_producer := p\<rparr>) = queue_of s" "queue_of (s\<lparr>th_consumer := c\<rparr>) = queue_of s"
  "queue_of (s\<lparr>th_cached_tail := t, th_tail_view := i\<rparr>) = (queue_of s)\<lparr>sq_cached_tail := t\<rparr>"
  "queue_of (s\<lparr>th_cached_head := h, th_head_view := i\<rparr>) = (queue_of s)\<lparr>sq_cached_head := h\<rparr>"
  by (simp_all add: queue_of_def)

lemma queue_of_threads_of: "queue_of (threads_of q) = q"
  by (simp add: queue_of_def threads_of_def)

lemma queue_of_ring:
  assumes "threads_inv k s"
  shows "ring k (pushes s) (th_tail_view s) (pops s) (th_head_view s) (queue_of s)"
  using assms by (simp add: threads_inv_def cursors_ok_def ring_def)

lemma queue_of_contents:
  assumes "threads_inv k s"
  shows "spsc_contents (queue_of s) = drop (pops s) (th_accepted s)"
proof -
  have "th_buffer s ! (i mod 2 ^ k) = th_accepted s ! i" if "pops s \<le> i" "i < pushes s" for i
    using assms that by (simp add: threads_inv_def data_ok_def)
  then show ?thesis by (intro nth_equalityI) (simp_all add: ring_contents [OF queue_of_ring [OF assms]])
qed

section \<open>One call\<close>

text \<open>What one undisturbed call of \<open>TryPush\<close> does to the threads, its result given.\<close>

definition pushed :: "'a \<Rightarrow> bool \<Rightarrow> 'a spsc \<Rightarrow> 'a threads \<Rightarrow> 'a threads \<Rightarrow> bool" where
  "pushed v ok q s s' \<longleftrightarrow> producer_step\<^sup>*\<^sup>* s s' \<and> queue_of s' = q \<and> th_producer s' = PIdle \<and>
     th_consumer s' = th_consumer s \<and> th_accepted s' = th_accepted s @ (if ok then [v] else []) \<and>
     th_delivered s' = th_delivered s"

definition popped :: "'a option \<Rightarrow> 'a spsc \<Rightarrow> 'a threads \<Rightarrow> 'a threads \<Rightarrow> bool" where
  "popped out q s s' \<longleftrightarrow> consumer_step\<^sup>*\<^sup>* s s' \<and> queue_of s' = q \<and> th_consumer s' = CIdle \<and>
     th_producer s' = th_producer s \<and> th_delivered s' = th_delivered s @ (case out of None \<Rightarrow> [] | Some v \<Rightarrow> [v]) \<and>
     th_accepted s' = th_accepted s"

lemma push_full_queue_of: "push_full head c s \<longleftrightarrow> head + 1 - c > spsc_size (queue_of s)"
  by (simp add: push_full_def spsc_size_def)

text \<open>The last two steps of a push: writing the slot and publishing the cursor.\<close>

lemma push_rest:
  assumes w: "th_producer s = PWrite v head" and st: "spsc_store (head AND th_mask s) v (queue_of s) = Some q"
  shows "\<exists>s'. pushed v True (q\<lparr>sq_head := head + 1\<rparr>) s s'"
proof -
  have i: "unat (head AND th_mask s) < length (th_buffer s)"
    and q: "q = (queue_of s)\<lparr>sq_buffer := (th_buffer s)[unat (head AND th_mask s) := v]\<rparr>"
    using st by (auto simp: spsc_store_def split: if_splits)
  note s1 = producer_step.push_write [OF w i]
  let ?s1 = "s\<lparr>th_buffer := (th_buffer s)[unat (head AND th_mask s) := v], th_producer := PPublish v head\<rparr>"
  have s2: "producer_step ?s1 (?s1\<lparr>th_head := th_head ?s1 @ [head + 1], th_accepted := th_accepted ?s1 @ [v], th_producer := PIdle\<rparr>)"
    by (rule producer_step.push_publish) simp
  from s1 s2 have "producer_step\<^sup>*\<^sup>* s (?s1\<lparr>th_head := th_head ?s1 @ [head + 1], th_accepted := th_accepted ?s1 @ [v], th_producer := PIdle\<rparr>)"
    by (meson converse_rtranclp_into_rtranclp rtranclp.rtrancl_refl)
  then show ?thesis unfolding pushed_def q
    by (rule_tac exI, rule_tac conjI, assumption) (simp add: queue_of_def)
qed

lemma pushed_step:
  assumes "producer_step s s1" "pushed v ok q s1 s'" "th_consumer s1 = th_consumer s" "th_accepted s1 = th_accepted s"
    "th_delivered s1 = th_delivered s"
  shows "pushed v ok q s s'"
  using assms by (auto simp: pushed_def intro: converse_rtranclp_into_rtranclp)

lemma popped_step:
  assumes "consumer_step s s1" "popped out q s1 s'" "th_producer s1 = th_producer s" "th_accepted s1 = th_accepted s"
    "th_delivered s1 = th_delivered s"
  shows "popped out q s s'"
  using assms by (auto simp: popped_def intro: converse_rtranclp_into_rtranclp)

lemma push_alone:
  assumes ne: "th_tail s \<noteq> []" "th_tail_view s < length (th_tail s)" and idle: "th_producer s = PIdle"
    and run: "spsc_TryPush v (queue_of s) = Some (ok, q)"
  shows "\<exists>s'. pushed v ok q s s'"
proof -
  let ?h = "last (th_head s)" and ?t = "last (th_tail s)"
  have last: "th_tail s ! (length (th_tail s) - 1) = ?t" using ne(1) by (simp add: last_conv_nth)
  note call = producer_step.push_call [OF idle refl, of v]
  show ?thesis
  proof (cases "push_full ?h (th_cached_tail s) s")
    case False
    let ?s1 = "s\<lparr>th_producer := PWrite v ?h\<rparr>"
    from False run obtain q1 where "spsc_store (?h AND th_mask s) v (queue_of s) = Some q1" "ok" "q = q1\<lparr>sq_head := ?h + 1\<rparr>"
      by (auto simp: spsc_TryPush_def push_full_queue_of Let_def bind_eq_Some_conv)
    then obtain s' where s': "pushed v ok q ?s1 s'" using push_rest [of ?s1 v ?h q1] by auto
    from call False have step: "producer_step s ?s1" by simp
    have "pushed v ok q s s'" by (rule pushed_step [OF step s']) simp_all
    then show ?thesis by blast
  next
    case True
    let ?s1 = "s\<lparr>th_producer := PReload v ?h\<rparr>"
    let ?s2 = "s\<lparr>th_cached_tail := ?t, th_tail_view := length (th_tail s) - 1,
        th_producer := if push_full ?h ?t s then PIdle else PWrite v ?h\<rparr>"
    have full: "push_full ?h c ?s1 = push_full ?h c s" for c by (simp add: push_full_def)
    have "producer_step ?s1 ?s2"
      using producer_step.push_reload [of ?s1 v ?h "length (th_tail s) - 1"] ne last full by simp
    with call True have two: "producer_step s ?s1" "producer_step ?s1 ?s2" by auto
    have "\<exists>s'. pushed v ok q ?s2 s'"
    proof (cases "push_full ?h ?t s")
      case full: True
      with True run have "\<not> ok" "q = (queue_of s)\<lparr>sq_cached_tail := ?t\<rparr>"
        by (auto simp: spsc_TryPush_def push_full_queue_of Let_def bind_eq_Some_conv)
      with full have "pushed v ok q ?s2 ?s2" by (simp add: pushed_def)
      then show ?thesis by blast
    next
      case room: False
      from room True run obtain q1 where "spsc_store (?h AND th_mask s) v ((queue_of s)\<lparr>sq_cached_tail := ?t\<rparr>) = Some q1"
          "ok" "q = q1\<lparr>sq_head := ?h + 1\<rparr>"
        by (auto simp: spsc_TryPush_def push_full_queue_of Let_def bind_eq_Some_conv)
      with room show ?thesis using push_rest [of ?s2 v ?h q1] by auto
    qed
    then obtain s' where s': "pushed v ok q ?s2 s'" by blast
    have "pushed v ok q ?s1 s'" by (rule pushed_step [OF two(2) s']) simp_all
    then have "pushed v ok q s s'" by (rule pushed_step [OF two(1)]) simp_all
    then show ?thesis by blast
  qed
qed

text \<open>The last two steps of a pop: reading the slot and publishing the cursor.\<close>

lemma pop_rest:
  assumes r: "th_consumer s = CRead tail" and ld: "spsc_load (tail AND th_mask s) (queue_of s) = Some v"
  shows "\<exists>s'. popped (Some v) ((queue_of s)\<lparr>sq_tail := tail + 1\<rparr>) s s'"
proof -
  have i: "unat (tail AND th_mask s) < length (th_buffer s)" and v: "th_buffer s ! unat (tail AND th_mask s) = v"
    using ld by (auto simp: spsc_load_def split: if_splits)
  have s1: "consumer_step s (s\<lparr>th_consumer := CPublish v tail\<rparr>)" using consumer_step.pop_read [OF r i] v by simp
  let ?s1 = "s\<lparr>th_consumer := CPublish v tail\<rparr>"
  let ?s2 = "?s1\<lparr>th_tail := th_tail ?s1 @ [tail + 1], th_delivered := th_delivered ?s1 @ [v], th_consumer := CIdle\<rparr>"
  have s2: "consumer_step ?s1 ?s2" by (rule consumer_step.pop_publish) simp
  from s1 s2 have "consumer_step\<^sup>*\<^sup>* s ?s2" by (meson converse_rtranclp_into_rtranclp rtranclp.rtrancl_refl)
  then have "popped (Some v) ((queue_of s)\<lparr>sq_tail := tail + 1\<rparr>) s ?s2" by (simp add: popped_def queue_of_def)
  then show ?thesis by blast
qed

lemma pop_alone:
  assumes ne: "th_head s \<noteq> []" "th_head_view s < length (th_head s)" and idle: "th_consumer s = CIdle"
    and run: "spsc_TryPop (queue_of s) = Some (out, q)"
  shows "\<exists>s'. popped out q s s'"
proof -
  let ?h = "last (th_head s)" and ?t = "last (th_tail s)"
  have last: "th_head s ! (length (th_head s) - 1) = ?h" using ne(1) by (simp add: last_conv_nth)
  note call = consumer_step.pop_call [OF idle refl]
  show ?thesis
  proof (cases "?t = th_cached_head s")
    case False
    let ?s1 = "s\<lparr>th_consumer := CRead ?t\<rparr>"
    from False run obtain v where "spsc_load (?t AND th_mask s) (queue_of s) = Some v" "out = Some v" "q = (queue_of s)\<lparr>sq_tail := ?t + 1\<rparr>"
      by (auto simp: spsc_TryPop_def Let_def bind_eq_Some_conv)
    then obtain s' where s': "popped out q ?s1 s'" using pop_rest [of ?s1 ?t v] by auto
    from call False have step: "consumer_step s ?s1" by simp
    have "popped out q s s'" by (rule popped_step [OF step s']) simp_all
    then show ?thesis by blast
  next
    case True
    let ?s1 = "s\<lparr>th_consumer := CReload ?t\<rparr>"
    let ?s2 = "s\<lparr>th_cached_head := ?h, th_head_view := length (th_head s) - 1,
        th_consumer := if ?t = ?h then CIdle else CRead ?t\<rparr>"
    have "consumer_step ?s1 ?s2"
      using consumer_step.pop_reload [of ?s1 ?t "length (th_head s) - 1"] ne last by simp
    with call True have two: "consumer_step s ?s1" "consumer_step ?s1 ?s2" by auto
    have "\<exists>s'. popped out q ?s2 s'"
    proof (cases "?t = ?h")
      case empty: True
      with True run have "out = None" "q = (queue_of s)\<lparr>sq_cached_head := ?h\<rparr>"
        by (auto simp: spsc_TryPop_def Let_def bind_eq_Some_conv)
      with empty have "popped out q ?s2 ?s2" by (simp add: popped_def)
      then show ?thesis by blast
    next
      case item: False
      from item True run obtain v where "spsc_load (?t AND th_mask s) ((queue_of s)\<lparr>sq_cached_head := ?h\<rparr>) = Some v"
          "out = Some v" "q = (queue_of s)\<lparr>sq_cached_head := ?h, sq_tail := ?t + 1\<rparr>"
        by (auto simp: spsc_TryPop_def Let_def bind_eq_Some_conv)
      with item show ?thesis using pop_rest [of ?s2 ?t v] by auto
    qed
    then obtain s' where s': "popped out q ?s2 s'" by blast
    have "popped out q ?s1 s'" by (rule popped_step [OF two(2) s']) simp_all
    then have "popped out q s s'" by (rule popped_step [OF two(1)]) simp_all
    then show ?thesis by blast
  qed
qed

section \<open>Sequences of calls\<close>

text \<open>The elements that a sequence of calls with the given results has put in and taken out.\<close>

fun put_in :: "'a queue_op list \<Rightarrow> (bool + 'a option) list \<Rightarrow> 'a list" where
  "put_in (Push v # ops) (Inl ok # outs) = (if ok then [v] else []) @ put_in ops outs"
| "put_in (op # ops) (out # outs) = put_in ops outs"
| "put_in ops outs = []"

fun taken_out :: "(bool + 'a option) list \<Rightarrow> 'a list" where
  "taken_out (Inr (Some v) # outs) = v # taken_out outs"
| "taken_out (out # outs) = taken_out outs"
| "taken_out [] = []"

lemma reachable_producer_run: "producer_step\<^sup>*\<^sup>* s s' \<Longrightarrow> threads_reachable q s \<Longrightarrow> threads_reachable q s'"
  by (induction rule: rtranclp_induct) (auto intro: threads_reachable.producer)

lemma reachable_consumer_run: "consumer_step\<^sup>*\<^sup>* s s' \<Longrightarrow> threads_reachable q s \<Longrightarrow> threads_reachable q s'"
  by (induction rule: rtranclp_induct) (auto intro: threads_reachable.consumer)

lemma calls_alone:
  assumes new: "spsc_new d cap = Inr q"
  shows "threads_reachable q s \<Longrightarrow> th_producer s = PIdle \<Longrightarrow> th_consumer s = CIdle \<Longrightarrow>
    spsc_run ops (queue_of s) = Some (outs, q') \<Longrightarrow>
    \<exists>s'. threads_reachable q s' \<and> th_producer s' = PIdle \<and> th_consumer s' = CIdle \<and> queue_of s' = q' \<and>
      th_accepted s' = th_accepted s @ put_in ops outs \<and> th_delivered s' = th_delivered s @ taken_out outs"
proof (induction ops arbitrary: s outs)
  case Nil
  then show ?case by auto
next
  case (Cons op ops)
  obtain k where "threads_inv k s" using threads_reachable_inv [OF new Cons.prems(1)] by blast
  then have views: "th_tail s \<noteq> []" "th_tail_view s < length (th_tail s)" "th_head s \<noteq> []" "th_head_view s < length (th_head s)"
    by (simp_all add: threads_inv_def cursors_ok_def)
  show ?case
  proof (cases op)
    case (Push v)
    with Cons.prems(4) obtain ok q1 outs1 where r: "spsc_TryPush v (queue_of s) = Some (ok, q1)"
      "spsc_run ops q1 = Some (outs1, q')" "outs = Inl ok # outs1" by (auto simp: bind_eq_Some_conv)
    obtain s1 where s1: "pushed v ok q1 s s1" using push_alone [OF views(1,2) Cons.prems(2) r(1)] by blast
    then have "threads_reachable q s1" using reachable_producer_run Cons.prems(1) by (auto simp: pushed_def)
    moreover have "th_producer s1 = PIdle" "th_consumer s1 = CIdle" "spsc_run ops (queue_of s1) = Some (outs1, q')"
      using s1 r(2) Cons.prems(3) by (simp_all add: pushed_def)
    ultimately obtain s' where "threads_reachable q s'" "th_producer s' = PIdle" "th_consumer s' = CIdle" "queue_of s' = q'"
      "th_accepted s' = th_accepted s1 @ put_in ops outs1" "th_delivered s' = th_delivered s1 @ taken_out outs1"
      using Cons.IH by blast
    with s1 Push r(3) show ?thesis by (intro exI [of _ s']) (simp add: pushed_def)
  next
    case Pop
    with Cons.prems(4) obtain out q1 outs1 where r: "spsc_TryPop (queue_of s) = Some (out, q1)"
      "spsc_run ops q1 = Some (outs1, q')" "outs = Inr out # outs1" by (auto simp: bind_eq_Some_conv)
    obtain s1 where s1: "popped out q1 s s1" using pop_alone [OF views(3,4) Cons.prems(3) r(1)] by blast
    then have "threads_reachable q s1" using reachable_consumer_run Cons.prems(1) by (auto simp: popped_def)
    moreover have "th_producer s1 = PIdle" "th_consumer s1 = CIdle" "spsc_run ops (queue_of s1) = Some (outs1, q')"
      using s1 r(2) Cons.prems(2) by (simp_all add: popped_def)
    ultimately obtain s' where "threads_reachable q s'" "th_producer s' = PIdle" "th_consumer s' = CIdle" "queue_of s' = q'"
      "th_accepted s' = th_accepted s1 @ put_in ops outs1" "th_delivered s' = th_delivered s1 @ taken_out outs1"
      using Cons.IH by blast
    with s1 Pop r(3) show ?thesis by (intro exI [of _ s']) (cases out; simp add: popped_def)
  qed
qed

text \<open>
  C33. The functions and the threads agree. Take any interleaving of the two threads, with stale
  loads, that has come to a moment when no call is under way. From there every sequence of calls
  of \<open>TryPush\<close> and \<open>TryPop\<close>, taken as functions on the queue object,
  is defined, gives the answers of a list of bounded length that starts with what was put in and
  not yet taken out, and is a run of the steps of the two threads: it ends in a reachable state
  with the queue object that the functions compute, in which the threads have put in and taken
  out what the answers say.
\<close>

theorem calls_are_runs:
  assumes "spsc_new d cap = Inr q" "threads_reachable q s" "th_producer s = PIdle" "th_consumer s = CIdle"
  shows "\<exists>q' s'. spsc_run ops (queue_of s) =
      Some (fifo_run (unat cap) ops (drop (length (th_delivered s)) (th_accepted s)), q') \<and>
    threads_reachable q s' \<and> th_producer s' = PIdle \<and> th_consumer s' = CIdle \<and> queue_of s' = q' \<and>
    th_accepted s' = th_accepted s @ put_in ops (fifo_run (unat cap) ops (drop (length (th_delivered s)) (th_accepted s))) \<and>
    th_delivered s' = th_delivered s @ taken_out (fifo_run (unat cap) ops (drop (length (th_delivered s)) (th_accepted s)))"
proof -
  obtain k where k: "unat cap = 2 ^ k" "threads_inv k s" using threads_reachable_inv [OF assms(1,2)] by blast
  have "spsc_inv (queue_of s)" by (rule ring_inv [OF queue_of_ring [OF k(2)]])
  moreover have "spsc_capacity (queue_of s) = unat cap"
    using k by (simp add: spsc_capacity_def threads_inv_def cursors_ok_def)
  ultimately obtain q' where "spsc_run ops (queue_of s) = Some (fifo_run (unat cap) ops (drop (pops s) (th_accepted s)), q')"
    using spsc_run_fifo [of "queue_of s" ops] queue_of_contents [OF k(2)] by auto
  with calls_alone [OF assms this] show ?thesis by blast
qed

text \<open>The queue of two slots after one push, the producer idle again.\<close>

definition ex_quiet :: "nat threads" where
  "ex_quiet = (threads_of ex_queue)\<lparr>th_buffer := [5, 0], th_head := [0, 1], th_accepted := [5]\<rparr>"

lemma ex_quiet_reachable: "threads_reachable ex_queue ex_quiet"
proof -
  let ?s0 = "threads_of ex_queue"
  let ?s1 = "?s0\<lparr>th_producer := PWrite 5 0\<rparr>"
  let ?s2 = "?s1\<lparr>th_buffer := [5, 0], th_producer := PPublish 5 0\<rparr>"
  note defs = threads_of_def ex_queue_def ex_quiet_def push_full_def word_less_nat_alt
  have "producer_step ?s0 ?s1" using producer_step.push_call [of ?s0 0 5] by (simp add: defs)
  moreover have "producer_step ?s1 ?s2" using producer_step.push_write [of ?s1 5 0] by (simp add: defs)
  moreover have "producer_step ?s2 ex_quiet" using producer_step.push_publish [of ?s2 5 0] by (simp add: defs)
  ultimately show ?thesis by (meson threads_reachable.intros)
qed

theorem calls_are_runs_witness:
  "\<exists>s'. threads_reachable ex_queue s' \<and> th_accepted s' = [5, 6] \<and> th_delivered s' = [5, 6] \<and>
    spsc_run [Push 6, Push 7, Pop, Pop, Pop] (queue_of ex_quiet) =
      Some ([Inl True, Inl False, Inr (Some 5), Inr (Some 6), Inr None], queue_of s')"
proof -
  have "th_producer ex_quiet = PIdle" "th_consumer ex_quiet = CIdle" "th_accepted ex_quiet = [5]" "th_delivered ex_quiet = []"
    by (simp_all add: ex_quiet_def threads_of_def)
  with calls_are_runs [OF ex_queue_new ex_quiet_reachable, of "[Push 6, Push 7, Pop, Pop, Pop]"] show ?thesis by auto
qed

end
