(* ===== verification/Binary_Codec.thy ===== *)
theory Binary_Codec
  imports ME_Types
begin

text \<open>
  \<open>include/matching_engine/net/binary_codec.hpp\<close>: the little-endian reader and writer of
  primitive values. A writer appends to a byte vector; a reader walks over one and fails, without
  consuming anything, when too few bytes are left.

  The locale \<open>codec\<close> is the contract of one value on the wire; it is interpreted on the four
  primitives here and carries the round trips of the messages, the journal and the snapshot.
\<close>

unbundle bit_operations_syntax

type_synonym bytes = "u8 list"

section \<open>BufferWriter\<close>

definition WriteU8 :: "u8 \<Rightarrow> bytes \<Rightarrow> bytes" where
  "WriteU8 v buf = buf @ [v]"

definition WriteU32 :: "u32 \<Rightarrow> bytes \<Rightarrow> bytes" where
  "WriteU32 v buf = foldl (\<lambda>b i. b @ [ucast (drop_bit (8 * i) v)]) buf [0..<4]"

definition WriteU64 :: "u64 \<Rightarrow> bytes \<Rightarrow> bytes" where
  "WriteU64 v buf = foldl (\<lambda>b i. b @ [ucast (drop_bit (8 * i) v)]) buf [0..<8]"

text \<open>\<open>static_cast<std::uint64_t>\<close> keeps the bits of a price.\<close>

definition WriteI64 :: "price \<Rightarrow> bytes \<Rightarrow> bytes" where
  "WriteI64 v buf = WriteU64 (ticks v) buf"

section \<open>BufferReader\<close>

record reader =
  br_data :: bytes
  br_pos :: nat

definition reader_new :: "bytes \<Rightarrow> reader" where
  "reader_new data = \<lparr>br_data = data, br_pos = 0\<rparr>"

definition HasBytes :: "nat \<Rightarrow> reader \<Rightarrow> bool" where
  "HasBytes n r \<longleftrightarrow> br_pos r + n \<le> length (br_data r)"

definition ReadU8 :: "reader \<Rightarrow> (u8 \<times> reader) option" where
  "ReadU8 r = (if \<not> HasBytes 1 r then None else Some (br_data r ! br_pos r, r\<lparr>br_pos := br_pos r + 1\<rparr>))"

definition ReadU32 :: "reader \<Rightarrow> (u32 \<times> reader) option" where
  "ReadU32 r =
     (if \<not> HasBytes 4 r then None
      else Some (foldl (\<lambda>v i. v OR push_bit (8 * i) (ucast (br_data r ! (br_pos r + i)))) 0 [0..<4],
                 r\<lparr>br_pos := br_pos r + 4\<rparr>))"

definition ReadU64 :: "reader \<Rightarrow> (u64 \<times> reader) option" where
  "ReadU64 r =
     (if \<not> HasBytes 8 r then None
      else Some (foldl (\<lambda>v i. v OR push_bit (8 * i) (ucast (br_data r ! (br_pos r + i)))) 0 [0..<8],
                 r\<lparr>br_pos := br_pos r + 8\<rparr>))"

definition ReadI64 :: "reader \<Rightarrow> (price \<times> reader) option" where
  "ReadI64 r = do { (u, r') \<leftarrow> ReadU64 r; Some (Price u, r') }"

definition reader_remaining :: "reader \<Rightarrow> nat" where
  "reader_remaining r = length (br_data r) - br_pos r"

section \<open>Little-endian words\<close>

definition le_bytes :: "nat \<Rightarrow> 'a::len word \<Rightarrow> bytes" where
  "le_bytes n v = map (\<lambda>i. ucast (drop_bit (8 * i) v)) [0..<n]"

definition le_value :: "nat \<Rightarrow> (nat \<Rightarrow> u8) \<Rightarrow> 'a::len word" where
  "le_value n f = foldl (\<lambda>v i. v OR push_bit (8 * i) (ucast (f i))) 0 [0..<n]"

lemma length_le_bytes [simp]: "length (le_bytes n v) = n"
  by (simp add: le_bytes_def)

lemma foldl_snoc_map: "foldl (\<lambda>b i. b @ [f i]) buf xs = buf @ map f xs"
  by (induction xs arbitrary: buf) simp_all

lemma bit_le_value:
  "bit (le_value n f :: 'a::len word) k \<longleftrightarrow> k < LENGTH('a) \<and> k < 8 * n \<and> bit (f (k div 8)) (k mod 8)"
proof (induction n)
  case (Suc n)
  have "bit (le_value (Suc n) f :: 'a word) k \<longleftrightarrow>
      bit (le_value n f :: 'a word) k \<or> bit (push_bit (8 * n) (ucast (f n)) :: 'a word) k"
    by (simp add: le_value_def bit_or_iff)
  also have "bit (push_bit (8 * n) (ucast (f n)) :: 'a word) k \<longleftrightarrow>
      8 * n \<le> k \<and> k < LENGTH('a) \<and> k < 8 * Suc n \<and> bit (f (k div 8)) (k mod 8)"
  proof (cases "8 * n \<le> k \<and> k < 8 * Suc n")
    case True
    then obtain j where "k = 8 * n + j" "j < 8" 
      by (metis add.commute add_less_cancel_left le_Suc_ex mult_Suc_right)
    then show ?thesis by (auto simp: bit_push_bit_iff bit_ucast_iff)
  next
    case False
    then show ?thesis using bit_imp_le_length [of "f n" "k - 8 * n"]
      by (auto simp: bit_push_bit_iff bit_ucast_iff)
  qed
  finally show ?case using Suc by auto
qed (simp add: le_value_def)


lemma le_value_bytes:
  fixes v :: "'a::len word"
  assumes "LENGTH('a) = 8 * n"
  shows "le_value n (\<lambda>i. le_bytes n v ! i) = v"
proof (rule bit_word_eqI)
  fix k assume k: "k < LENGTH('a)"
  then have "k div 8 < n" "8 * (k div 8) + k mod 8 = k" using assms by auto
  then show "bit (le_value n (\<lambda>i. le_bytes n v ! i) :: 'a word) k \<longleftrightarrow> bit v k"
    using k assms by (auto simp: bit_le_value le_bytes_def bit_ucast_iff bit_drop_bit_eq)
qed

lemma le_bytes_value:
  assumes "LENGTH('a) = 8 * n" "length bs = n"
  shows "le_bytes n (le_value n (\<lambda>i. bs ! i) :: 'a::len word) = bs"
proof (rule nth_equalityI)
  fix i assume i: "i < length (le_bytes n (le_value n (\<lambda>i. bs ! i) :: 'a word))"
  then have n: "i < n" by simp
  show "le_bytes n (le_value n (\<lambda>i. bs ! i) :: 'a word) ! i = bs ! i"
  proof (rule bit_word_eqI)
    fix k :: nat assume k: "k < LENGTH(8)"
    have "8 * i + k < 8 * n" using n k by simp
    with n k assms(1) show "bit (le_bytes n (le_value n (\<lambda>i. bs ! i) :: 'a word) ! i) k \<longleftrightarrow> bit (bs ! i) k"
      by (simp add: le_bytes_def bit_ucast_iff bit_drop_bit_eq bit_le_value)
  qed
qed (simp add: assms)

section \<open>The contract of a value on the wire\<close>

text \<open>A reader that has consumed \<open>pre\<close> and has \<open>xs\<close> ahead.\<close>

definition reader_at :: "bytes \<Rightarrow> bytes \<Rightarrow> reader" where
  "reader_at pre xs = \<lparr>br_data = pre @ xs, br_pos = length pre\<rparr>"

lemma reader_new_at: "reader_new xs = reader_at [] xs"
  by (simp add: reader_new_def reader_at_def)

locale codec =
  fixes size :: nat and put :: "'a \<Rightarrow> bytes \<Rightarrow> bytes" and get :: "reader \<Rightarrow> ('a \<times> reader) option"
  assumes put_append: "put v buf = buf @ put v []"
    and size_put: "length (put v []) = size"
    and get_iff: "get (reader_at pre xs) = Some (v, r) \<longleftrightarrow>
      (\<exists>rest. xs = put v [] @ rest \<and> r = reader_at (pre @ put v []) rest)"
    and get_None: "get (reader_at pre xs) = None \<longleftrightarrow> length xs < size"
begin

lemma get_put: "get (reader_at pre (put v [] @ rest)) = Some (v, reader_at (pre @ put v []) rest)"
  using get_iff by blast

lemma put_inject: "put v [] @ xs = put w [] @ ys \<Longrightarrow> v = w \<and> xs = ys"
  using get_iff [of "[]" "put v [] @ xs"] size_put by (metis append_eq_append_conv option.inject prod.inject)

lemma split_put: "size \<le> length xs \<Longrightarrow> \<exists>v rest. xs = put v [] @ rest"
  by (metis get_None get_iff not_None_eq linorder_not_less surj_pair)

lemma fold_put: "fold put vs buf = buf @ concat (map (\<lambda>v. put v []) vs)"
proof (induction vs arbitrary: buf)
  case (Cons v vs)
  have "put v buf = buf @ put v []" by (rule put_append)
  with Cons show ?case by simp
qed simp

lemma get_cases:
  obtains (short) "get (reader_at pre xs) = None" "length xs < size"
  | (full) v rest where "xs = put v [] @ rest" "get (reader_at pre xs) = Some (v, reader_at (pre @ put v []) rest)"
proof (cases "get (reader_at pre xs)")
  case None
  with get_None short show thesis by blast
next
  case (Some p)
  then obtain v r where "get (reader_at pre xs) = Some (v, r)" by (cases p) simp
  with get_iff full show thesis by metis
qed

end

text \<open>Both word sizes at once.\<close>

lemma le_codec:
  fixes get :: "reader \<Rightarrow> ('a::len word \<times> reader) option"
  assumes len: "LENGTH('a) = 8 * n" and pos: "0 < n"
    and put: "\<And>v buf. put v buf = foldl (\<lambda>b i. b @ [ucast (drop_bit (8 * i) v)]) buf [0..<n]"
    and get: "\<And>r. get r = (if \<not> HasBytes n r then None
      else Some (foldl (\<lambda>v i. v OR push_bit (8 * i) (ucast (br_data r ! (br_pos r + i)))) 0 [0..<n],
                 r\<lparr>br_pos := br_pos r + n\<rparr>))"
  shows "codec n put get"
proof
  have put': "put v [] = le_bytes n v" for v by (simp add: put foldl_snoc_map le_bytes_def)
  have get': "get (reader_at pre xs) = (if length xs < n then None
      else Some (le_value n (\<lambda>i. take n xs ! i), reader_at (pre @ take n xs) (drop n xs)))" for pre xs
  proof -
    have "foldl (\<lambda>v i. v OR push_bit (8 * i) (ucast ((pre @ xs) ! (length pre + i)))) 0 [0..<n] =
        (le_value n (\<lambda>i. take n xs ! i) :: 'a word)"
      unfolding le_value_def by (rule foldl_cong) simp_all
    then show ?thesis by (auto simp: get HasBytes_def reader_at_def min_def)
  qed
  fix v :: "'a word" and buf pre xs :: bytes and r :: reader
  show "put v buf = buf @ put v []" by (simp add: put foldl_snoc_map)
  show "length (put v []) = n" by (simp add: put')
  show "get (reader_at pre xs) = None \<longleftrightarrow> length xs < n" by (simp add: get')
  show "get (reader_at pre xs) = Some (v, r) \<longleftrightarrow>
      (\<exists>rest. xs = put v [] @ rest \<and> r = reader_at (pre @ put v []) rest)"
  proof
    assume a: "get (reader_at pre xs) = Some (v, r)"
    then have l: "\<not> length xs < n" and v: "v = le_value n (\<lambda>i. take n xs ! i)"
      and r: "r = reader_at (pre @ take n xs) (drop n xs)" by (auto simp: get' split: if_splits)
    have "le_bytes n v = take n xs" unfolding v using l by (intro le_bytes_value [OF len]) simp
    with r show "\<exists>rest. xs = put v [] @ rest \<and> r = reader_at (pre @ put v []) rest"
      by (intro exI [of _ "drop n xs"]) (simp add: put')
  next
    assume "\<exists>rest. xs = put v [] @ rest \<and> r = reader_at (pre @ put v []) rest"
    then obtain rest where x: "xs = le_bytes n v @ rest" "r = reader_at (pre @ le_bytes n v) rest" by (auto simp: put')
    then have "take n xs = le_bytes n v" "drop n xs = rest" by simp_all
    with x show "get (reader_at pre xs) = Some (v, r)" by (simp add: get' le_value_bytes [OF len])
  qed
qed

interpretation u8: codec 1 WriteU8 ReadU8
  by (unfold_locales,
      auto simp: WriteU8_def ReadU8_def HasBytes_def reader_at_def nth_append neq_Nil_conv Suc_le_eq split: if_splits)
    (metis list.exhaust)

interpretation u32: codec 4 WriteU32 ReadU32
  by (rule le_codec) (simp_all add: WriteU32_def ReadU32_def)

interpretation u64: codec 8 WriteU64 ReadU64
  by (rule le_codec) (simp_all add: WriteU64_def ReadU64_def)

interpretation i64: codec 8 WriteI64 ReadI64
proof
  fix v :: price and buf pre xs :: bytes and r :: reader
  show "WriteI64 v buf = buf @ WriteI64 v []" unfolding WriteI64_def by (rule u64.put_append)
  show "length (WriteI64 v []) = 8" unfolding WriteI64_def by (rule u64.size_put)
  show "ReadI64 (reader_at pre xs) = None \<longleftrightarrow> length xs < 8"
    using u64.get_None [of pre xs] by (auto simp: ReadI64_def split: option.splits bind_splits)
  show "ReadI64 (reader_at pre xs) = Some (v, r) \<longleftrightarrow>
      (\<exists>rest. xs = WriteI64 v [] @ rest \<and> r = reader_at (pre @ WriteI64 v []) rest)"
    using u64.get_iff [of pre xs "ticks v" r]
    by (cases v) (auto simp: ReadI64_def WriteI64_def bind_eq_Some_conv)
qed

lemmas put_append = u8.put_append u32.put_append u64.put_append i64.put_append
lemmas size_put [simp, codec_simps] = u8.size_put u32.size_put u64.size_put i64.size_put
lemmas get_put [simp, codec_simps] = u8.get_put u32.get_put u64.get_put i64.get_put
lemmas get_iff = u8.get_iff u32.get_iff u64.get_iff i64.get_iff
lemmas get_None = u8.get_None u32.get_None u64.get_None i64.get_None

text \<open>A sequence of calls on one writer.\<close>

definition appends :: "(bytes \<Rightarrow> bytes) \<Rightarrow> bool" where
  "appends w \<longleftrightarrow> (\<forall>buf. w buf = buf @ w [])"

lemma appends_writers [simp]:
  "appends (WriteU8 a)" "appends (WriteU32 b)" "appends (WriteU64 c)" "appends (WriteI64 d)"
  unfolding appends_def using put_append by blast+

lemma fold_appends:
  assumes "list_all appends ws"
  shows "fold (\<lambda>w buf. w buf) ws buf = buf @ concat (map (\<lambda>w. w []) ws)"
  using assms
proof (induction ws arbitrary: buf)
  case (Cons w ws)
  then have "w buf = buf @ w []" unfolding list.pred_inject appends_def by blast
  with Cons show ?case by simp
qed simp

end
