(* ===== verification/Protocol.thy ===== *)
theory Protocol
  imports Binary_Codec
begin

text \<open>
  \<open>include/matching_engine/net/protocol.hpp\<close> and \<open>src/net/protocol.cpp\<close>: the bodies of the
  frames on the wire, which are also the records of the journal.

  The lemmas show that decoding inverts encoding, exactly which bodies decode to a command, and
  that no message decodes from fewer bytes than it was encoded to.
\<close>

datatype message_type = MessageType (message_type_u8: u8)
abbreviation MT_NewOrder :: message_type where "MT_NewOrder \<equiv> MessageType 0x01"
abbreviation MT_Cancel :: message_type where "MT_Cancel \<equiv> MessageType 0x02"
abbreviation MT_Modify :: message_type where "MT_Modify \<equiv> MessageType 0x03"
abbreviation MT_Accepted :: message_type where "MT_Accepted \<equiv> MessageType 0x81"
abbreviation MT_Rejected :: message_type where "MT_Rejected \<equiv> MessageType 0x82"
abbreviation MT_Cancelled :: message_type where "MT_Cancelled \<equiv> MessageType 0x83"
abbreviation MT_Modified :: message_type where "MT_Modified \<equiv> MessageType 0x84"
abbreviation MT_TradeMsg :: message_type where "MT_TradeMsg \<equiv> MessageType 0x85"
abbreviation MT_BookUpdateMsg :: message_type where "MT_BookUpdateMsg \<equiv> MessageType 0x86"

text \<open>A sequence of calls on one writer, starting from an empty vector.\<close>

definition write_all :: "(bytes \<Rightarrow> bytes) list \<Rightarrow> bytes" where
  "write_all ws = fold (\<lambda>w buf. w buf) ws []"

section \<open>Commands\<close>

definition DecodeNewOrder :: "reader \<Rightarrow> command option" where
  "DecodeNewOrder r =
     do {
       (order_id, r) \<leftarrow> ReadU64 r;
       (trader_id, r) \<leftarrow> ReadU64 r;
       (symbol_id, r) \<leftarrow> ReadU32 r;
       (side, r) \<leftarrow> ReadU8 r;
       (type, r) \<leftarrow> ReadU8 r;
       (tif, r) \<leftarrow> ReadU8 r;
       (price, r) \<leftarrow> ReadI64 r;
       (quantity, r) \<leftarrow> ReadU64 r;
       (timestamp, r) \<leftarrow> ReadU64 r;
       Some (NewOrderCommand
         \<lparr>nc_order_id = order_id, nc_trader_id = trader_id, nc_symbol_id = symbol_id, nc_side = Side side,
          nc_type = OrderType type, nc_price = price, nc_quantity = quantity,
          nc_time_in_force = TimeInForce tif, nc_timestamp = timestamp\<rparr>)
     }"

definition DecodeCancel :: "reader \<Rightarrow> command option" where
  "DecodeCancel r =
     do {
       (order_id, r) \<leftarrow> ReadU64 r;
       (trader_id, r) \<leftarrow> ReadU64 r;
       (symbol_id, r) \<leftarrow> ReadU32 r;
       (timestamp, r) \<leftarrow> ReadU64 r;
       Some (CancelCommand
         \<lparr>cc_order_id = order_id, cc_trader_id = trader_id, cc_symbol_id = symbol_id, cc_timestamp = timestamp\<rparr>)
     }"

definition DecodeModify :: "reader \<Rightarrow> command option" where
  "DecodeModify r =
     do {
       (order_id, r) \<leftarrow> ReadU64 r;
       (trader_id, r) \<leftarrow> ReadU64 r;
       (symbol_id, r) \<leftarrow> ReadU32 r;
       (new_price, r) \<leftarrow> ReadI64 r;
       (new_quantity, r) \<leftarrow> ReadU64 r;
       (timestamp, r) \<leftarrow> ReadU64 r;
       Some (ModifyCommand
         \<lparr>mc_order_id = order_id, mc_trader_id = trader_id, mc_symbol_id = symbol_id, mc_new_price = new_price,
          mc_new_quantity = new_quantity, mc_timestamp = timestamp\<rparr>)
     }"

definition DecodeCommand :: "bytes \<Rightarrow> command option" where
  "DecodeCommand body =
     (if body = [] then None
      else do {
        (type_byte, r) \<leftarrow> ReadU8 (reader_new body);
        (let t = MessageType type_byte in
         if t = MT_NewOrder then DecodeNewOrder r
         else if t = MT_Cancel then DecodeCancel r
         else if t = MT_Modify then DecodeModify r
         else None)
      })"

fun EncodeCommand :: "command \<Rightarrow> bytes" where
  "EncodeCommand (NewOrderCommand c) =
     write_all
      [WriteU8 (message_type_u8 MT_NewOrder),
       WriteU64 (nc_order_id c),
       WriteU64 (nc_trader_id c),
       WriteU32 (nc_symbol_id c),
       WriteU8 (side_u8 (nc_side c)),
       WriteU8 (order_type_u8 (nc_type c)),
       WriteU8 (time_in_force_u8 (nc_time_in_force c)),
       WriteI64 (nc_price c),
       WriteU64 (nc_quantity c),
       WriteU64 (nc_timestamp c)]"
| "EncodeCommand (CancelCommand c) =
     write_all
      [WriteU8 (message_type_u8 MT_Cancel),
       WriteU64 (cc_order_id c),
       WriteU64 (cc_trader_id c),
       WriteU32 (cc_symbol_id c),
       WriteU64 (cc_timestamp c)]"
| "EncodeCommand (ModifyCommand c) =
     write_all
      [WriteU8 (message_type_u8 MT_Modify),
       WriteU64 (mc_order_id c),
       WriteU64 (mc_trader_id c),
       WriteU32 (mc_symbol_id c),
       WriteI64 (mc_new_price c),
       WriteU64 (mc_new_quantity c),
       WriteU64 (mc_timestamp c)]"

section \<open>Events\<close>

fun EncodeEvent :: "event \<Rightarrow> bytes" where
  "EncodeEvent (AcceptedEvent e) =
     write_all
      [WriteU8 (message_type_u8 MT_Accepted),
       WriteU64 (ae_sequence_number e),
       WriteU64 (ae_timestamp e),
       WriteU32 (ae_symbol_id e),
       WriteU64 (ae_order_id e),
       WriteU64 (ae_trader_id e),
       WriteU8 (side_u8 (ae_side e)),
       WriteU8 (order_type_u8 (ae_type e)),
       WriteI64 (ae_price e),
       WriteU64 (ae_quantity e),
       WriteU64 (ae_filled_quantity e),
       WriteU64 (ae_remaining_quantity e),
       WriteU8 (order_status_u8 (ae_status e))]"
| "EncodeEvent (RejectedEvent e) =
     write_all
      [WriteU8 (message_type_u8 MT_Rejected),
       WriteU64 (re_sequence_number e),
       WriteU64 (re_timestamp e),
       WriteU32 (re_symbol_id e),
       WriteU64 (re_order_id e),
       WriteU64 (re_trader_id e),
       WriteU8 (reject_reason_u8 (re_reason e))]"
| "EncodeEvent (CancelledEvent e) =
     write_all
      [WriteU8 (message_type_u8 MT_Cancelled),
       WriteU64 (ce_sequence_number e),
       WriteU64 (ce_timestamp e),
       WriteU32 (ce_symbol_id e),
       WriteU64 (ce_order_id e),
       WriteU64 (ce_trader_id e)]"
| "EncodeEvent (ModifiedEvent e) =
     write_all
      [WriteU8 (message_type_u8 MT_Modified),
       WriteU64 (me_sequence_number e),
       WriteU64 (me_timestamp e),
       WriteU32 (me_symbol_id e),
       WriteU64 (me_order_id e),
       WriteU64 (me_trader_id e),
       WriteI64 (me_new_price e),
       WriteU64 (me_new_remaining_quantity e),
       WriteU8 (if me_lost_priority e then 1 else 0)]"
| "EncodeEvent (TradeEvent e) =
     write_all
      [WriteU8 (message_type_u8 MT_TradeMsg),
       WriteU64 (t_sequence_number e),
       WriteU64 (t_timestamp e),
       WriteU32 (t_symbol_id e),
       WriteU64 (t_aggressor_order_id e),
       WriteU64 (t_resting_order_id e),
       WriteU64 (t_aggressor_trader_id e),
       WriteU64 (t_resting_trader_id e),
       WriteU8 (side_u8 (t_aggressor_side e)),
       WriteI64 (t_price e),
       WriteU64 (t_quantity e)]"
| "EncodeEvent (BookUpdateEvent e) =
     write_all
      [WriteU8 (message_type_u8 MT_BookUpdateMsg),
       WriteU64 (be_sequence_number e),
       WriteU64 (be_timestamp e),
       WriteU32 (be_symbol_id e),
       WriteU8 (side_u8 (be_side e)),
       WriteI64 (be_price e),
       WriteU64 (be_aggregate_quantity e)]"

definition DecodeAccepted :: "sequence_number \<Rightarrow> timestamp \<Rightarrow> symbol_id \<Rightarrow> reader \<Rightarrow> event option" where
  "DecodeAccepted seq ts symbol r =
     do {
       (order_id, r) \<leftarrow> ReadU64 r;
       (trader_id, r) \<leftarrow> ReadU64 r;
       (side, r) \<leftarrow> ReadU8 r;
       (type, r) \<leftarrow> ReadU8 r;
       (price, r) \<leftarrow> ReadI64 r;
       (quantity, r) \<leftarrow> ReadU64 r;
       (filled, r) \<leftarrow> ReadU64 r;
       (remaining, r) \<leftarrow> ReadU64 r;
       (status, r) \<leftarrow> ReadU8 r;
       Some (AcceptedEvent
         \<lparr>ae_sequence_number = seq, ae_timestamp = ts, ae_symbol_id = symbol, ae_order_id = order_id,
          ae_trader_id = trader_id, ae_side = Side side, ae_type = OrderType type, ae_price = price,
          ae_quantity = quantity, ae_filled_quantity = filled, ae_remaining_quantity = remaining,
          ae_status = OrderStatus status\<rparr>)
     }"

definition DecodeRejected :: "sequence_number \<Rightarrow> timestamp \<Rightarrow> symbol_id \<Rightarrow> reader \<Rightarrow> event option" where
  "DecodeRejected seq ts symbol r =
     do {
       (order_id, r) \<leftarrow> ReadU64 r;
       (trader_id, r) \<leftarrow> ReadU64 r;
       (reason, r) \<leftarrow> ReadU8 r;
       Some (RejectedEvent
         \<lparr>re_sequence_number = seq, re_timestamp = ts, re_symbol_id = symbol, re_order_id = order_id,
          re_trader_id = trader_id, re_reason = RejectReason reason\<rparr>)
     }"

definition DecodeCancelled :: "sequence_number \<Rightarrow> timestamp \<Rightarrow> symbol_id \<Rightarrow> reader \<Rightarrow> event option" where
  "DecodeCancelled seq ts symbol r =
     do {
       (order_id, r) \<leftarrow> ReadU64 r;
       (trader_id, r) \<leftarrow> ReadU64 r;
       Some (CancelledEvent
         \<lparr>ce_sequence_number = seq, ce_timestamp = ts, ce_symbol_id = symbol, ce_order_id = order_id,
          ce_trader_id = trader_id\<rparr>)
     }"

definition DecodeModified :: "sequence_number \<Rightarrow> timestamp \<Rightarrow> symbol_id \<Rightarrow> reader \<Rightarrow> event option" where
  "DecodeModified seq ts symbol r =
     do {
       (order_id, r) \<leftarrow> ReadU64 r;
       (trader_id, r) \<leftarrow> ReadU64 r;
       (new_price, r) \<leftarrow> ReadI64 r;
       (new_remaining, r) \<leftarrow> ReadU64 r;
       (lost_priority, r) \<leftarrow> ReadU8 r;
       Some (ModifiedEvent
         \<lparr>me_sequence_number = seq, me_timestamp = ts, me_symbol_id = symbol, me_order_id = order_id,
          me_trader_id = trader_id, me_new_price = new_price, me_new_remaining_quantity = new_remaining,
          me_lost_priority = (lost_priority \<noteq> 0)\<rparr>)
     }"

definition DecodeTrade :: "sequence_number \<Rightarrow> timestamp \<Rightarrow> symbol_id \<Rightarrow> reader \<Rightarrow> event option" where
  "DecodeTrade seq ts symbol r =
     do {
       (aggressor_id, r) \<leftarrow> ReadU64 r;
       (resting_id, r) \<leftarrow> ReadU64 r;
       (aggressor_trader, r) \<leftarrow> ReadU64 r;
       (resting_trader, r) \<leftarrow> ReadU64 r;
       (side, r) \<leftarrow> ReadU8 r;
       (price, r) \<leftarrow> ReadI64 r;
       (quantity, r) \<leftarrow> ReadU64 r;
       Some (TradeEvent
         \<lparr>t_sequence_number = seq, t_timestamp = ts, t_symbol_id = symbol,
          t_aggressor_order_id = aggressor_id, t_resting_order_id = resting_id,
          t_aggressor_trader_id = aggressor_trader, t_resting_trader_id = resting_trader,
          t_aggressor_side = Side side, t_price = price, t_quantity = quantity\<rparr>)
     }"

definition DecodeBookUpdate :: "sequence_number \<Rightarrow> timestamp \<Rightarrow> symbol_id \<Rightarrow> reader \<Rightarrow> event option" where
  "DecodeBookUpdate seq ts symbol r =
     do {
       (side, r) \<leftarrow> ReadU8 r;
       (price, r) \<leftarrow> ReadI64 r;
       (aggregate, r) \<leftarrow> ReadU64 r;
       Some (BookUpdateEvent
         \<lparr>be_sequence_number = seq, be_timestamp = ts, be_symbol_id = symbol, be_side = Side side,
          be_price = price, be_aggregate_quantity = aggregate\<rparr>)
     }"

definition DecodeEvent :: "bytes \<Rightarrow> event option" where
  "DecodeEvent body =
     (if body = [] then None
      else do {
        (type_byte, r) \<leftarrow> ReadU8 (reader_new body);
        (seq, r) \<leftarrow> ReadU64 r;
        (ts, r) \<leftarrow> ReadU64 r;
        (symbol, r) \<leftarrow> ReadU32 r;
        (let t = MessageType type_byte in
         if t = MT_Accepted then DecodeAccepted seq ts symbol r
         else if t = MT_Rejected then DecodeRejected seq ts symbol r
         else if t = MT_Cancelled then DecodeCancelled seq ts symbol r
         else if t = MT_Modified then DecodeModified seq ts symbol r
         else if t = MT_TradeMsg then DecodeTrade seq ts symbol r
         else if t = MT_BookUpdateMsg then DecodeBookUpdate seq ts symbol r
         else None)
      })"

lemmas decoders = DecodeCommand_def DecodeNewOrder_def DecodeCancel_def DecodeModify_def
  DecodeEvent_def DecodeAccepted_def DecodeRejected_def DecodeCancelled_def DecodeModified_def
  DecodeTrade_def DecodeBookUpdate_def

section \<open>Encoded fields\<close>

text \<open>The writers append, so an encoding is the concatenation of the encodings of the fields.\<close>

lemma write_all_concat: "list_all appends ws \<Longrightarrow> write_all ws = concat (map (\<lambda>w. w []) ws)"
  by (simp add: write_all_def fold_appends)

lemma EncodeCommand_fields:
  "EncodeCommand (NewOrderCommand c) =
     WriteU8 0x01 [] @ WriteU64 (nc_order_id c) [] @ WriteU64 (nc_trader_id c) [] @ WriteU32 (nc_symbol_id c) [] @
     WriteU8 (side_u8 (nc_side c)) [] @ WriteU8 (order_type_u8 (nc_type c)) [] @
     WriteU8 (time_in_force_u8 (nc_time_in_force c)) [] @ WriteI64 (nc_price c) [] @ WriteU64 (nc_quantity c) [] @
     WriteU64 (nc_timestamp c) []"
  "EncodeCommand (CancelCommand d) =
     WriteU8 0x02 [] @ WriteU64 (cc_order_id d) [] @ WriteU64 (cc_trader_id d) [] @ WriteU32 (cc_symbol_id d) [] @
     WriteU64 (cc_timestamp d) []"
  "EncodeCommand (ModifyCommand m) =
     WriteU8 0x03 [] @ WriteU64 (mc_order_id m) [] @ WriteU64 (mc_trader_id m) [] @ WriteU32 (mc_symbol_id m) [] @
     WriteI64 (mc_new_price m) [] @ WriteU64 (mc_new_quantity m) [] @ WriteU64 (mc_timestamp m) []"
  by (simp_all add: write_all_concat)

lemma EncodeEvent_fields:
  "EncodeEvent (AcceptedEvent a) =
     WriteU8 0x81 [] @ WriteU64 (ae_sequence_number a) [] @ WriteU64 (ae_timestamp a) [] @ WriteU32 (ae_symbol_id a) [] @
     WriteU64 (ae_order_id a) [] @ WriteU64 (ae_trader_id a) [] @ WriteU8 (side_u8 (ae_side a)) [] @
     WriteU8 (order_type_u8 (ae_type a)) [] @ WriteI64 (ae_price a) [] @ WriteU64 (ae_quantity a) [] @
     WriteU64 (ae_filled_quantity a) [] @ WriteU64 (ae_remaining_quantity a) [] @ WriteU8 (order_status_u8 (ae_status a)) []"
  "EncodeEvent (RejectedEvent b) =
     WriteU8 0x82 [] @ WriteU64 (re_sequence_number b) [] @ WriteU64 (re_timestamp b) [] @ WriteU32 (re_symbol_id b) [] @
     WriteU64 (re_order_id b) [] @ WriteU64 (re_trader_id b) [] @ WriteU8 (reject_reason_u8 (re_reason b)) []"
  "EncodeEvent (CancelledEvent c) =
     WriteU8 0x83 [] @ WriteU64 (ce_sequence_number c) [] @ WriteU64 (ce_timestamp c) [] @ WriteU32 (ce_symbol_id c) [] @
     WriteU64 (ce_order_id c) [] @ WriteU64 (ce_trader_id c) []"
  "EncodeEvent (ModifiedEvent d) =
     WriteU8 0x84 [] @ WriteU64 (me_sequence_number d) [] @ WriteU64 (me_timestamp d) [] @ WriteU32 (me_symbol_id d) [] @
     WriteU64 (me_order_id d) [] @ WriteU64 (me_trader_id d) [] @ WriteI64 (me_new_price d) [] @
     WriteU64 (me_new_remaining_quantity d) [] @ WriteU8 (if me_lost_priority d then 1 else 0) []"
  "EncodeEvent (TradeEvent t) =
     WriteU8 0x85 [] @ WriteU64 (t_sequence_number t) [] @ WriteU64 (t_timestamp t) [] @ WriteU32 (t_symbol_id t) [] @
     WriteU64 (t_aggressor_order_id t) [] @ WriteU64 (t_resting_order_id t) [] @ WriteU64 (t_aggressor_trader_id t) [] @
     WriteU64 (t_resting_trader_id t) [] @ WriteU8 (side_u8 (t_aggressor_side t)) [] @ WriteI64 (t_price t) [] @
     WriteU64 (t_quantity t) []"
  "EncodeEvent (BookUpdateEvent u) =
     WriteU8 0x86 [] @ WriteU64 (be_sequence_number u) [] @ WriteU64 (be_timestamp u) [] @ WriteU32 (be_symbol_id u) [] @
     WriteU8 (side_u8 (be_side u)) [] @ WriteI64 (be_price u) [] @ WriteU64 (be_aggregate_quantity u) []"
  by (simp_all add: write_all_concat)

lemmas encoders = EncodeCommand_fields EncodeEvent_fields

declare EncodeCommand.simps [simp del] EncodeEvent.simps [simp del]

section \<open>Round trips\<close>

lemma u8_nonempty [simp]: "WriteU8 v [] \<noteq> []"
  by (simp add: WriteU8_def)

lemma decode_encode_command: "DecodeCommand (EncodeCommand cmd @ rest) = Some cmd"
  by (cases cmd) (simp_all add: encoders decoders reader_new_at)

lemma decode_encode_event: "DecodeEvent (EncodeEvent ev @ rest) = Some ev"
  by (cases ev) (simp_all add: encoders decoders reader_new_at)

lemma decode_command_iff: "DecodeCommand body = Some cmd \<longleftrightarrow> (\<exists>rest. body = EncodeCommand cmd @ rest)"
proof
  assume dec: "DecodeCommand body = Some cmd"
  then obtain t r where t: "ReadU8 (reader_at [] body) = Some (t, r)"
    by (auto simp: DecodeCommand_def reader_new_at bind_eq_Some_conv split: if_splits)
  then obtain xs where xs: "body = WriteU8 t [] @ xs" "r = reader_at (WriteU8 t []) xs" by (auto simp: get_iff)
  from dec t have "t = 1 \<and> DecodeNewOrder r = Some cmd \<or> t = 2 \<and> DecodeCancel r = Some cmd \<or> t = 3 \<and> DecodeModify r = Some cmd"
    by (auto simp: DecodeCommand_def reader_new_at Let_def split: if_splits)
  then show "\<exists>rest. body = EncodeCommand cmd @ rest"
    unfolding xs by (elim disjE conjE) (auto simp: decoders bind_eq_Some_conv get_iff encoders)
qed (auto simp: decode_encode_command)

lemma decode_event_bytes:
  assumes dec: "DecodeEvent body = Some ev"
  shows "length (EncodeEvent ev) \<le> length body \<and> DecodeEvent (body @ rest) = Some ev"
proof -
  from dec obtain t r seq r1 ts r2 symb r3 where reads: "ReadU8 (reader_at [] body) = Some (t, r)"
    "ReadU64 r = Some (seq, r1)" "ReadU64 r1 = Some (ts, r2)" "ReadU32 r2 = Some (symb, r3)"
    by (fastforce simp: DecodeEvent_def reader_new_at bind_eq_Some_conv split: if_splits)
  then obtain xs where body: "body = WriteU8 t [] @ WriteU64 seq [] @ WriteU64 ts [] @ WriteU32 symb [] @ xs"
    by (auto simp: get_iff)
  let ?r = "\<lambda>xs. reader_at (WriteU8 t [] @ WriteU64 seq [] @ WriteU64 ts [] @ WriteU32 symb []) xs"
  have read: "DecodeEvent (WriteU8 t [] @ WriteU64 seq [] @ WriteU64 ts [] @ WriteU32 symb [] @ ys) =
      (if t = 0x81 then DecodeAccepted seq ts symb (?r ys) else if t = 0x82 then DecodeRejected seq ts symb (?r ys)
       else if t = 0x83 then DecodeCancelled seq ts symb (?r ys) else if t = 0x84 then DecodeModified seq ts symb (?r ys)
       else if t = 0x85 then DecodeTrade seq ts symb (?r ys) else if t = 0x86 then DecodeBookUpdate seq ts symb (?r ys)
       else None)" for ys
    by (simp add: DecodeEvent_def reader_new_at Let_def)
  have whole: "body @ rest = WriteU8 t [] @ WriteU64 seq [] @ WriteU64 ts [] @ WriteU32 symb [] @ xs @ rest" by (simp add: body)
  show ?thesis
    using dec unfolding whole read unfolding body read
    by (auto simp: decoders bind_eq_Some_conv get_iff encoders split: if_splits) blast
qed

section \<open>Properties\<close>

text \<open>
  A body decodes to a command exactly when it starts with the encoding of that command:
  decoding inverts encoding, different commands have different encodings, none of which is a
  prefix of another, and bytes after the command are ignored.
\<close>

lemma command_wire_format:
  "DecodeCommand body = Some cmd \<longleftrightarrow> (\<exists>rest. body = EncodeCommand cmd @ rest)"
  by (rule decode_command_iff)

text \<open>
  A truncated command is refused: of the prefixes of an encoded command only the whole
  encoding decodes.
\<close>

lemma command_truncated:
  "DecodeCommand (take k (EncodeCommand cmd)) = (if k < length (EncodeCommand cmd) then None else Some cmd)"
proof (cases "k < length (EncodeCommand cmd)")
  case True
  have "DecodeCommand (take k (EncodeCommand cmd)) \<noteq> Some c" for c
  proof
    assume "DecodeCommand (take k (EncodeCommand cmd)) = Some c"
    then obtain rest where r: "take k (EncodeCommand cmd) = EncodeCommand c @ rest" by (auto simp: decode_command_iff)
    then have "EncodeCommand cmd = EncodeCommand c @ rest @ drop k (EncodeCommand cmd)"
      by (metis append.assoc append_take_drop_id)
    from arg_cong [OF this, of DecodeCommand] have "cmd = c"
      using decode_encode_command [of cmd "[]"] decode_encode_command [of c] by simp
    with arg_cong [OF r, of length] True show False by simp
  qed
  with True show ?thesis by (metis not_Some_eq)
qed (use decode_encode_command [of cmd "[]"] in simp)

text \<open>
  Execution reports round-trip, and a truncated report is refused: of the prefixes of an
  encoded event only the whole encoding decodes, and it decodes to the event.
\<close>

lemma event_roundtrip:
  "DecodeEvent (take k (EncodeEvent ev)) = (if k < length (EncodeEvent ev) then None else Some ev)"
proof (cases "k < length (EncodeEvent ev)")
  case True
  have "DecodeEvent (take k (EncodeEvent ev)) \<noteq> Some e" for e
  proof
    assume "DecodeEvent (take k (EncodeEvent ev)) = Some e"
    from decode_event_bytes [OF this, of "drop k (EncodeEvent ev)"]
    have "length (EncodeEvent e) \<le> k" "DecodeEvent (EncodeEvent ev) = Some e" using True by simp_all
    then show False using decode_encode_event [of ev "[]"] True by simp
  qed
  with True show ?thesis by (metis not_Some_eq)
qed (use decode_encode_event [of ev "[]"] in simp)

text \<open>
  C28. The wire format. A body decodes to a command exactly when it starts with the encoding of
  that command: decoding inverts encoding, different commands have different encodings, none of
  which is a prefix of another, and bytes after the command are ignored. Execution reports
  round-trip, and of the prefixes of an encoded report only the whole encoding decodes.
\<close>

theorem wire_format:
  "(DecodeCommand body = Some cmd \<longleftrightarrow> (\<exists>rest. body = EncodeCommand cmd @ rest)) \<and>
   DecodeEvent (take k (EncodeEvent ev)) = (if k < length (EncodeEvent ev) then None else Some ev)"
  using command_wire_format event_roundtrip by simp

end
