(* ===== verification/Frame_Decoder.thy ===== *)
theory Frame_Decoder
  imports Protocol
begin

text \<open>
  \<open>include/matching_engine/net/frame_decoder.hpp\<close>: reassembly of length-prefixed frames from
  chunks of bytes. \<open>out\<close> and \<open>protocol_error\<close> of \<open>TryExtractFrame\<close> are the result \<open>frame_result\<close>.

  The lemmas show that the decoder depends only on the bytes not yet consumed, that the frames it
  delivers do not depend on how the stream was cut into chunks, and that what it buffers stays
  bounded.
\<close>

section \<open>The decoder\<close>

definition kLengthPrefixBytes :: nat where "kLengthPrefixBytes = 4"
definition kMaxFrameBytes :: u64 where "kMaxFrameBytes = 64 * 1024"

record frame_decoder =
  fd_buffer :: bytes
  fd_read_offset :: nat

datatype frame_result = Frame bytes | NoFrame | ProtocolError

definition fd_new :: frame_decoder where
  "fd_new = \<lparr>fd_buffer = [], fd_read_offset = 0\<rparr>"

definition fd_Feed :: "bytes \<Rightarrow> frame_decoder \<Rightarrow> frame_decoder" where
  "fd_Feed data d = d\<lparr>fd_buffer := fd_buffer d @ data\<rparr>"

definition fd_Compact :: "frame_decoder \<Rightarrow> frame_decoder" where
  "fd_Compact d =
     (if fd_read_offset d = length (fd_buffer d) then \<lparr>fd_buffer = [], fd_read_offset = 0\<rparr>
      else if fd_read_offset d > 0 \<and> fd_read_offset d * 2 > length (fd_buffer d)
      then \<lparr>fd_buffer = drop (fd_read_offset d) (fd_buffer d), fd_read_offset = 0\<rparr>
      else d)"

definition fd_length :: "frame_decoder \<Rightarrow> u32" where
  "fd_length d =
     foldl (\<lambda>l i. l OR push_bit (8 * i) (ucast (fd_buffer d ! (fd_read_offset d + i)))) 0 [0..<4]"

definition fd_TryExtractFrame :: "frame_decoder \<Rightarrow> frame_result \<times> frame_decoder" where
  "fd_TryExtractFrame d =
     (let available = length (fd_buffer d) - fd_read_offset d in
      if available < kLengthPrefixBytes then (NoFrame, fd_Compact d)
      else
        let len = fd_length d in
        if ucast len > kMaxFrameBytes then (ProtocolError, d)
        else if available < kLengthPrefixBytes + unat len then (NoFrame, fd_Compact d)
        else
          (Frame (take (unat len) (drop (fd_read_offset d + kLengthPrefixBytes) (fd_buffer d))),
           fd_Compact (d\<lparr>fd_read_offset := fd_read_offset d + (kLengthPrefixBytes + unat len)\<rparr>)))"

definition fd_BufferedBytes :: "frame_decoder \<Rightarrow> nat" where
  "fd_BufferedBytes d = length (fd_buffer d) - fd_read_offset d"

definition FrameMessage :: "bytes \<Rightarrow> bytes" where
  "FrameMessage body =
     foldl (\<lambda>frame i. frame @ [ucast (drop_bit (8 * i) (word_of_nat (length body) :: u32))]) [] [0..<4] @ body"

section \<open>The bytes ahead\<close>

definition fd_ok :: "frame_decoder \<Rightarrow> bool" where
  "fd_ok d \<longleftrightarrow> fd_read_offset d \<le> length (fd_buffer d)"

definition fd_ahead :: "frame_decoder \<Rightarrow> bytes" where
  "fd_ahead d = drop (fd_read_offset d) (fd_buffer d)"

definition frame_length :: "bytes \<Rightarrow> u32" where
  "frame_length xs = le_value 4 (\<lambda>i. take 4 xs ! i)"

definition next_frame :: "bytes \<Rightarrow> frame_result \<times> bytes" where
  "next_frame xs =
     (if length xs < 4 then (NoFrame, xs)
      else if unat (frame_length xs) > unat kMaxFrameBytes then (ProtocolError, xs)
      else if length xs < 4 + unat (frame_length xs) then (NoFrame, xs)
      else (Frame (take (unat (frame_length xs)) (drop 4 xs)), drop (4 + unat (frame_length xs)) xs))"

lemma unat_kMaxFrameBytes [simp]: "unat kMaxFrameBytes = 65536"
  by (simp add: kMaxFrameBytes_def)

lemma exceeds_max_frame: "kMaxFrameBytes < ucast (l :: u32) \<longleftrightarrow> 65536 < unat l"
  by (simp add: word_less_nat_alt unsigned_ucast_eq take_bit_nat_eq_self order_less_le_trans [OF unsigned_less])

lemma fd_new_ok [simp]: "fd_ok fd_new" "fd_ahead fd_new = []"
  by (simp_all add: fd_new_def fd_ok_def fd_ahead_def)

lemma fd_Feed_ok [simp]: "fd_ok d \<Longrightarrow> fd_ok (fd_Feed xs d)" "fd_ok d \<Longrightarrow> fd_ahead (fd_Feed xs d) = fd_ahead d @ xs"
  by (simp_all add: fd_Feed_def fd_ok_def fd_ahead_def)

lemma fd_Compact_ok [simp]: "fd_ok d \<Longrightarrow> fd_ok (fd_Compact d)" "fd_ahead (fd_Compact d) = fd_ahead d"
  by (auto simp: fd_Compact_def fd_ok_def fd_ahead_def)

lemma fd_Compact_size: "fd_ok d \<Longrightarrow> length (fd_buffer (fd_Compact d)) \<le> 2 * length (fd_ahead d)"
  by (auto simp: fd_Compact_def fd_ok_def fd_ahead_def)

lemma fd_length_ahead:
  assumes "4 \<le> length (fd_ahead d)"
  shows "fd_length d = frame_length (fd_ahead d)"
proof -
  have "fd_buffer d ! (fd_read_offset d + i) = take 4 (fd_ahead d) ! i" if "i < 4" for i
    using assms that by (simp add: fd_ahead_def)
  then show ?thesis unfolding fd_length_def frame_length_def le_value_def by (intro foldl_cong) simp_all
qed

text \<open>\<open>TryExtractFrame\<close> implements \<open>next_frame\<close> on the bytes ahead.\<close>

lemma fd_TryExtractFrame_refines:
  assumes ok: "fd_ok d"
  shows "fst (fd_TryExtractFrame d) = fst (next_frame (fd_ahead d))"
    and "fd_ahead (snd (fd_TryExtractFrame d)) = snd (next_frame (fd_ahead d))"
    and "fd_ok (snd (fd_TryExtractFrame d))"
proof -
  have len: "length (fd_buffer d) - fd_read_offset d = length (fd_ahead d)" by (simp add: fd_ahead_def)
  note defs = fd_TryExtractFrame_def next_frame_def Let_def len kLengthPrefixBytes_def exceeds_max_frame
  have adv: "fd_ok (d\<lparr>fd_read_offset := fd_read_offset d + n\<rparr>)"
    "fd_ahead (d\<lparr>fd_read_offset := fd_read_offset d + n\<rparr>) = drop n (fd_ahead d)" if "n \<le> length (fd_ahead d)" for n
    using that ok by (simp_all add: fd_ok_def fd_ahead_def add.commute)
  have body: "drop (fd_read_offset d + 4) (fd_buffer d) = drop 4 (fd_ahead d)" by (simp add: fd_ahead_def add.commute)
  show "fst (fd_TryExtractFrame d) = fst (next_frame (fd_ahead d))"
    "fd_ahead (snd (fd_TryExtractFrame d)) = snd (next_frame (fd_ahead d))"
    "fd_ok (snd (fd_TryExtractFrame d))"
    using ok adv by (simp_all add: defs fd_length_ahead body)
qed

section \<open>Draining the decoder\<close>

text \<open>The loop of its clients: extract until no complete frame is left.\<close>

lemma next_frame_shrinks: "fst (next_frame xs) = Frame body \<Longrightarrow> length (snd (next_frame xs)) < length xs"
  by (auto simp: next_frame_def split: if_splits)

lemma next_frame_step: "next_frame xs = (Frame body, ys) \<Longrightarrow> length ys < length xs"
  using next_frame_shrinks [of xs body] by simp

lemma fd_TryExtractFrame_shrinks:
  assumes "fd_TryExtractFrame d = (Frame body, d')"
  shows "length (fd_ahead d') < length (fd_ahead d)"
proof (cases "fd_ok d")
  case True
  with fd_TryExtractFrame_refines [OF True] assms next_frame_shrinks [of "fd_ahead d" body] show ?thesis by simp
next
  case False
  with assms show ?thesis
    by (simp add: fd_TryExtractFrame_def fd_ok_def kLengthPrefixBytes_def Let_def split: if_splits)
qed

function fd_drain :: "frame_decoder \<Rightarrow> bytes list \<times> bool \<times> frame_decoder" where
  "fd_drain d =
     (case fd_TryExtractFrame d of
        (Frame body, d') \<Rightarrow> (case fd_drain d' of (bodies, err, d'') \<Rightarrow> (body # bodies, err, d''))
      | (NoFrame, d') \<Rightarrow> ([], False, d')
      | (ProtocolError, d') \<Rightarrow> ([], True, d'))"
  by pat_completeness auto
termination
  by (relation "measure (\<lambda>d. length (fd_ahead d))") (auto intro: fd_TryExtractFrame_shrinks [OF sym])

declare fd_drain.simps [simp del]

function parse_frames :: "bytes \<Rightarrow> bytes list \<times> bool \<times> bytes" where
  "parse_frames xs =
     (case next_frame xs of
        (Frame body, ys) \<Rightarrow> (case parse_frames ys of (bodies, err, zs) \<Rightarrow> (body # bodies, err, zs))
      | (NoFrame, ys) \<Rightarrow> ([], False, ys)
      | (ProtocolError, ys) \<Rightarrow> ([], True, ys))"
  by pat_completeness auto
termination
  by (relation "measure length") (auto dest: next_frame_step [OF sym])

declare parse_frames.simps [simp del]

lemma fd_drain_refines:
  assumes "fd_ok d" "fd_drain d = (bodies, err, d')"
  shows "parse_frames (fd_ahead d) = (bodies, err, fd_ahead d') \<and> fd_ok d'"
  using assms
proof (induction d arbitrary: bodies err d' rule: fd_drain.induct)
  case (1 d)
  note ref = fd_TryExtractFrame_refines [OF "1.prems"(1)]
  obtain x d1 where x: "fd_TryExtractFrame d = (x, d1)" by fastforce
  with ref have n: "next_frame (fd_ahead d) = (x, fd_ahead d1)" "fd_ok d1" by (auto simp: prod_eq_iff)
  show ?case
  proof (cases x)
    case (Frame body)
    obtain bs e d2 where r: "fd_drain d1 = (bs, e, d2)" by (metis prod_cases3)
    have "parse_frames (fd_ahead d1) = (bs, e, fd_ahead d2) \<and> fd_ok d2"
      using "1.IH" [OF x [symmetric]] Frame n(2) r by blast
    with r x n Frame "1.prems"(2) show ?thesis by (simp add: fd_drain.simps [of d] parse_frames.simps [of "fd_ahead d"])
  qed (use x n "1.prems"(2) in \<open>simp_all add: fd_drain.simps [of d] parse_frames.simps [of "fd_ahead d"]\<close>)
qed

section \<open>Streams\<close>

text \<open>
  A parsed prefix of a stream does not change when more bytes arrive, and parsing continues from
  the bytes that were left.
\<close>

lemma next_frame_append:
  "fst (next_frame xs) = Frame body \<Longrightarrow> next_frame (xs @ ys) = (Frame body, snd (next_frame xs) @ ys)"
  "fst (next_frame xs) = ProtocolError \<Longrightarrow> next_frame (xs @ ys) = (ProtocolError, xs @ ys)"
  by (auto simp: next_frame_def frame_length_def split: if_splits)

lemma next_frame_stays: "fst (next_frame xs) = NoFrame \<or> fst (next_frame xs) = ProtocolError \<Longrightarrow> snd (next_frame xs) = xs"
  by (auto simp: next_frame_def)

lemma parse_frames_append:
  assumes "parse_frames xs = (bodies, err, rest)"
  shows "parse_frames (xs @ ys) =
    (if err then (bodies, True, rest @ ys)
     else (bodies @ fst (parse_frames (rest @ ys)), snd (parse_frames (rest @ ys))))"
  using assms
proof (induction xs arbitrary: bodies err rest rule: parse_frames.induct)
  case (1 xs)
  obtain x zs where n: "next_frame xs = (x, zs)" by fastforce
  show ?case
  proof (cases x)
    case (Frame body)
    obtain bs e r where r: "parse_frames zs = (bs, e, r)" by (metis prod_cases3)
    have "next_frame (xs @ ys) = (Frame body, zs @ ys)" using next_frame_append(1) [of xs body] n Frame by simp
    moreover note "1.IH" [OF n [symmetric] Frame r]
    ultimately show ?thesis
      using "1.prems" n Frame r
      by (auto simp: parse_frames.simps [of xs] parse_frames.simps [of "xs @ ys"] split: prod.splits)
  next
    case NoFrame
    with n next_frame_stays [of xs] "1.prems" show ?thesis by (simp add: parse_frames.simps [of xs])
  next
    case ProtocolError
    then have "next_frame xs = (ProtocolError, xs)" "next_frame (xs @ ys) = (ProtocolError, xs @ ys)"
      using n next_frame_stays [of xs] next_frame_append(2) [of xs ys] by simp_all
    then have "parse_frames xs = ([], True, xs)" "parse_frames (xs @ ys) = ([], True, xs @ ys)"
      by (simp_all add: parse_frames.simps [of xs] parse_frames.simps [of "xs @ ys"])
    with "1.prems" show ?thesis by simp
  qed
qed

text \<open>
  The receiving loop: feed a chunk, drain, until the chunks end or the length of a frame is out
  of bounds.
\<close>

fun fd_receive :: "bytes list \<Rightarrow> frame_decoder \<Rightarrow> bytes list \<times> bool \<times> frame_decoder" where
  "fd_receive [] d = ([], False, d)"
| "fd_receive (chunk # chunks) d =
     (case fd_drain (fd_Feed chunk d) of
        (bodies, err, d') \<Rightarrow>
          if err then (bodies, True, d')
          else (case fd_receive chunks d' of (bodies', err', d'') \<Rightarrow> (bodies @ bodies', err', d'')))"

lemma parse_frames_rest:
  assumes "parse_frames xs = (bodies, False, rest)"
  shows "parse_frames rest = ([], False, rest)" "length rest < 4 + unat kMaxFrameBytes"
proof -
  have "parse_frames rest = ([], False, rest) \<and> length rest < 4 + unat kMaxFrameBytes"
    using assms
  proof (induction xs arbitrary: bodies rest rule: parse_frames.induct)
    case (1 xs)
    obtain x zs where n: "next_frame xs = (x, zs)" by fastforce
    show ?case
    proof (cases x)
      case (Frame body)
      obtain bs e r where r: "parse_frames zs = (bs, e, r)" by (metis prod_cases3)
      with "1.IH" [OF n [symmetric] Frame] "1.prems" n Frame show ?thesis by (simp add: parse_frames.simps [of xs])
    next
      case NoFrame
      then have "rest = xs" "bodies = []" using n next_frame_stays [of xs] "1.prems" by (simp_all add: parse_frames.simps [of xs])
      moreover have "length xs < 4 + unat kMaxFrameBytes" using n NoFrame by (auto simp: next_frame_def split: if_splits)
      ultimately show ?thesis using "1.prems" by simp
    next
      case ProtocolError
      with "1.prems" n show ?thesis by (simp add: parse_frames.simps [of xs])
    qed
  qed
  then show "parse_frames rest = ([], False, rest)" "length rest < 4 + unat kMaxFrameBytes" by blast+
qed

lemma fd_receive_refines:
  assumes "fd_ok d" "parse_frames (fd_ahead d) = ([], False, fd_ahead d)" "fd_receive chunks d = (bodies, err, d')"
  shows "fst (parse_frames (fd_ahead d @ concat chunks)) = bodies \<and>
    fst (snd (parse_frames (fd_ahead d @ concat chunks))) = err \<and> fd_ok d' \<and>
    (\<not> err \<longrightarrow> snd (snd (parse_frames (fd_ahead d @ concat chunks))) = fd_ahead d')"
  using assms
proof (induction chunks arbitrary: d bodies)
  case (Cons chunk chunks)
  obtain bs e d1 where dr: "fd_drain (fd_Feed chunk d) = (bs, e, d1)" by (metis prod_cases3)
  have ref: "parse_frames (fd_ahead d @ chunk) = (bs, e, fd_ahead d1)" "fd_ok d1"
    using fd_drain_refines [OF _ dr] Cons.prems(1) by simp_all
  note app = parse_frames_append [OF ref(1), of "concat chunks"]
  show ?case
  proof (cases e)
    case True
    with Cons.prems(3) dr app ref(2) show ?thesis by simp
  next
    case False
    obtain bs' e' d2 where r: "fd_receive chunks d1 = (bs', e', d2)" by (metis prod_cases3)
    have p: "parse_frames (fd_ahead d1) = ([], False, fd_ahead d1)" using ref(1) False parse_frames_rest(1) by simp
    from Cons.IH [OF ref(2) p] r False Cons.prems(3) dr app show ?thesis by auto
  qed
qed simp

lemma FrameMessage_bytes: "FrameMessage body = le_bytes 4 (word_of_nat (length body) :: u32) @ body"
  by (simp add: FrameMessage_def foldl_snoc_map le_bytes_def)

lemma next_frame_message:
  assumes "length body \<le> unat kMaxFrameBytes"
  shows "next_frame (FrameMessage body @ rest) = (Frame body, rest)"
proof -
  have "frame_length (FrameMessage body @ rest) = word_of_nat (length body)"
    by (simp add: frame_length_def FrameMessage_bytes le_value_bytes)
  moreover have "unat (word_of_nat (length body) :: u32) = length body"
    using assms by (simp add: unsigned_of_nat take_bit_nat_eq_self)
  ultimately show ?thesis using assms by (simp add: next_frame_def FrameMessage_bytes)
qed

lemma parse_frames_messages:
  assumes "\<forall>body \<in> set bodies. length body \<le> unat kMaxFrameBytes"
  shows "parse_frames (concat (map FrameMessage bodies) @ rest) =
    (bodies @ fst (parse_frames rest), snd (parse_frames rest))"
  using assms
proof (induction bodies)
  case (Cons body bodies)
  then show ?case by (simp add: parse_frames.simps [of "FrameMessage body @ _"] next_frame_message split: prod.splits)
qed simp

section \<open>Properties\<close>

text \<open>
  C29. Reassembly: whatever the chunks in which a stream of framed messages arrives, the decoder
  delivers exactly the messages, in order and unchanged, reports no error and keeps as its state
  the bytes of the frame that has not arrived completely.
\<close>

theorem frames_reassembled:
  assumes "\<forall>body \<in> set bodies. length body \<le> unat kMaxFrameBytes" "length part < kLengthPrefixBytes"
    and "concat chunks = concat (map FrameMessage bodies) @ part"
  shows "\<exists>d. fd_receive chunks fd_new = (bodies, False, d) \<and> fd_ahead d = part"
proof -
  obtain bs err d where r: "fd_receive chunks fd_new = (bs, err, d)" by (metis prod_cases3)
  have empty: "parse_frames [] = ([], False, [])" by (simp add: parse_frames.simps [of "[]"] next_frame_def)
  have "parse_frames part = ([], False, part)"
    using assms(2) by (simp add: parse_frames.simps [of part] next_frame_def kLengthPrefixBytes_def)
  with fd_receive_refines [of fd_new chunks bs err d] r assms(3) parse_frames_messages [OF assms(1), of part] empty
  show ?thesis by simp
qed

theorem frames_reassembled_witness:
  "\<exists>d. fd_receive [[3, 0], [0, 0, 7, 8, 9, 1, 0, 0], [0, 5, 2]] fd_new = ([[7, 8, 9], [5]], False, d) \<and> fd_ahead d = [2]"
proof (rule frames_reassembled)
  show "concat [[3, 0], [0, 0, 7, 8, 9, 1, 0, 0], [0, 5, 2]] = concat (map FrameMessage [[7, 8, 9], [5]]) @ [2]"
    by code_simp
qed (simp_all add: kLengthPrefixBytes_def)

text \<open>
  Chunking does not matter: two ways of cutting the same stream into chunks, well-formed or
  not, deliver the same frames and agree on whether the stream violates the protocol.
\<close>

lemma chunking_irrelevant:
  assumes "concat chunks = concat chunks'"
  shows "fst (fd_receive chunks fd_new) = fst (fd_receive chunks' fd_new) \<and>
    fst (snd (fd_receive chunks fd_new)) = fst (snd (fd_receive chunks' fd_new))"
proof -
  have empty: "parse_frames (fd_ahead fd_new) = ([], False, fd_ahead fd_new)"
    by (simp add: parse_frames.simps [of "[]"] next_frame_def)
  have "fst (parse_frames (concat cs)) = fst (fd_receive cs fd_new) \<and>
      fst (snd (parse_frames (concat cs))) = fst (snd (fd_receive cs fd_new))" for cs
    using fd_receive_refines [OF fd_new_ok(1) empty, of cs] by (metis append_Nil fd_new_ok(2) prod.collapse)
  with assms show ?thesis by metis
qed

lemma chunking_irrelevant_witness:
  "fst (fd_receive [[1, 0, 0], [0, 5, 9], [9, 9, 9, 1]] fd_new) = [[5]] \<and>
   fst (snd (fd_receive [[1, 0, 0], [0, 5, 9], [9, 9, 9, 1]] fd_new))"
proof -
  have "fst (fd_receive [[1, 0, 0, 0, 5, 9, 9, 9, 9, 1]] fd_new) = [[5]]"
    "fst (snd (fd_receive [[1, 0, 0, 0, 5, 9, 9, 9, 9, 1]] fd_new))" by code_simp+
  with chunking_irrelevant [of "[[1, 0, 0], [0, 5, 9], [9, 9, 9, 1]]" "[[1, 0, 0, 0, 5, 9, 9, 9, 9, 1]]"] show ?thesis
    by simp
qed

lemma fd_drain_size:
  assumes "fd_ok d" "fd_drain d = (bodies, False, d')"
  shows "length (fd_buffer d') \<le> 2 * length (fd_ahead d')"
  using assms
proof (induction d arbitrary: bodies d' rule: fd_drain.induct)
  case (1 d)
  obtain x d1 where x: "fd_TryExtractFrame d = (x, d1)" by fastforce
  have ok: "fd_ok d1" using fd_TryExtractFrame_refines(3) [OF "1.prems"(1)] x by simp
  show ?case
  proof (cases x)
    case (Frame body)
    obtain bs e d2 where r: "fd_drain d1 = (bs, e, d2)" by (metis prod_cases3)
    with x Frame "1.prems"(2) have "e = False" "d2 = d'" by (simp_all add: fd_drain.simps [of d])
    with "1.IH" [OF x [symmetric] Frame ok] r show ?thesis by simp
  next
    case NoFrame
    then have d': "d' = fd_Compact d"
      using x "1.prems"(2) by (auto simp: fd_drain.simps [of d] fd_TryExtractFrame_def Let_def split: if_splits)
    show ?thesis unfolding d' using fd_Compact_size [OF "1.prems"(1)] by simp
  next
    case ProtocolError
    with x "1.prems"(2) show ?thesis by (simp add: fd_drain.simps [of d])
  qed
qed

lemma fd_receive_size:
  assumes "fd_ok d" "length (fd_buffer d) \<le> 2 * length (fd_ahead d)" "fd_receive chunks d = (bodies, False, d')"
  shows "length (fd_buffer d') \<le> 2 * length (fd_ahead d')"
  using assms
proof (induction chunks arbitrary: d bodies)
  case (Cons chunk chunks)
  obtain bs e d1 where dr: "fd_drain (fd_Feed chunk d) = (bs, e, d1)" by (metis prod_cases3)
  obtain bs' e' d2 where r: "fd_receive chunks d1 = (bs', e', d2)" by (metis prod_cases3)
  from Cons.prems(3) dr r have "e = False" "e' = False" "d2 = d'" by (simp_all split: if_splits)
  with Cons.IH [of d1 bs'] r fd_drain_size [of "fd_Feed chunk d" bs d1] fd_drain_refines [of "fd_Feed chunk d" bs e d1]
    dr Cons.prems(1) show ?case by simp
qed simp

text \<open>
  C30. Bounded memory: between two chunks of a stream that has not violated the protocol, the
  decoder holds less than one maximal frame with its prefix, in a buffer at most twice as long.
\<close>

theorem decoder_memory_bounded:
  assumes "fd_receive chunks fd_new = (bodies, False, d)"
  shows "fd_BufferedBytes d < kLengthPrefixBytes + unat kMaxFrameBytes \<and>
    length (fd_buffer d) < 2 * (kLengthPrefixBytes + unat kMaxFrameBytes)"
proof -
  have empty: "parse_frames (fd_ahead fd_new) = ([], False, fd_ahead fd_new)"
    by (simp add: parse_frames.simps [of "[]"] next_frame_def)
  from fd_receive_refines [OF fd_new_ok(1) empty assms] have "parse_frames (concat chunks) = (bodies, False, fd_ahead d)"
    by (simp add: prod_eq_iff)
  from parse_frames_rest(2) [OF this] have "length (fd_ahead d) < 4 + unat kMaxFrameBytes" .
  moreover have "length (fd_buffer d) \<le> 2 * length (fd_ahead d)"
    by (rule fd_receive_size [OF fd_new_ok(1) _ assms]) (simp add: fd_new_def)
  ultimately show ?thesis by (simp add: fd_BufferedBytes_def fd_ahead_def kLengthPrefixBytes_def)
qed

theorem decoder_memory_bounded_witness:
  "\<exists>bodies d. fd_receive [[3, 0], [0, 0, 7, 8]] fd_new = (bodies, False, d) \<and>
     fd_BufferedBytes d = 6 \<and> length (fd_buffer d) < 2 * (kLengthPrefixBytes + unat kMaxFrameBytes)"
proof -
  let ?r = "fd_receive [[3, 0], [0, 0, 7, 8]] fd_new"
  have v: "\<not> fst (snd ?r)" "fd_BufferedBytes (snd (snd ?r)) = 6" by code_simp+
  then have "?r = (fst ?r, False, snd (snd ?r))" by (simp add: prod_eq_iff)
  with decoder_memory_bounded [OF this] v show ?thesis by metis
qed

end
