(* ===== verification/Journal.thy ===== *)
theory Journal
  imports Frame_Decoder
begin

text \<open>
  \<open>include/matching_engine/persistence/journal.hpp\<close> and \<open>src/persistence/journal.cpp\<close>: the
  write-ahead log of commands. The file is its bytes together with how many of them are known to
  be on disk. The operating system is a parameter: the answers of \<open>open\<close>, \<open>write\<close> and
  \<open>fsync\<close> are arguments of the operations that call them. A \<open>write\<close> that answers \<open>n\<close> has
  appended the first \<open>n\<close> bytes it was given; when the answers run out the call has not returned,
  which is what a crash in the middle of it leaves.

  The lemmas show what a journal holds after appends, complete or interrupted, and that reading
  returns exactly the commands whose records are complete.
\<close>

section \<open>JournalWriter\<close>

datatype journal_error = OpenFailed | WriteFailed | FrameTooLong | UndecodableCommand

record journal_file =
  jf_bytes :: bytes
  jf_synced :: nat

record journal_writer =
  jw_fsync_every_write :: bool

definition JournalWriter_open ::
  "bool \<Rightarrow> bool \<Rightarrow> journal_file option \<Rightarrow> journal_error + journal_writer \<times> journal_file" where
  "JournalWriter_open open_ok fsync_every_write file =
     (if \<not> open_ok then Inl OpenFailed
      else Inr (\<lparr>jw_fsync_every_write = fsync_every_write\<rparr>,
                case file of None \<Rightarrow> \<lparr>jf_bytes = [], jf_synced = 0\<rparr> | Some f \<Rightarrow> f))"

text \<open>The answer of \<open>fsync\<close> is not looked at.\<close>

definition journal_Flush :: "bool \<Rightarrow> journal_file \<Rightarrow> journal_file" where
  "journal_Flush fsync_ok f = (if fsync_ok then f\<lparr>jf_synced := length (jf_bytes f)\<rparr> else f)"

datatype append_result = Appended | AppendFailed journal_error | InProgress

text \<open>The loop over \<open>write\<close>, with the answers of the operating system.\<close>

fun write_loop :: "bytes \<Rightarrow> nat \<Rightarrow> int list \<Rightarrow> journal_file \<Rightarrow> append_result \<times> journal_file" where
  "write_loop frame written [] f = (if written < length frame then (InProgress, f) else (Appended, f))"
| "write_loop frame written (n # ns) f =
     (if written < length frame then
        if n < 0 then (AppendFailed WriteFailed, f)
        else write_loop frame (written + nat n) ns
               (f\<lparr>jf_bytes := jf_bytes f @ take (nat n) (drop written frame)\<rparr>)
      else (Appended, f))"

definition journal_Append ::
  "journal_writer \<Rightarrow> int list \<Rightarrow> bool \<Rightarrow> command \<Rightarrow> journal_file \<Rightarrow> append_result \<times> journal_file" where
  "journal_Append w answers fsync_ok cmd f =
     (let body = EncodeCommand cmd; frame = FrameMessage body in
      case write_loop frame 0 answers f of
        (Appended, f') \<Rightarrow> (Appended, if jw_fsync_every_write w then journal_Flush fsync_ok f' else f')
      | (r, f') \<Rightarrow> (r, f'))"

section \<open>ReadJournal\<close>

function read_records :: "frame_decoder \<Rightarrow> command list \<Rightarrow> journal_error + command list" where
  "read_records d commands =
     (case fd_TryExtractFrame d of
        (ProtocolError, d') \<Rightarrow> Inl FrameTooLong
      | (NoFrame, d') \<Rightarrow> Inr commands
      | (Frame body, d') \<Rightarrow>
          (case DecodeCommand body of
             None \<Rightarrow> Inl UndecodableCommand
           | Some cmd \<Rightarrow> read_records d' (commands @ [cmd])))"
  by pat_completeness auto
termination
  by (relation "measure (\<lambda>(d, commands). length (fd_ahead d))") (auto intro: fd_TryExtractFrame_shrinks [OF sym])

declare read_records.simps [simp del]

definition ReadJournal :: "bytes option \<Rightarrow> journal_error + command list" where
  "ReadJournal file =
     (case file of
        None \<Rightarrow> Inr []
      | Some data \<Rightarrow> read_records (fd_Feed data fd_new) [])"

section \<open>What a journal holds\<close>

definition record_of :: "command \<Rightarrow> bytes" where
  "record_of cmd = FrameMessage (EncodeCommand cmd)"

definition journal_of :: "command list \<Rightarrow> bytes" where
  "journal_of cmds = concat (map record_of cmds)"

lemma write_loop_prefix:
  assumes "write_loop frame written ns f = (r, f')"
  shows "\<exists>k. jf_bytes f' = jf_bytes f @ take k (drop written frame) \<and> jf_synced f' = jf_synced f \<and>
    (r = Appended \<longrightarrow> length frame - written \<le> k)"
  using assms
proof (induction ns arbitrary: written f)
  case Nil
  then show ?case by (intro exI [of _ 0]) (auto split: if_splits)
next
  case (Cons n ns)
  show ?case
  proof (cases "written < length frame \<and> 0 \<le> n")
    case True
    with Cons.prems have "write_loop frame (written + nat n) ns
        (f\<lparr>jf_bytes := jf_bytes f @ take (nat n) (drop written frame)\<rparr>) = (r, f')" by simp
    from Cons.IH [OF this] obtain k where
      k: "jf_bytes f' = jf_bytes f @ take (nat n) (drop written frame) @ take k (drop (written + nat n) frame)"
      "jf_synced f' = jf_synced f" "r = Appended \<longrightarrow> length frame - (written + nat n) \<le> k" by auto
    have "take (nat n + k) (drop written frame) =
        take (nat n) (drop written frame) @ take k (drop (written + nat n) frame)"
      unfolding take_add drop_drop by (simp add: add.commute)
    with k show ?thesis by (intro exI [of _ "nat n + k"]) auto
  next
    case False
    with Cons.prems show ?thesis by (intro exI [of _ 0]) (auto split: if_splits)
  qed
qed

lemma write_loop_finishes:
  assumes "list_all (\<lambda>n. 0 < n) ns" "length frame \<le> written + length ns"
  shows "fst (write_loop frame written ns f) = Appended"
  using assms by (induction ns arbitrary: written f) auto

lemma command_fits: "length (EncodeCommand cmd) \<le> 48"
  by (cases cmd) (simp_all add: encoders)

lemma command_frame_fits: "length (EncodeCommand cmd) \<le> unat kMaxFrameBytes"
  using command_fits [of cmd] by simp

lemma read_records_frames:
  assumes "fd_ok d"
  shows "read_records d commands =
    (case parse_frames (fd_ahead d) of (bodies, err, rest) \<Rightarrow>
       if \<exists>body \<in> set bodies. DecodeCommand body = None then Inl UndecodableCommand
       else if err then Inl FrameTooLong
       else Inr (commands @ map (the \<circ> DecodeCommand) bodies))"
  using assms
proof (induction d commands rule: read_records.induct)
  case (1 d commands)
  note ref = fd_TryExtractFrame_refines [OF "1.prems"]
  obtain x d1 where x: "fd_TryExtractFrame d = (x, d1)" by fastforce
  with ref have n: "next_frame (fd_ahead d) = (x, fd_ahead d1)" "fd_ok d1" by (auto simp: prod_eq_iff)
  show ?case
  proof (cases x)
    case (Frame body)
    obtain bodies err rest where r: "parse_frames (fd_ahead d1) = (bodies, err, rest)" by (metis prod_cases3)
    with n Frame have p: "parse_frames (fd_ahead d) = (body # bodies, err, rest)"
      by (simp add: parse_frames.simps [of "fd_ahead d"])
    show ?thesis
    proof (cases "DecodeCommand body")
      case None
      with x p Frame show ?thesis by (simp add: read_records.simps [of d])
    next
      case (Some cmd)
      from "1.IH" [OF x [symmetric] Frame Some n(2)] x p r Frame Some show ?thesis
        by (simp add: read_records.simps [of d])
    qed
  qed (use x n in \<open>simp_all add: read_records.simps [of d] parse_frames.simps [of "fd_ahead d"]\<close>)
qed

lemma next_frame_short:
  assumes "length body \<le> unat kMaxFrameBytes" "k < length (FrameMessage body)"
  shows "parse_frames (take k (FrameMessage body)) = ([], False, take k (FrameMessage body))"
proof -
  let ?xs = "take k (FrameMessage body)"
  have "fst (next_frame ?xs) = NoFrame"
  proof (cases "k < 4")
    case True
    then have "length ?xs < 4" by simp
    then show ?thesis by (simp add: next_frame_def)
  next
    case False
    then have "take 4 ?xs = le_bytes 4 (word_of_nat (length body) :: u32)" by (simp add: FrameMessage_bytes)
    then have "frame_length ?xs = word_of_nat (length body)" by (simp add: frame_length_def le_value_bytes)
    moreover have "unat (word_of_nat (length body) :: u32) = length body"
      using assms(1) by (simp add: unsigned_of_nat take_bit_nat_eq_self)
    moreover have "length (FrameMessage body) = 4 + length body" by (simp add: FrameMessage_bytes)
    ultimately show ?thesis using assms False by (simp add: next_frame_def)
  qed
  with next_frame_stays [of ?xs] show ?thesis by (simp add: parse_frames.simps [of ?xs] prod_eq_iff split: prod.split)
qed

text \<open>The commands whose records lie completely within the first \<open>k\<close> bytes of the journal.\<close>

fun complete_records :: "nat \<Rightarrow> command list \<Rightarrow> command list" where
  "complete_records k [] = []"
| "complete_records k (cmd # cmds) =
     (if k < length (record_of cmd) then [] else cmd # complete_records (k - length (record_of cmd)) cmds)"

lemma parse_journal_prefix:
  "\<exists>rest. parse_frames (take k (journal_of cmds)) = (map EncodeCommand (complete_records k cmds), False, rest)"
proof (induction cmds arbitrary: k)
  case Nil
  show ?case by (simp add: journal_of_def parse_frames.simps [of "[]"] next_frame_def)
next
  case (Cons cmd cmds)
  have j: "journal_of (cmd # cmds) = record_of cmd @ journal_of cmds" by (simp add: journal_of_def)
  show ?case
  proof (cases "k < length (record_of cmd)")
    case True
    then show ?thesis
      using next_frame_short [OF command_frame_fits, of k cmd] by (simp add: j record_of_def)
  next
    case False
    from Cons [of "k - length (record_of cmd)"] obtain rest where
      r: "parse_frames (take (k - length (record_of cmd)) (journal_of cmds)) =
        (map EncodeCommand (complete_records (k - length (record_of cmd)) cmds), False, rest)" by blast
    have "take k (journal_of (cmd # cmds)) = record_of cmd @ take (k - length (record_of cmd)) (journal_of cmds)"
      using False by (simp add: j)
    moreover have "next_frame (record_of cmd @ xs) = (Frame (EncodeCommand cmd), xs)" for xs
      unfolding record_of_def by (rule next_frame_message [OF command_frame_fits])
    ultimately show ?thesis
      using False r by (simp add: parse_frames.simps [of "record_of cmd @ _"])
  qed
qed

lemma decode_encoded [simp]: "DecodeCommand (EncodeCommand cmd) = Some cmd"
  using decode_encode_command [of cmd "[]"] by simp

lemma ReadJournal_prefix: "ReadJournal (Some (take k (journal_of cmds))) = Inr (complete_records k cmds)"
proof -
  obtain rest where r: "parse_frames (take k (journal_of cmds)) = (map EncodeCommand (complete_records k cmds), False, rest)"
    using parse_journal_prefix by blast
  show ?thesis using r by (simp add: ReadJournal_def read_records_frames o_def)
qed

lemma complete_all: "length (journal_of cmds) \<le> k \<Longrightarrow> complete_records k cmds = cmds"
  by (induction cmds arbitrary: k) (auto simp: journal_of_def)

lemma journal_Append_complete:
  assumes "journal_Append w answers fsync_ok cmd f = (Appended, f')"
  shows "jf_bytes f' = jf_bytes f @ record_of cmd"
proof -
  obtain r f1 where l: "write_loop (record_of cmd) 0 answers f = (r, f1)" by fastforce
  with assms have r: "r = Appended" "jf_bytes f' = jf_bytes f1"
    by (auto simp: journal_Append_def record_of_def journal_Flush_def Let_def split: append_result.splits if_splits)
  with write_loop_prefix [OF l] show ?thesis by auto
qed

section \<open>Properties\<close>

text \<open>
  Recovery of a journal cut at any byte, in particular in the middle of an append: reading
  returns without error exactly the commands whose records were written completely, in order,
  and the torn record at the end is discarded. An uncut journal gives back every command.
\<close>

lemma journal_recovers_complete_records:
  "ReadJournal (Some (take k (journal_of cmds))) = Inr (complete_records k cmds) \<and>
   ReadJournal (Some (journal_of cmds)) = Inr cmds"
  using ReadJournal_prefix [of k cmds] ReadJournal_prefix [of "length (journal_of cmds)" cmds]
    complete_all [of cmds "length (journal_of cmds)"] by simp

text \<open>
  \<open>Append\<close>, for every sequence of answers of the operating system: a call that returns
  without error has appended exactly the record of the command, and with \<open>fsync\<close> the whole file
  is on disk; a call that fails or is interrupted has appended a prefix of the record and
  nothing else. It returns as soon as the answers make progress often enough.
\<close>

lemma append_writes_record:
  "\<exists>k. jf_bytes (snd (journal_Append w answers fsync_ok cmd f)) = jf_bytes f @ take k (record_of cmd) \<and>
    (fst (journal_Append w answers fsync_ok cmd f) = Appended \<longrightarrow> length (record_of cmd) \<le> k \<and>
      (jw_fsync_every_write w \<and> fsync_ok \<longrightarrow>
         jf_synced (snd (journal_Append w answers fsync_ok cmd f)) = length (jf_bytes f) + length (record_of cmd))) \<and>
    (list_all (\<lambda>n. 0 < n) answers \<and> length (record_of cmd) \<le> length answers \<longrightarrow>
       fst (journal_Append w answers fsync_ok cmd f) = Appended)"
proof -
  obtain r f' where l: "write_loop (record_of cmd) 0 answers f = (r, f')" by fastforce
  from write_loop_prefix [OF l] obtain k where k: "jf_bytes f' = jf_bytes f @ take k (record_of cmd)"
    "r = Appended \<longrightarrow> length (record_of cmd) \<le> k" by auto
  have a: "journal_Append w answers fsync_ok cmd f =
      (r, if r = Appended \<and> jw_fsync_every_write w then journal_Flush fsync_ok f' else f')"
    using l by (simp add: journal_Append_def record_of_def Let_def split: append_result.split)
  have "list_all (\<lambda>n. 0 < n) answers \<and> length (record_of cmd) \<le> length answers \<longrightarrow> r = Appended"
    using write_loop_finishes [of answers "record_of cmd" 0 f] l by simp
  with k show ?thesis unfolding a by (intro exI [of _ k]) (auto simp: journal_Flush_def)
qed

lemma append_writes_record_witness:
  "fst (journal_Append \<lparr>jw_fsync_every_write = True\<rparr> (replicate 60 1) True
     (CancelCommand \<lparr>cc_order_id = 1, cc_trader_id = 2, cc_symbol_id = 3, cc_timestamp = 4\<rparr>) \<lparr>jf_bytes = [], jf_synced = 0\<rparr>)
   = Appended"
  using append_writes_record [of "\<lparr>jw_fsync_every_write = True\<rparr>" "replicate 60 1" True
     "CancelCommand \<lparr>cc_order_id = 1, cc_trader_id = 2, cc_symbol_id = 3, cc_timestamp = 4\<rparr>" "\<lparr>jf_bytes = [], jf_synced = 0\<rparr>"]
  by (auto simp: list_all_iff record_of_def FrameMessage_bytes encoders)

definition ex_new_order :: command where
  "ex_new_order = NewOrderCommand \<lparr>nc_order_id = 1, nc_trader_id = 7, nc_symbol_id = 1, nc_side = Buy, nc_type = Limit,
     nc_price = Price 100, nc_quantity = 5, nc_time_in_force = GoodTillCancel, nc_timestamp = 9\<rparr>"

definition ex_cancel :: command where
  "ex_cancel = CancelCommand \<lparr>cc_order_id = 1, cc_trader_id = 7, cc_symbol_id = 1, cc_timestamp = 10\<rparr>"


end
