(* ===== verification/Queue_Workers.thy ===== *)
theory Queue_Workers
  imports Spsc_Queue Journal
begin

text \<open>
  \<open>include/matching_engine/persistence/async_journal_writer.hpp\<close> and
  \<open>include/matching_engine/market_data/market_data_publisher.hpp\<close>: a queue filled by the engine
  thread and emptied by a background thread into a journal or a sink. The two classes have the
  same \<open>Run\<close> and \<open>Stop\<close>; what the worker does with an element is the parameter \<open>deliver\<close>,
  which is \<open>None\<close> when it throws (which ends the process).

  Each operation of the queue is one step here; \<open>Spsc_Threads\<close> shows what happens inside them
  and \<open>Spsc_Atomic\<close> that it is the same.
  The lemmas show that what has been delivered is always a prefix of what was accepted, that the
  worker ends after a stop, and that nothing accepted is left behind when it does.
\<close>

section \<open>The worker\<close>

datatype worker_pc = Looping | Draining | Finished

record ('a, 's) worker =
  wk_queue :: "'a spsc"
  wk_sink :: 's
  wk_running :: bool
  wk_dropped :: u64
  wk_pc :: worker_pc

text \<open>\<open>TryAppend\<close> and \<open>Publish\<close>.\<close>

definition worker_TryAppend :: "'a \<Rightarrow> ('a, 's) worker \<Rightarrow> (bool \<times> ('a, 's) worker) option" where
  "worker_TryAppend x w =
     do {
       (ok, q) \<leftarrow> spsc_TryPush x (wk_queue w);
       Some (ok, w\<lparr>wk_queue := q, wk_dropped := (if \<not> ok then wk_dropped w + 1 else wk_dropped w)\<rparr>)
     }"

text \<open>\<open>running_.exchange(false)\<close> of \<open>Stop\<close>; joining waits until the worker is \<open>Finished\<close>.\<close>

definition worker_Stop :: "('a, 's) worker \<Rightarrow> ('a, 's) worker" where
  "worker_Stop w = w\<lparr>wk_running := False\<rparr>"

text \<open>One iteration of the loops of \<open>Run\<close>.\<close>

definition worker_pop :: "('a \<Rightarrow> 's \<Rightarrow> 's option) \<Rightarrow> ('a, 's) worker \<Rightarrow> (bool \<times> ('a, 's) worker) option" where
  "worker_pop deliver w =
     do {
       (out, q) \<leftarrow> spsc_TryPop (wk_queue w);
       (case out of
          None \<Rightarrow> Some (False, w\<lparr>wk_queue := q\<rparr>)
        | Some x \<Rightarrow> do { sink \<leftarrow> deliver x (wk_sink w); Some (True, w\<lparr>wk_queue := q, wk_sink := sink\<rparr>) })
     }"

definition worker_Run_step :: "('a \<Rightarrow> 's \<Rightarrow> 's option) \<Rightarrow> ('a, 's) worker \<Rightarrow> ('a, 's) worker option" where
  "worker_Run_step deliver w =
     (case wk_pc w of
        Looping \<Rightarrow>
          if wk_running w then do { (popped, w') \<leftarrow> worker_pop deliver w; Some w' }
          else Some (w\<lparr>wk_pc := Draining\<rparr>)
      | Draining \<Rightarrow>
          do { (popped, w') \<leftarrow> worker_pop deliver w; Some (if popped then w' else w'\<lparr>wk_pc := Finished\<rparr>) }
      | Finished \<Rightarrow> Some w)"

section \<open>The two classes\<close>

text \<open>
  \<open>AsyncJournalWriter\<close>: the worker appends to the journal. The operating system's answers to the
  writes of a record and to its \<open>fsync\<close> are parameters.
\<close>

definition journal_deliver ::
  "journal_writer \<Rightarrow> (command \<Rightarrow> int list) \<Rightarrow> (command \<Rightarrow> bool) \<Rightarrow> command \<Rightarrow> journal_file \<Rightarrow> journal_file option" where
  "journal_deliver jw answers fsync_ok cmd f =
     (case journal_Append jw (answers cmd) (fsync_ok cmd) cmd f of
        (Appended, f') \<Rightarrow> Some f'
      | _ \<Rightarrow> None)"

datatype async_error = QueueError spsc_error | WriterError journal_error

definition AsyncJournalWriter_new ::
  "command \<Rightarrow> u64 \<Rightarrow> bool \<Rightarrow> bool \<Rightarrow> journal_file option \<Rightarrow>
     async_error + journal_writer \<times> (command, journal_file) worker" where
  "AsyncJournalWriter_new d queue_capacity fsync_every_write open_ok file =
     (case spsc_new d queue_capacity of
        Inl err \<Rightarrow> Inl (QueueError err)
      | Inr q \<Rightarrow>
          (case JournalWriter_open open_ok fsync_every_write file of
             Inl err \<Rightarrow> Inl (WriterError err)
           | Inr (jw, f) \<Rightarrow>
               Inr (jw, \<lparr>wk_queue = q, wk_sink = f, wk_running = True, wk_dropped = 0, wk_pc = Looping\<rparr>)))"

text \<open>\<open>MarketDataPublisher\<close> after \<open>Start\<close>, with a sink whose effect on a state \<open>'s\<close> is \<open>deliver\<close>.\<close>

definition MarketDataPublisher_started :: "event \<Rightarrow> u64 \<Rightarrow> 's \<Rightarrow> spsc_error + (event, 's) worker" where
  "MarketDataPublisher_started d queue_capacity sink =
     (case spsc_new d queue_capacity of
        Inl err \<Rightarrow> Inl err
      | Inr q \<Rightarrow> Inr \<lparr>wk_queue = q, wk_sink = sink, wk_running = True, wk_dropped = 0, wk_pc = Looping\<rparr>)"

definition MarketDataPublisher_Publish :: "event \<Rightarrow> (event, 's) worker \<Rightarrow> (bool \<times> (event, 's) worker) option" where
  "MarketDataPublisher_Publish ev w =
     do {
       (ok, q) \<leftarrow> spsc_TryPush ev (wk_queue w);
       Some (ok, w\<lparr>wk_queue := q, wk_dropped := (if \<not> ok then wk_dropped w + 1 else wk_dropped w)\<rparr>)
     }"

definition MarketDataPublisher_Run_step :: "(event \<Rightarrow> 's \<Rightarrow> 's option) \<Rightarrow> (event, 's) worker \<Rightarrow> (event, 's) worker option" where
  "MarketDataPublisher_Run_step sink w = worker_Run_step sink w"

section \<open>Histories\<close>

text \<open>
  Any interleaving of the engine thread and the worker, with the elements that were accepted and
  the number of refused ones. The engine thread does not append after it has called \<open>Stop\<close>.
\<close>

inductive worker_history ::
  "('a \<Rightarrow> 's \<Rightarrow> 's option) \<Rightarrow> ('a, 's) worker \<Rightarrow> 'a list \<Rightarrow> nat \<Rightarrow> ('a, 's) worker \<Rightarrow> bool"
  for deliver w0 where
  start: "worker_history deliver w0 [] 0 w0"
| append: "worker_history deliver w0 xs n w \<Longrightarrow> wk_running w \<Longrightarrow> worker_TryAppend x w = Some (ok, w') \<Longrightarrow>
    worker_history deliver w0 (if ok then xs @ [x] else xs) (if ok then n else Suc n) w'"
| stop: "worker_history deliver w0 xs n w \<Longrightarrow> worker_history deliver w0 xs n (worker_Stop w)"
| run: "worker_history deliver w0 xs n w \<Longrightarrow> worker_Run_step deliver w = Some w' \<Longrightarrow> worker_history deliver w0 xs n w'"

fun deliver_all :: "('a \<Rightarrow> 's \<Rightarrow> 's option) \<Rightarrow> 'a list \<Rightarrow> 's \<Rightarrow> 's option" where
  "deliver_all deliver [] s = Some s"
| "deliver_all deliver (x # xs) s = do { s' \<leftarrow> deliver x s; deliver_all deliver xs s' }"

lemma deliver_all_append:
  "deliver_all deliver (xs @ ys) s = do { s' \<leftarrow> deliver_all deliver xs s; deliver_all deliver ys s' }"
  by (induction xs arbitrary: s) (simp_all split: bind_splits)

definition fresh_worker :: "('a, 's) worker \<Rightarrow> bool" where
  "fresh_worker w \<longleftrightarrow> spsc_inv (wk_queue w) \<and> spsc_contents (wk_queue w) = [] \<and> wk_running w \<and> wk_dropped w = 0 \<and>
     wk_pc w = Looping"

definition worker_inv :: "('a \<Rightarrow> 's \<Rightarrow> 's option) \<Rightarrow> 's \<Rightarrow> 'a list \<Rightarrow> nat \<Rightarrow> ('a, 's) worker \<Rightarrow> bool" where
  "worker_inv deliver sink xs n w \<longleftrightarrow>
     spsc_inv (wk_queue w) \<and> wk_dropped w = word_of_nat n \<and>
     (\<exists>done. xs = done @ spsc_contents (wk_queue w) \<and> deliver_all deliver done sink = Some (wk_sink w)) \<and>
     (wk_pc w \<noteq> Looping \<longrightarrow> \<not> wk_running w) \<and> (wk_pc w = Finished \<longrightarrow> spsc_contents (wk_queue w) = [])"

lemma worker_pop_inv:
  assumes inv: "worker_inv deliver sink xs n w" and pop: "worker_pop deliver w = Some (popped, w')"
  shows "worker_inv deliver sink xs n w' \<and> wk_pc w' = wk_pc w \<and> wk_running w' = wk_running w \<and>
    (\<not> popped \<longrightarrow> spsc_contents (wk_queue w') = [])"
proof -
  from inv obtain old where q: "spsc_inv (wk_queue w)" "xs = old @ spsc_contents (wk_queue w)"
    "deliver_all deliver old sink = Some (wk_sink w)" by (auto simp: worker_inv_def)
  show ?thesis
  proof (rule spsc.pop_cases [OF q(1)])
    fix q'
    assume "spsc_TryPop (wk_queue w) = Some (None, q')" "spsc_contents (wk_queue w) = []" "spsc_inv q'" "spsc_contents q' = []"
    with inv q pop show ?thesis by (auto simp: worker_pop_def worker_inv_def)
  next
    fix x q'
    assume p: "spsc_TryPop (wk_queue w) = Some (Some x, q')" "spsc_contents (wk_queue w) = x # spsc_contents q'" "spsc_inv q'"
    with pop obtain s where s: "deliver x (wk_sink w) = Some s" "popped" "w' = w\<lparr>wk_queue := q', wk_sink := s\<rparr>"
      by (auto simp: worker_pop_def bind_eq_Some_conv)
    have "xs = (old @ [x]) @ spsc_contents q'" "deliver_all deliver (old @ [x]) sink = Some s"
      using q p s by (simp_all add: deliver_all_append)
    with inv p s show ?thesis by (auto simp: worker_inv_def intro!: exI [of _ "old @ [x]"])
  qed
qed

lemma worker_history_inv:
  assumes "fresh_worker w0" "worker_history deliver w0 xs n w"
  shows "worker_inv deliver (wk_sink w0) xs n w"
  using assms(2)
proof (induction rule: worker_history.induct)
  case start
  with assms(1) show ?case by (simp add: worker_inv_def fresh_worker_def)
next
  case (append xs n w x ok w')
  then have q: "spsc_inv (wk_queue w)" by (simp add: worker_inv_def)
  show ?case
  proof (rule spsc.push_cases [OF q, of x])
    fix q'
    assume "spsc_TryPush x (wk_queue w) = Some (True, q')" "spsc_inv q'" "spsc_contents q' = spsc_contents (wk_queue w) @ [x]"
    with append show ?thesis by (auto simp: worker_TryAppend_def worker_inv_def)
  next
    fix q'
    assume "spsc_TryPush x (wk_queue w) = Some (False, q')" "spsc_inv q'" "spsc_contents q' = spsc_contents (wk_queue w)"
    with append show ?thesis by (auto simp: worker_TryAppend_def worker_inv_def add.commute)
  qed
next
  case (stop xs n w)
  then show ?case by (auto simp: worker_inv_def worker_Stop_def)
next
  case (run xs n w w')
  show ?case
  proof (cases "wk_pc w")
    case Looping
    show ?thesis
    proof (cases "wk_running w")
      case True
      with Looping run.hyps(2) obtain popped where "worker_pop deliver w = Some (popped, w')"
        by (auto simp: worker_Run_step_def bind_eq_Some_conv)
      from worker_pop_inv [OF run.IH this] show ?thesis by blast
    next
      case False
      with Looping run.hyps(2) run.IH show ?thesis by (auto simp: worker_Run_step_def worker_inv_def)
    qed
  next
    case Draining
    with run.hyps(2) obtain popped w1 where pop: "worker_pop deliver w = Some (popped, w1)"
      and w': "w' = (if popped then w1 else w1\<lparr>wk_pc := Finished\<rparr>)"
      by (auto simp: worker_Run_step_def bind_eq_Some_conv)
    from worker_pop_inv [OF run.IH pop] Draining w' show ?thesis by (auto simp: worker_inv_def)
  next
    case Finished
    with run show ?thesis by (simp add: worker_Run_step_def)
  qed
qed

section \<open>Shutdown\<close>

fun worker_Run_steps :: "('a \<Rightarrow> 's \<Rightarrow> 's option) \<Rightarrow> nat \<Rightarrow> ('a, 's) worker \<Rightarrow> ('a, 's) worker option" where
  "worker_Run_steps deliver 0 w = Some w"
| "worker_Run_steps deliver (Suc n) w = do { w' \<leftarrow> worker_Run_step deliver w; worker_Run_steps deliver n w' }"

lemma worker_drains:
  assumes "spsc_inv (wk_queue w)" "wk_pc w = Draining" "\<And>x s. deliver x s \<noteq> None"
  shows "\<exists>w'. worker_Run_steps deliver (Suc (length (spsc_contents (wk_queue w)))) w = Some w' \<and> wk_pc w' = Finished"
  using assms(1,2)
proof (induction "spsc_contents (wk_queue w)" arbitrary: w)
  case Nil
  show ?case
  proof (rule spsc.pop_cases [OF Nil.prems(1)])
    fix q'
    assume "spsc_TryPop (wk_queue w) = Some (None, q')"
    with Nil show ?thesis by (simp add: worker_Run_step_def worker_pop_def)
  next
    fix x q'
    assume "spsc_contents (wk_queue w) = x # spsc_contents q'"
    with Nil show ?thesis by simp
  qed
next
  case (Cons y ys)
  show ?case
  proof (rule spsc.pop_cases [OF Cons.prems(1)])
    fix q'
    assume "spsc_contents (wk_queue w) = []"
    with Cons.hyps(2) show ?thesis by simp
  next
    fix x q'
    assume p: "spsc_TryPop (wk_queue w) = Some (Some x, q')" "spsc_contents (wk_queue w) = x # spsc_contents q'" "spsc_inv q'"
    obtain s where s: "deliver x (wk_sink w) = Some s" using assms(3) [of x "wk_sink w"] by auto
    let ?w = "w\<lparr>wk_queue := q', wk_sink := s\<rparr>"
    have "worker_Run_step deliver w = Some ?w" using Cons.prems(2) p s by (simp add: worker_Run_step_def worker_pop_def)
    with Cons.hyps(1) [of ?w] Cons.hyps(2) Cons.prems(2) p show ?thesis by simp
  qed
qed

lemma worker_stops:
  assumes "spsc_inv (wk_queue w)" "\<not> wk_running w" "\<And>x s. deliver x s \<noteq> None"
  shows "\<exists>k w'. worker_Run_steps deliver k w = Some w' \<and> wk_pc w' = Finished"
proof (cases "wk_pc w")
  case Looping
  have "worker_Run_step deliver w = Some (w\<lparr>wk_pc := Draining\<rparr>)" using Looping assms(2) by (simp add: worker_Run_step_def)
  with worker_drains [of "w\<lparr>wk_pc := Draining\<rparr>" deliver] assms show ?thesis
    by (intro exI [of _ "Suc (Suc (length (spsc_contents (wk_queue w))))"]) simp
next
  case Draining
  with worker_drains [of w deliver] assms show ?thesis by blast
next
  case Finished
  then show ?thesis by (intro exI [of _ 0]) simp
qed

lemma worker_history_steps:
  "worker_history deliver w0 xs n w \<Longrightarrow> worker_Run_steps deliver k w = Some w' \<Longrightarrow> worker_history deliver w0 xs n w'"
  by (induction k arbitrary: w) (auto simp: bind_eq_Some_conv intro: worker_history.run)

section \<open>The publisher\<close>

lemma Publish_is_append: "MarketDataPublisher_Publish ev w = worker_TryAppend ev w"
  by (simp add: MarketDataPublisher_Publish_def worker_TryAppend_def)

text \<open>
  At any moment the sink has been given, in order, an initial part of the events that were
  accepted; the rest waits in the queue, and nothing waits when the worker has ended.
\<close>

lemma publisher_delivers_in_order:
  assumes "MarketDataPublisher_started d cap sink0 = Inr w0" "worker_history sink w0 evs n w"
  shows "\<exists>k. deliver_all sink (take k evs) sink0 = Some (wk_sink w) \<and> drop k evs = spsc_contents (wk_queue w) \<and>
    (wk_pc w = Finished \<longrightarrow> drop k evs = [])"
proof -
  obtain q where q: "spsc_new d cap = Inr q"
    and w0: "w0 = \<lparr>wk_queue = q, wk_sink = sink0, wk_running = True, wk_dropped = 0, wk_pc = Looping\<rparr>"
    using assms(1) by (auto simp: MarketDataPublisher_started_def split: sum.splits)
  have "fresh_worker w0" using spsc_new_ring [OF q] by (simp add: w0 fresh_worker_def)
  from worker_history_inv [OF this assms(2)] obtain old where
    "evs = old @ spsc_contents (wk_queue w)" "deliver_all sink old sink0 = Some (wk_sink w)"
    "wk_pc w = Finished \<longrightarrow> spsc_contents (wk_queue w) = []" by (auto simp: worker_inv_def w0)
  then show ?thesis by (intro exI [of _ "length old"]) simp
qed

section \<open>The asynchronous journal\<close>

lemma deliver_all_journal:
  assumes "deliver_all (journal_deliver jw answers fsync_ok) cmds f = Some f'"
  shows "jf_bytes f' = jf_bytes f @ journal_of cmds"
  using assms
proof (induction cmds arbitrary: f)
  case Nil
  then show ?case by (simp add: journal_of_def)
next
  case (Cons cmd cmds)
  then obtain f1 where d: "journal_deliver jw answers fsync_ok cmd f = Some f1"
    and f1: "deliver_all (journal_deliver jw answers fsync_ok) cmds f1 = Some f'" by (auto simp: bind_eq_Some_conv)
  from d have "journal_Append jw (answers cmd) (fsync_ok cmd) cmd f = (Appended, f1)"
    by (auto simp: journal_deliver_def split: prod.splits append_result.splits)
  then have "jf_bytes f1 = jf_bytes f @ record_of cmd" by (rule journal_Append_complete)
  with Cons.IH [OF f1] show ?case by (simp add: journal_of_def)
qed

lemma async_journal_prefix:
  assumes new: "AsyncJournalWriter_new d cap fsync True None = Inr (jw, w0)"
    and hist: "worker_history (journal_deliver jw answers fsync_ok) w0 xs n w"
  obtains old where "jf_bytes (wk_sink w) = journal_of old" "xs = old @ spsc_contents (wk_queue w)"
    "wk_dropped w = word_of_nat n" "spsc_inv (wk_queue w)" "wk_pc w = Finished \<longrightarrow> spsc_contents (wk_queue w) = []"
proof -
  obtain q where q: "spsc_new d cap = Inr q"
    and w0: "w0 = \<lparr>wk_queue = q, wk_sink = \<lparr>jf_bytes = [], jf_synced = 0\<rparr>, wk_running = True, wk_dropped = 0, wk_pc = Looping\<rparr>"
    using new by (auto simp: AsyncJournalWriter_new_def JournalWriter_open_def split: sum.splits)
  have "fresh_worker w0" using spsc_new_ring [OF q] by (simp add: w0 fresh_worker_def)
  from worker_history_inv [OF this hist] obtain old where
    inv: "xs = old @ spsc_contents (wk_queue w)" "wk_dropped w = word_of_nat n" "spsc_inv (wk_queue w)"
      "wk_pc w = Finished \<longrightarrow> spsc_contents (wk_queue w) = []"
      "deliver_all (journal_deliver jw answers fsync_ok) old (wk_sink w0) = Some (wk_sink w)"
    by (auto simp: worker_inv_def)
  have "jf_bytes (wk_sink w) = journal_of old" using deliver_all_journal [OF inv(5)] by (simp add: w0)
  with that inv show thesis by blast
qed

text \<open>
  The asynchronous journal, for every interleaving of the engine thread with the writer
  thread on a new file: at any moment, so after any crash, the file reads back as a prefix of the
  commands that \<open>TryAppend\<close> accepted, in their order; the dropped count is the number of refused
  ones modulo \<open>2^64\<close>. After \<open>Stop\<close> the writer thread ends, provided the operating system lets its
  writes succeed, and then the file reads back as all accepted commands.
\<close>

lemma async_journal_complete:
  assumes "AsyncJournalWriter_new d cap fsync True None = Inr (jw, w0)"
    and "worker_history (journal_deliver jw answers fsync_ok) w0 xs n w"
    and "\<And>cmd f. fst (journal_Append jw (answers cmd) (fsync_ok cmd) cmd f) = Appended"
  shows "wk_dropped w = word_of_nat n \<and>
    (\<exists>k. ReadJournal (Some (jf_bytes (wk_sink w))) = Inr (take k xs)) \<and>
    (\<not> wk_running w \<longrightarrow>
       (\<exists>k w'. worker_Run_steps (journal_deliver jw answers fsync_ok) k w = Some w' \<and> wk_pc w' = Finished \<and>
          ReadJournal (Some (jf_bytes (wk_sink w'))) = Inr xs))"
proof -
  let ?d = "journal_deliver jw answers fsync_ok"
  obtain old where o: "jf_bytes (wk_sink w) = journal_of old" "xs = old @ spsc_contents (wk_queue w)"
    "wk_dropped w = word_of_nat n" "spsc_inv (wk_queue w)"
    by (rule async_journal_prefix [OF assms(1,2)])
  have read: "ReadJournal (Some (journal_of cmds)) = Inr cmds" for cmds
    using ReadJournal_prefix [of "length (journal_of cmds)" cmds] complete_all [of cmds "length (journal_of cmds)"] by simp
  have total: "?d x s \<noteq> None" for x s
    using assms(3) [of x s] by (auto simp: journal_deliver_def split: prod.splits append_result.splits)
  have "\<exists>k w'. worker_Run_steps ?d k w = Some w' \<and> wk_pc w' = Finished \<and> ReadJournal (Some (jf_bytes (wk_sink w'))) = Inr xs"
    if "\<not> wk_running w"
  proof -
    from worker_stops [of w ?d, OF o(4) that total] obtain k w' where
      k: "worker_Run_steps ?d k w = Some w'" "wk_pc w' = Finished" by blast
    obtain new where "jf_bytes (wk_sink w') = journal_of new" "xs = new @ spsc_contents (wk_queue w')"
      "wk_pc w' = Finished \<longrightarrow> spsc_contents (wk_queue w') = []"
      by (rule async_journal_prefix [OF assms(1) worker_history_steps [OF assms(2) k(1)]])
    with k read show ?thesis by (intro exI [of _ k] exI [of _ w']) simp
  qed
  moreover have "ReadJournal (Some (jf_bytes (wk_sink w))) = Inr (take (length old) xs)" using o(1,2) read by simp
  ultimately show ?thesis using o(3) by blast
qed

lemma append_one_byte_at_a_time: "fst (journal_Append jw (replicate 60 1) ok cmd f) = Appended"
proof -
  have len: "length (record_of cmd) \<le> 60" using command_fits [of cmd] by (simp add: record_of_def FrameMessage_bytes)
  have "fst (write_loop (record_of cmd) 0 (replicate 60 1) f) = Appended"
    by (rule write_loop_finishes) (use len in \<open>simp_all add: list_all_iff\<close>)
  then show ?thesis by (auto simp: journal_Append_def record_of_def Let_def split: prod.splits append_result.splits)
qed

lemma async_journal_complete_witness:
  "\<exists>jw w0 w. AsyncJournalWriter_new ex_cancel 2 True True None = Inr (jw, w0) \<and>
     worker_history (journal_deliver jw (\<lambda>_. replicate 60 1) (\<lambda>_. True)) w0 [ex_cancel] 0 w \<and>
     (\<exists>k w'. worker_Run_steps (journal_deliver jw (\<lambda>_. replicate 60 1) (\<lambda>_. True)) k w = Some w' \<and>
        ReadJournal (Some (jf_bytes (wk_sink w'))) = Inr [ex_cancel])"
proof -
  have "case spsc_new ex_cancel 2 of Inl e \<Rightarrow> False | Inr q \<Rightarrow> True" by code_simp
  then obtain q where q: "spsc_new ex_cancel 2 = Inr q" by (auto split: sum.splits)
  let ?jw = "\<lparr>jw_fsync_every_write = True\<rparr>" and ?d = "journal_deliver \<lparr>jw_fsync_every_write = True\<rparr> (\<lambda>_. replicate 60 1) (\<lambda>_. True)"
  let ?w0 = "\<lparr>wk_queue = q, wk_sink = \<lparr>jf_bytes = [], jf_synced = 0\<rparr>, wk_running = True, wk_dropped = 0, wk_pc = Looping\<rparr>"
  have new: "AsyncJournalWriter_new ex_cancel 2 True True None = Inr (?jw, ?w0)"
    by (simp add: AsyncJournalWriter_new_def JournalWriter_open_def q)
  have inv: "spsc_inv q" "spsc_contents q = []" "spsc_capacity q = 2" using spsc_new_ring [OF q] by simp_all
  obtain q' where "spsc_TryPush ex_cancel q = Some (True, q')" using spsc_TryPush_fifo [OF inv(1), of ex_cancel] inv by auto
  then have "worker_TryAppend ex_cancel ?w0 = Some (True, ?w0\<lparr>wk_queue := q'\<rparr>)" by (simp add: worker_TryAppend_def)
  with worker_history.append [OF worker_history.start, of ?w0 ex_cancel True "?w0\<lparr>wk_queue := q'\<rparr>" ?d]
  have "worker_history ?d ?w0 [ex_cancel] 0 (?w0\<lparr>wk_queue := q'\<rparr>)" by simp
  then have hist: "worker_history ?d ?w0 [ex_cancel] 0 (worker_Stop (?w0\<lparr>wk_queue := q'\<rparr>))" by (rule worker_history.stop)
  have "\<not> wk_running (worker_Stop (?w0\<lparr>wk_queue := q'\<rparr>))" by (simp add: worker_Stop_def)
  with async_journal_complete [OF new hist append_one_byte_at_a_time] new hist show ?thesis by blast
qed

end
