(* ===== verification/Publisher_Lifetime.thy ===== *)
theory Publisher_Lifetime
  imports Queue_Workers
begin

text \<open>
  The life of a \<open>MarketDataPublisher\<close> of
  \<open>include/matching_engine/market_data/market_data_publisher.hpp\<close>: it is made
  without a thread, started, stopped, started again and destroyed, while the engine thread
  publishes at any time. The queue and the loop are those of \<open>Queue_Workers\<close>; this
  theory has the thread object, the early return of \<open>Stop\<close> and the destructor.
  Assigning to a \<open>std::thread\<close> that can still be joined, or destroying one, ends
  the process (\<open>None\<close>).

  The lemmas show what has been delivered at every moment of such a life, that
  \<open>Stop\<close> returns and leaves nothing behind that was published before it, and that
  the destructor never ends the process.
\<close>

section \<open>The publisher\<close>

record 's publisher =
  mp_worker :: "(event, 's) worker"
  mp_sink :: "(event \<Rightarrow> 's \<Rightarrow> 's option) option"
  mp_joinable :: bool
  mp_stopping :: bool

text \<open>
  The constructor. \<open>wk_pc\<close> is \<open>Finished\<close> while there is no thread;
  \<open>mp_stopping\<close> is set while a call of \<open>Stop\<close> waits in
  \<open>join\<close>.
\<close>

definition MarketDataPublisher_new :: "event \<Rightarrow> u64 \<Rightarrow> 's \<Rightarrow> spsc_error + 's publisher" where
  "MarketDataPublisher_new d queue_capacity s =
     (case spsc_new d queue_capacity of
        Inl err \<Rightarrow> Inl err
      | Inr q \<Rightarrow>
          Inr \<lparr>mp_worker = \<lparr>wk_queue = q, wk_sink = s, wk_running = False, wk_dropped = 0, wk_pc = Finished\<rparr>,
               mp_sink = None, mp_joinable = False, mp_stopping = False\<rparr>)"

definition publisher_Start :: "(event \<Rightarrow> 's \<Rightarrow> 's option) \<Rightarrow> 's publisher \<Rightarrow> 's publisher option" where
  "publisher_Start sink p =
     (if mp_joinable p then None
      else Some (p\<lparr>mp_sink := Some sink, mp_worker := (mp_worker p)\<lparr>wk_running := True, wk_pc := Looping\<rparr>,
                   mp_joinable := True\<rparr>))"

text \<open>\<open>Stop\<close> up to the call of \<open>join\<close>: it returns at once when the publisher is not running.\<close>

definition publisher_Stop :: "'s publisher \<Rightarrow> 's publisher" where
  "publisher_Stop p =
     (if \<not> wk_running (mp_worker p) then p
      else p\<lparr>mp_worker := worker_Stop (mp_worker p), mp_stopping := mp_joinable p\<rparr>)"

text \<open>The return from \<open>join\<close>, possible when the thread has ended.\<close>

definition publisher_join :: "'s publisher \<Rightarrow> 's publisher option" where
  "publisher_join p =
     (if mp_stopping p \<and> wk_pc (mp_worker p) = Finished then Some (p\<lparr>mp_joinable := False, mp_stopping := False\<rparr>)
      else None)"

definition publisher_Publish :: "event \<Rightarrow> 's publisher \<Rightarrow> (bool \<times> 's publisher) option" where
  "publisher_Publish ev p =
     do { (ok, w) \<leftarrow> MarketDataPublisher_Publish ev (mp_worker p); Some (ok, p\<lparr>mp_worker := w\<rparr>) }"

definition publisher_dropped_count :: "'s publisher \<Rightarrow> u64" where
  "publisher_dropped_count p = wk_dropped (mp_worker p)"

text \<open>An iteration of the thread; calling an empty \<open>std::function\<close> throws.\<close>

definition publisher_Run_step :: "'s publisher \<Rightarrow> 's publisher option" where
  "publisher_Run_step p =
     do {
       w \<leftarrow> MarketDataPublisher_Run_step (case mp_sink p of Some f \<Rightarrow> f | None \<Rightarrow> (\<lambda>ev s. None)) (mp_worker p);
       Some (p\<lparr>mp_worker := w\<rparr>)
     }"

text \<open>The destructor after its call of \<open>Stop\<close>: the thread object must not be joinable any more.\<close>

definition publisher_destroy :: "'s publisher \<Rightarrow> 's option" where
  "publisher_destroy p = (if mp_joinable p then None else Some (wk_sink (mp_worker p)))"

text \<open>The publisher that the server starts with is a new one after \<open>Start\<close>.\<close>

lemma started_is_new_and_Start:
  "MarketDataPublisher_started d cap s =
     map_sum id (\<lambda>p. mp_worker (the (publisher_Start sink p))) (MarketDataPublisher_new d cap s)"
  by (simp add: MarketDataPublisher_started_def MarketDataPublisher_new_def publisher_Start_def split: sum.split)

section \<open>Lives\<close>

text \<open>
  One thread controls the publisher (\<open>Start\<close>, \<open>Stop\<close>), which passes
  the same sink at every start; the engine thread publishes and the worker runs. The lists and
  numbers are the accepted events, how many were refused, and how many had been accepted when
  \<open>Stop\<close> was last called.
\<close>

inductive publisher_life ::
  "(event \<Rightarrow> 's \<Rightarrow> 's option) \<Rightarrow> 's publisher \<Rightarrow> event list \<Rightarrow> nat \<Rightarrow> nat \<Rightarrow> 's publisher \<Rightarrow> bool"
  for sink p0 where
  made: "publisher_life sink p0 [] 0 0 p0"
| starts: "publisher_life sink p0 evs n m p \<Longrightarrow> publisher_Start sink p = Some p' \<Longrightarrow> publisher_life sink p0 evs n m p'"
| stops: "publisher_life sink p0 evs n m p \<Longrightarrow> \<not> mp_stopping p \<Longrightarrow>
    publisher_life sink p0 evs n (if wk_running (mp_worker p) then length evs else m) (publisher_Stop p)"
| joins: "publisher_life sink p0 evs n m p \<Longrightarrow> publisher_join p = Some p' \<Longrightarrow> publisher_life sink p0 evs n m p'"
| publishes: "publisher_life sink p0 evs n m p \<Longrightarrow> publisher_Publish ev p = Some (ok, p') \<Longrightarrow>
    publisher_life sink p0 (if ok then evs @ [ev] else evs) (if ok then n else Suc n) m p'"
| runs: "publisher_life sink p0 evs n m p \<Longrightarrow> publisher_Run_step p = Some p' \<Longrightarrow> publisher_life sink p0 evs n m p'"

definition thread_ok :: "(event \<Rightarrow> 's \<Rightarrow> 's option) \<Rightarrow> 's publisher \<Rightarrow> bool" where
  "thread_ok sink p \<longleftrightarrow>
     (mp_joinable p \<longleftrightarrow> wk_running (mp_worker p) \<or> mp_stopping p) \<and> (mp_stopping p \<longrightarrow> \<not> wk_running (mp_worker p)) \<and>
     (wk_pc (mp_worker p) \<noteq> Finished \<longrightarrow> mp_joinable p) \<and> (wk_running (mp_worker p) \<longrightarrow> wk_pc (mp_worker p) = Looping) \<and>
     (mp_joinable p \<longrightarrow> mp_sink p = Some sink)"

definition queue_ok :: "(event \<Rightarrow> 's \<Rightarrow> 's option) \<Rightarrow> 's \<Rightarrow> event list \<Rightarrow> nat \<Rightarrow> nat \<Rightarrow> (event, 's) worker \<Rightarrow> bool" where
  "queue_ok sink s0 evs n m w \<longleftrightarrow>
     spsc_inv (wk_queue w) \<and> wk_dropped w = word_of_nat n \<and> m \<le> length evs \<and>
     (\<exists>k. drop k evs = spsc_contents (wk_queue w) \<and> deliver_all sink (take k evs) s0 = Some (wk_sink w) \<and> k \<le> length evs \<and>
        (\<not> wk_running w \<and> wk_pc w = Finished \<longrightarrow> m \<le> k))"

lemma queue_ok_push:
  assumes ok: "queue_ok sink s0 evs n m w" and app: "worker_TryAppend ev w = Some (ok, w')"
  shows "queue_ok sink s0 (if ok then evs @ [ev] else evs) (if ok then n else Suc n) m w' \<and>
    wk_running w' = wk_running w \<and> wk_pc w' = wk_pc w"
proof -
  from ok obtain k where q: "spsc_inv (wk_queue w)" and k: "drop k evs = spsc_contents (wk_queue w)"
    "deliver_all sink (take k evs) s0 = Some (wk_sink w)" "k \<le> length evs" "\<not> wk_running w \<and> wk_pc w = Finished \<longrightarrow> m \<le> k"
    "wk_dropped w = word_of_nat n" "m \<le> length evs" by (auto simp: queue_ok_def)
  show ?thesis
  proof (rule spsc.push_cases [OF q, of ev])
    fix q'
    assume p: "spsc_TryPush ev (wk_queue w) = Some (True, q')" "spsc_inv q'" "spsc_contents q' = spsc_contents (wk_queue w) @ [ev]"
    with app have w': "ok" "w' = w\<lparr>wk_queue := q'\<rparr>" by (auto simp: worker_TryAppend_def)
    have "drop k (evs @ [ev]) = spsc_contents q'" "take k (evs @ [ev]) = take k evs" using p(3) k by simp_all
    with p(2) k w' show ?thesis unfolding queue_ok_def by (intro conjI exI [of _ k]) simp_all
  next
    fix q'
    assume p: "spsc_TryPush ev (wk_queue w) = Some (False, q')" "spsc_inv q'" "spsc_contents q' = spsc_contents (wk_queue w)"
    with app have w': "\<not> ok" "w' = w\<lparr>wk_queue := q', wk_dropped := wk_dropped w + 1\<rparr>" by (auto simp: worker_TryAppend_def)
    with p k show ?thesis by (auto simp: queue_ok_def add.commute)
  qed
qed

lemma queue_ok_pop:
  assumes ok: "queue_ok sink s0 evs n m w" and pop: "worker_pop sink w = Some (popped, w')"
    and alive: "wk_running w \<or> wk_pc w \<noteq> Finished"
  shows "queue_ok sink s0 evs n m w' \<and> wk_running w' = wk_running w \<and> wk_pc w' = wk_pc w \<and>
    (\<not> popped \<longrightarrow> queue_ok sink s0 evs n m (w'\<lparr>wk_pc := Finished\<rparr>))"
proof -
  from ok obtain k where q: "spsc_inv (wk_queue w)" and k: "drop k evs = spsc_contents (wk_queue w)"
    "deliver_all sink (take k evs) s0 = Some (wk_sink w)" "k \<le> length evs"
    "wk_dropped w = word_of_nat n" "m \<le> length evs" by (auto simp: queue_ok_def)
  show ?thesis
  proof (rule spsc.pop_cases [OF q])
    fix q'
    assume p: "spsc_TryPop (wk_queue w) = Some (None, q')" "spsc_contents (wk_queue w) = []" "spsc_inv q'" "spsc_contents q' = []"
    with pop have w': "\<not> popped" "w' = w\<lparr>wk_queue := q'\<rparr>" by (auto simp: worker_pop_def)
    have "k = length evs" using k(1,3) p(2) by simp
    with p k w' alive show ?thesis by (auto simp: queue_ok_def)
  next
    fix ev q'
    assume p: "spsc_TryPop (wk_queue w) = Some (Some ev, q')" "spsc_contents (wk_queue w) = ev # spsc_contents q'" "spsc_inv q'"
    with pop obtain s where s: "sink ev (wk_sink w) = Some s" "popped" "w' = w\<lparr>wk_queue := q', wk_sink := s\<rparr>"
      by (auto simp: worker_pop_def bind_eq_Some_conv)
    have d: "drop k evs = ev # spsc_contents q'" using k(1) p(2) by simp
    then have lt: "k < length evs" by (metis drop_all list.distinct(1) not_le)
    have nth: "evs ! k = ev" "drop (Suc k) evs = spsc_contents q'" using Cons_nth_drop_Suc [OF lt] d by auto
    have "deliver_all sink (take (Suc k) evs) s0 = Some s"
      using k(2) s(1) lt nth(1) by (simp add: take_Suc_conv_app_nth deliver_all_append)
    with p(3) k s nth lt alive show ?thesis by (auto simp: queue_ok_def intro!: exI [of _ "Suc k"])
  qed
qed

lemma queue_ok_Run_step:
  assumes ok: "queue_ok sink s0 evs n m w" and run: "worker_Run_step sink w = Some w'"
  shows "queue_ok sink s0 evs n m w' \<and> wk_running w' = wk_running w \<and>
    (wk_pc w' \<noteq> wk_pc w \<longrightarrow> \<not> wk_running w \<or> wk_pc w \<noteq> Looping) \<and> (wk_pc w = Finished \<longrightarrow> w' = w)"
proof (cases "wk_pc w")
  case Looping
  show ?thesis
  proof (cases "wk_running w")
    case True
    with Looping run obtain popped where "worker_pop sink w = Some (popped, w')" by (auto simp: worker_Run_step_def bind_eq_Some_conv)
    from queue_ok_pop [OF ok this] Looping show ?thesis by simp
  next
    case False
    with Looping run ok show ?thesis by (auto simp: worker_Run_step_def queue_ok_def)
  qed
next
  case Draining
  with run obtain popped w1 where pop: "worker_pop sink w = Some (popped, w1)"
    and w': "w' = (if popped then w1 else w1\<lparr>wk_pc := Finished\<rparr>)" by (auto simp: worker_Run_step_def bind_eq_Some_conv)
  from queue_ok_pop [OF ok pop] Draining w' show ?thesis by auto
next
  case Finished
  with run ok show ?thesis by (simp add: worker_Run_step_def)
qed

lemma publisher_life_ok:
  assumes new: "MarketDataPublisher_new d cap s0 = Inr p0" and "publisher_life sink p0 evs n m p"
  shows "thread_ok sink p \<and> queue_ok sink s0 evs n m (mp_worker p)"
  using assms(2)
proof (induction rule: publisher_life.induct)
  case made
  from new obtain q where "spsc_new d cap = Inr q"
    "p0 = \<lparr>mp_worker = \<lparr>wk_queue = q, wk_sink = s0, wk_running = False, wk_dropped = 0, wk_pc = Finished\<rparr>,
       mp_sink = None, mp_joinable = False, mp_stopping = False\<rparr>"
    by (auto simp: MarketDataPublisher_new_def split: sum.splits)
  then show ?case using spsc_new_ring [of d cap q] by (auto simp: thread_ok_def queue_ok_def)
next
  case (starts evs n m p p')
  then have "\<not> mp_joinable p" "p' = p\<lparr>mp_sink := Some sink, mp_worker := (mp_worker p)\<lparr>wk_running := True, wk_pc := Looping\<rparr>,
      mp_joinable := True\<rparr>" by (auto simp: publisher_Start_def split: if_splits)
  with starts.IH show ?case by (auto simp: thread_ok_def queue_ok_def)
next
  case (stops evs n m p)
  then show ?case by (auto simp: publisher_Stop_def worker_Stop_def thread_ok_def queue_ok_def)
next
  case (joins evs n m p p')
  then have "mp_stopping p" "wk_pc (mp_worker p) = Finished" "p' = p\<lparr>mp_joinable := False, mp_stopping := False\<rparr>"
    by (auto simp: publisher_join_def split: if_splits)
  with joins.IH show ?case by (auto simp: thread_ok_def)
next
  case (publishes evs n m p ev ok p')
  then obtain w where w: "worker_TryAppend ev (mp_worker p) = Some (ok, w)" "p' = p\<lparr>mp_worker := w\<rparr>"
    by (auto simp: publisher_Publish_def Publish_is_append bind_eq_Some_conv)
  from publishes.IH have ok: "thread_ok sink p" "queue_ok sink s0 evs n m (mp_worker p)" by simp_all
  from queue_ok_push [OF ok(2) w(1)] ok(1) w(2) show ?case by (auto simp: thread_ok_def)
next
  case (runs evs n m p p')
  show ?case
  proof (cases "mp_joinable p")
    case True
    with runs.IH runs.hyps(2) obtain w where w: "worker_Run_step sink (mp_worker p) = Some w" "p' = p\<lparr>mp_worker := w\<rparr>"
      by (auto simp: publisher_Run_step_def MarketDataPublisher_Run_step_def thread_ok_def bind_eq_Some_conv)
    from runs.IH have ok: "thread_ok sink p" "queue_ok sink s0 evs n m (mp_worker p)" by simp_all
    from queue_ok_Run_step [OF ok(2) w(1)] have "queue_ok sink s0 evs n m w" and r: "wk_running w = wk_running (mp_worker p)"
      "wk_pc w \<noteq> wk_pc (mp_worker p) \<longrightarrow> \<not> wk_running (mp_worker p) \<or> wk_pc (mp_worker p) \<noteq> Looping" by simp_all
    moreover have "thread_ok sink p'" using ok(1) r True w(2) unfolding thread_ok_def by simp (metis r(2))
    ultimately show ?thesis using w(2) by simp
  next
    case False
    with runs.IH have "wk_pc (mp_worker p) = Finished" by (auto simp: thread_ok_def)
    with runs show ?thesis
      by (auto simp: publisher_Run_step_def MarketDataPublisher_Run_step_def worker_Run_step_def)
  qed
qed

text \<open>
  C34. The life of a market data publisher, for every interleaving of the engine thread, the
  worker and the thread that starts and stops it any number of times. The sink has always been
  given, in order, an initial part of the accepted events and the others wait in the queue, also
  before the first start and after a stop; the counter has the number of refused ones.
  \<open>Start\<close> ends the process exactly when the publisher has not been stopped. When no
  \<open>Stop\<close> waits and the publisher does not run, every event accepted before the last
  \<open>Stop\<close> has been delivered, and the destructor does not end the process. A
  \<open>Stop\<close> that waits can return: the worker comes to its end if the sink does not
  throw.
\<close>

theorem publisher_lifecycle:
  assumes "MarketDataPublisher_new d cap s0 = Inr p0" "publisher_life sink p0 evs n m p"
  shows "(\<exists>k. deliver_all sink (take k evs) s0 = Some (wk_sink (mp_worker p)) \<and>
       drop k evs = spsc_contents (wk_queue (mp_worker p)) \<and>
       (\<not> wk_running (mp_worker p) \<and> \<not> mp_stopping p \<longrightarrow> m \<le> k)) \<and>
    publisher_dropped_count p = word_of_nat n \<and>
    (publisher_Start sink p = None \<longleftrightarrow> wk_running (mp_worker p) \<or> mp_stopping p) \<and>
    (\<not> wk_running (mp_worker p) \<and> \<not> mp_stopping p \<longrightarrow> publisher_destroy p = Some (wk_sink (mp_worker p))) \<and>
    (mp_stopping p \<and> (\<forall>ev s. sink ev s \<noteq> None) \<longrightarrow>
       (\<exists>i w. worker_Run_steps sink i (mp_worker p) = Some w \<and> publisher_join (p\<lparr>mp_worker := w\<rparr>) \<noteq> None))"
proof -
  have t: "thread_ok sink p" and q: "queue_ok sink s0 evs n m (mp_worker p)" using publisher_life_ok [OF assms] by simp_all
  from q obtain k where k: "drop k evs = spsc_contents (wk_queue (mp_worker p))"
    "deliver_all sink (take k evs) s0 = Some (wk_sink (mp_worker p))"
    "\<not> wk_running (mp_worker p) \<and> wk_pc (mp_worker p) = Finished \<longrightarrow> m \<le> k" by (auto simp: queue_ok_def)
  have "\<not> wk_running (mp_worker p) \<and> \<not> mp_stopping p \<longrightarrow> m \<le> k" using t k(3) by (auto simp: thread_ok_def)
  moreover have "publisher_dropped_count p = word_of_nat n" using q by (simp add: publisher_dropped_count_def queue_ok_def)
  moreover have "publisher_Start sink p = None \<longleftrightarrow> wk_running (mp_worker p) \<or> mp_stopping p"
    "\<not> wk_running (mp_worker p) \<and> \<not> mp_stopping p \<longrightarrow> publisher_destroy p = Some (wk_sink (mp_worker p))"
    using t by (simp_all add: publisher_Start_def publisher_destroy_def thread_ok_def)
  moreover have "\<exists>i w. worker_Run_steps sink i (mp_worker p) = Some w \<and> publisher_join (p\<lparr>mp_worker := w\<rparr>) \<noteq> None"
    if stopping: "mp_stopping p" and total: "\<forall>ev s. sink ev s \<noteq> None"
  proof -
    have "spsc_inv (wk_queue (mp_worker p))" "\<not> wk_running (mp_worker p)"
      using q t stopping by (simp_all add: queue_ok_def thread_ok_def)
    with total obtain i w where "worker_Run_steps sink i (mp_worker p) = Some w" "wk_pc w = Finished"
      using worker_stops [of "mp_worker p" sink] by blast
    with stopping show ?thesis by (auto simp: publisher_join_def)
  qed
  ultimately show ?thesis using k(1,2) by blast
qed

text \<open>A publisher of two slots that counts the events: one event before the start, then it is stopped.\<close>

definition ex_event :: event where
  "ex_event = RejectedEvent \<lparr>re_sequence_number = 1, re_timestamp = 0, re_symbol_id = 1, re_order_id = 1, re_trader_id = 1,
     re_reason = UnknownOrder\<rparr>"

definition ex_publisher :: "event list \<Rightarrow> u64 \<Rightarrow> nat publisher" where
  "ex_publisher buffer head =
     \<lparr>mp_worker = \<lparr>wk_queue = \<lparr>sq_mask = 1, sq_buffer = buffer, sq_head = head, sq_cached_tail = 0, sq_tail = 0, sq_cached_head = 0\<rparr>,
        wk_sink = 0, wk_running = False, wk_dropped = 0, wk_pc = Finished\<rparr>,
      mp_sink = None, mp_joinable = False, mp_stopping = False\<rparr>"

definition ex_stopped :: "nat publisher" where
  "ex_stopped = publisher_Stop (the (publisher_Start (\<lambda>ev s. Some (s + 1)) (ex_publisher [ex_event, ex_event] 1)))"

lemma ex_publisher_new: "MarketDataPublisher_new ex_event 2 0 = Inr (ex_publisher [ex_event, ex_event] 0)"
proof -
  have "replicate 2 ex_event = [ex_event, ex_event]" by (simp add: numeral_2_eq_2)
  moreover have "(2 :: u64) AND 1 = 0" by code_simp
  ultimately show ?thesis by (simp add: MarketDataPublisher_new_def spsc_new_def ex_publisher_def)
qed

lemma ex_stopped_life:
  "publisher_life (\<lambda>ev s. Some (s + 1)) (ex_publisher [ex_event, ex_event] 0) [ex_event] 0 1 ex_stopped"
proof -
  let ?sink = "\<lambda>ev s. Some (s + 1)" and ?p0 = "ex_publisher [ex_event, ex_event] 0" and ?p1 = "ex_publisher [ex_event, ex_event] 1"
  obtain p2 where p2: "publisher_Start ?sink ?p1 = Some p2" "\<not> mp_stopping p2" "wk_running (mp_worker p2)"
    by (simp add: publisher_Start_def ex_publisher_def)
  have "publisher_Publish ex_event ?p0 = Some (True, ?p1)"
    by (simp add: publisher_Publish_def MarketDataPublisher_Publish_def ex_publisher_def spsc_TryPush_def spsc_size_def
        spsc_store_def Let_def word_less_nat_alt)
  from publisher_life.publishes [OF publisher_life.made this] have "publisher_life ?sink ?p0 [ex_event] 0 0 ?p1" by simp
  from publisher_life.starts [OF this p2(1)] have "publisher_life ?sink ?p0 [ex_event] 0 0 p2" .
  from publisher_life.stops [OF this p2(2)] p2 show ?thesis by (simp add: ex_stopped_def)
qed

theorem publisher_lifecycle_witness:
  "publisher_Start (\<lambda>ev s. Some (s + 1)) ex_stopped = None \<and> publisher_dropped_count ex_stopped = 0 \<and>
   (\<exists>i w. worker_Run_steps (\<lambda>ev s. Some (s + 1)) i (mp_worker ex_stopped) = Some w \<and>
      publisher_join (ex_stopped\<lparr>mp_worker := w\<rparr>) \<noteq> None)"
proof -
  have "mp_stopping ex_stopped" by (simp add: ex_stopped_def publisher_Stop_def publisher_Start_def ex_publisher_def)
  with publisher_lifecycle [OF ex_publisher_new ex_stopped_life] show ?thesis by auto
qed

end
