(* ===== verification/Tcp_Socket.thy ===== *)
theory Tcp_Socket
  imports Binary_Codec "HOL-Library.Signed_Division"
begin

text \<open>
  \<open>include/matching_engine/net/tcp_socket.hpp\<close> and \<open>src/net/tcp_socket.cpp\<close>: the owner of a file
  descriptor, the listener and the client's connect. The operating system is a parameter: what its
  calls answer are arguments. What is modelled of it is which descriptors are open, that a call on
  a negative descriptor fails (\<open>EBADF\<close>), and that closing a descriptor that is not open is an
  error, \<open>None\<close> here, since it may hit a descriptor that another object has been given meanwhile.

  The lemmas show that every descriptor is closed exactly once whatever the objects do, that no
  path of the constructors leaks one, and what \<open>SendAll\<close> hands to the system.
\<close>

section \<open>TcpSocket\<close>

datatype socket_option = ReuseAddr int | NoDelay int | RecvTimeout int int

text \<open>The open descriptors, and the options set on descriptors, in order.\<close>

record kernel =
  k_open :: "int set"
  k_options :: "(int \<times> socket_option) list"

definition os_close :: "int \<Rightarrow> kernel \<Rightarrow> kernel option" where
  "os_close fd K = (if fd \<in> k_open K then Some (K\<lparr>k_open := k_open K - {fd}\<rparr>) else None)"

text \<open>The answer of \<open>setsockopt\<close> is never looked at.\<close>

definition os_setsockopt :: "int \<Rightarrow> socket_option \<Rightarrow> kernel \<Rightarrow> kernel" where
  "os_setsockopt fd opt K = (if fd \<in> k_open K then K\<lparr>k_options := k_options K @ [(fd, opt)]\<rparr> else K)"

record tcp_socket =
  ts_fd :: int

definition TcpSocket_default :: tcp_socket where
  "TcpSocket_default = \<lparr>ts_fd = - 1\<rparr>"

definition TcpSocket_of :: "int \<Rightarrow> tcp_socket" where
  "TcpSocket_of fd = \<lparr>ts_fd = fd\<rparr>"

definition socket_valid :: "tcp_socket \<Rightarrow> bool" where
  "socket_valid s \<longleftrightarrow> ts_fd s \<ge> 0"

definition socket_Close :: "tcp_socket \<Rightarrow> kernel \<Rightarrow> (tcp_socket \<times> kernel) option" where
  "socket_Close s K =
     (if ts_fd s \<ge> 0 then do { K' \<leftarrow> os_close (ts_fd s) K; Some (s\<lparr>ts_fd := - 1\<rparr>, K') }
      else Some (s, K))"

text \<open>
  The objects of a program are a store of sockets. A move constructor makes a new object; a move
  assignment may be given the same object twice; a destructor closes.
\<close>

type_synonym sockets = "(nat, tcp_socket) unordered_map"

definition socket_move :: "nat \<Rightarrow> nat \<Rightarrow> sockets \<Rightarrow> sockets option" where
  "socket_move a other S =
     do {
       s \<leftarrow> map_of S other;
       Some (AList.update a \<lparr>ts_fd = ts_fd s\<rparr> (AList.update other (s\<lparr>ts_fd := - 1\<rparr>) S))
     }"

definition socket_assign :: "nat \<Rightarrow> nat \<Rightarrow> sockets \<Rightarrow> kernel \<Rightarrow> (sockets \<times> kernel) option" where
  "socket_assign a other S K =
     (if a \<noteq> other then
        do {
          this \<leftarrow> map_of S a;
          s \<leftarrow> map_of S other;
          (this', K') \<leftarrow> socket_Close this K;
          Some (AList.update other (s\<lparr>ts_fd := - 1\<rparr>) (AList.update a (this'\<lparr>ts_fd := ts_fd s\<rparr>) S), K')
        }
      else Some (S, K))"

definition socket_close_at :: "nat \<Rightarrow> sockets \<Rightarrow> kernel \<Rightarrow> (sockets \<times> kernel) option" where
  "socket_close_at a S K =
     do { s \<leftarrow> map_of S a; (s', K') \<leftarrow> socket_Close s K; Some (AList.update a s' S, K') }"

definition socket_destroy :: "nat \<Rightarrow> sockets \<Rightarrow> kernel \<Rightarrow> (sockets \<times> kernel) option" where
  "socket_destroy a S K =
     do { s \<leftarrow> map_of S a; (s', K') \<leftarrow> socket_Close s K; Some (AList.delete a S, K') }"

text \<open>
  \<open>Recv\<close>: the answer is the bytes read, none of them at an orderly shutdown, or an error; the
  count is cast to \<open>int\<close>.
\<close>

definition socket_Recv :: "bytes option \<Rightarrow> tcp_socket \<Rightarrow> int \<times> bytes" where
  "socket_Recv answer s =
     (if ts_fd s < 0 then (- 1, [])
      else
        case answer of
          None \<Rightarrow> (- 1, [])
        | Some data \<Rightarrow> (sint (word_of_nat (length data) :: u32), data))"

text \<open>
  \<open>SendAll\<close>, with the answers of the successive \<open>send\<close> calls and the bytes the system has taken.
  When the answers run out the call has not returned.
\<close>

datatype send_result = AllSent | SendFailed | SendBlocked

definition os_send :: "int \<Rightarrow> int \<Rightarrow> int" where
  "os_send fd answer = (if fd < 0 then - 1 else answer)"

text \<open>One iteration of the loop, after \<open>send\<close> has returned \<open>n\<close>.\<close>

definition send_step :: "bytes \<Rightarrow> nat \<Rightarrow> int \<Rightarrow> bytes \<Rightarrow> (nat \<times> bytes) option" where
  "send_step buf sent n wire = (if n \<le> 0 then None else Some (sent + nat n, wire @ take (nat n) (drop sent buf)))"

definition os_answer :: "int \<Rightarrow> int list \<Rightarrow> (int \<times> int list) option" where
  "os_answer fd ns =
     (if fd < 0 then Some (os_send fd 0, ns) else case ns of [] \<Rightarrow> None | n # ns' \<Rightarrow> Some (os_send fd n, ns'))"

function send_loop :: "int \<Rightarrow> bytes \<Rightarrow> nat \<Rightarrow> int list \<Rightarrow> bytes \<Rightarrow> send_result \<times> bytes" where
  "send_loop fd buf sent ns wire =
     (if sent < length buf then
        case os_answer fd ns of
          None \<Rightarrow> (SendBlocked, wire)
        | Some (n, ns') \<Rightarrow>
            (case send_step buf sent n wire of
               None \<Rightarrow> (SendFailed, wire)
             | Some (sent', wire') \<Rightarrow> send_loop fd buf sent' ns' wire')
      else (AllSent, wire))"
  by pat_completeness auto
termination
  by (relation "measure (\<lambda>(fd, buf, sent, ns, wire). length buf - sent)") (auto simp: send_step_def split: if_splits)

declare send_loop.simps [simp del]

definition socket_SendAll :: "int list \<Rightarrow> bytes \<Rightarrow> tcp_socket \<Rightarrow> bytes \<Rightarrow> send_result \<times> bytes" where
  "socket_SendAll ns buf s wire = send_loop (ts_fd s) buf 0 ns wire"

definition socket_SetNoDelay :: "bool \<Rightarrow> tcp_socket \<Rightarrow> kernel \<Rightarrow> kernel" where
  "socket_SetNoDelay enable s K = os_setsockopt (ts_fd s) (NoDelay (if enable then 1 else 0)) K"

definition socket_SetRecvTimeout :: "int \<Rightarrow> tcp_socket \<Rightarrow> kernel \<Rightarrow> kernel" where
  "socket_SetRecvTimeout milliseconds s K =
     os_setsockopt (ts_fd s) (RecvTimeout (milliseconds sdiv 1000) ((milliseconds smod 1000) * 1000)) K"

section \<open>TcpListener and ConnectLoopback\<close>

datatype listener_error = SocketFailed | BindFailed | GetsocknameFailed | ListenFailed

record tcp_listener =
  tl_socket :: tcp_socket
  tl_port :: "16 word"

text \<open>
  The answers of \<open>socket\<close>, \<open>bind\<close> to a port, \<open>getsockname\<close> (the port the system has chosen) and
  \<open>listen\<close> with a backlog. A descriptor that the system answers is open from then on.
\<close>

record listener_answers =
  la_socket :: int
  la_bind :: "16 word \<Rightarrow> int"
  la_getsockname :: "16 word option"
  la_listen :: "int \<Rightarrow> int"

definition os_opened :: "int \<Rightarrow> kernel \<Rightarrow> kernel" where
  "os_opened fd K = (if fd < 0 then K else K\<lparr>k_open := insert fd (k_open K)\<rparr>)"

definition TcpListener_new ::
  "listener_answers \<Rightarrow> 16 word \<Rightarrow> int \<Rightarrow> kernel \<Rightarrow> ((listener_error + tcp_listener) \<times> kernel) option" where
  "TcpListener_new ans port backlog K =
     (let fd = la_socket ans; K1 = os_opened fd K in
      if fd < 0 then Some (Inl SocketFailed, K1)
      else
        let K2 = os_setsockopt fd (ReuseAddr 1) K1 in
        if la_bind ans port < 0 then do { K3 \<leftarrow> os_close fd K2; Some (Inl BindFailed, K3) }
        else
          case la_getsockname ans of
            None \<Rightarrow> do { K3 \<leftarrow> os_close fd K2; Some (Inl GetsocknameFailed, K3) }
          | Some sin_port \<Rightarrow>
              if la_listen ans backlog < 0 then do { K3 \<leftarrow> os_close fd K2; Some (Inl ListenFailed, K3) }
              else Some (Inr \<lparr>tl_socket = TcpSocket_of fd, tl_port = sin_port\<rparr>, K2))"

text \<open>\<open>accept\<close> on the listener's descriptor answers a new one, or a negative number.\<close>

definition listener_Accept :: "int \<Rightarrow> tcp_listener \<Rightarrow> kernel \<Rightarrow> tcp_socket \<times> kernel" where
  "listener_Accept answer l K =
     (let fd = (if ts_fd (tl_socket l) < 0 then - 1 else answer); K1 = os_opened fd K in
      if fd < 0 then (TcpSocket_default, K1)
      else let s = TcpSocket_of fd in (s, socket_SetNoDelay True s K1))"

definition listener_Close :: "tcp_listener \<Rightarrow> kernel \<Rightarrow> (tcp_listener \<times> kernel) option" where
  "listener_Close l K = do { (s, K') \<leftarrow> socket_Close (tl_socket l) K; Some (l\<lparr>tl_socket := s\<rparr>, K') }"

definition ConnectLoopback :: "int \<Rightarrow> (16 word \<Rightarrow> int) \<Rightarrow> 16 word \<Rightarrow> kernel \<Rightarrow> (tcp_socket \<times> kernel) option" where
  "ConnectLoopback socket_answer connect_answer port K =
     (let fd = socket_answer; K1 = os_opened fd K in
      if fd < 0 then Some (TcpSocket_default, K1)
      else if connect_answer port < 0 then do { K2 \<leftarrow> os_close fd K1; Some (TcpSocket_default, K2) }
      else let s = TcpSocket_of fd in Some (s, socket_SetNoDelay True s K1))"

section \<open>What is sent\<close>

lemma take_drop_add: "take n (drop m xs) @ take k (drop (m + n) xs) = take (n + k) (drop m xs)"
  using take_add [of n k "drop m xs"] by (simp add: add.commute [of m])

lemma send_loop_wire:
  assumes "send_loop fd buf sent ns wire = (r, wire')"
  shows "\<exists>k. wire' = wire @ take k (drop sent buf) \<and> (r = AllSent \<longrightarrow> length buf - sent \<le> k) \<and>
    (fd < 0 \<longrightarrow> wire' = wire \<and> (r = AllSent \<longleftrightarrow> length buf \<le> sent) \<and> r \<noteq> SendBlocked)"
  using assms
proof (induction fd buf sent ns wire rule: send_loop.induct)
  case (1 fd buf sent ns wire)
  consider (complete) "length buf \<le> sent" | (ended) "sent < length buf" "wire' = wire" "r \<noteq> AllSent" "fd < 0 \<longrightarrow> r = SendFailed"
    | (more) n ns' where "sent < length buf" "os_answer fd ns = Some (n, ns')" "0 < n" "0 \<le> fd"
      "send_loop fd buf (sent + nat n) ns' (wire @ take (nat n) (drop sent buf)) = (r, wire')"
    using "1.prems"
    by (subst (asm) send_loop.simps)
      (auto simp: os_answer_def os_send_def send_step_def split: if_splits option.splits list.splits)
  then show ?case
  proof cases
    case complete
    then show ?thesis using "1.prems" by (intro exI [of _ 0]) (auto simp: send_loop.simps)
  next
    case ended
    then show ?thesis by (intro exI [of _ 0]) auto
  next
    case more
    then obtain k where k: "wire' = (wire @ take (nat n) (drop sent buf)) @ take k (drop (sent + nat n) buf)"
      "r = AllSent \<longrightarrow> length buf - (sent + nat n) \<le> k"
      using "1.IH" [OF more(1,2) refl, of "(sent + nat n, wire @ take (nat n) (drop sent buf))"] by (auto simp: send_step_def)
    with more(4) show ?thesis by (intro exI [of _ "nat n + k"]) (auto simp: take_drop_add)
  qed
qed

lemma send_loop_returns:
  assumes "length buf \<le> sent + length ns"
  shows "fst (send_loop fd buf sent ns wire) \<noteq> SendBlocked"
  using assms
proof (induction fd buf sent ns wire rule: send_loop.induct)
  case (1 fd buf sent ns wire)
  show ?case
  proof (cases "sent < length buf \<and> 0 \<le> fd")
    case False
    then show ?thesis by (auto simp: send_loop.simps [of fd buf sent] os_answer_def os_send_def send_step_def)
  next
    case True
    with "1.prems" obtain n ns' where ns: "ns = n # ns'" by (cases ns) auto
    with True have a: "os_answer fd ns = Some (n, ns')" by (simp add: os_answer_def os_send_def)
    have "fst (send_loop fd buf (sent + nat n) ns' (wire @ take (nat n) (drop sent buf))) \<noteq> SendBlocked" if "0 < n"
      using "1.IH" [OF _ a refl, of "(sent + nat n, wire @ take (nat n) (drop sent buf))"] True that "1.prems" ns
      by (simp add: send_step_def)
    with True a show ?thesis by (simp add: send_loop.simps [of fd buf sent] send_step_def)
  qed
qed

section \<open>Ownership of descriptors\<close>

text \<open>The descriptor that an object owns.\<close>

definition fd_owned :: "sockets \<Rightarrow> nat \<rightharpoonup> int" where
  "fd_owned S a = (case map_of S a of None \<Rightarrow> None | Some s \<Rightarrow> if 0 \<le> ts_fd s then Some (ts_fd s) else None)"

text \<open>
  The objects and the system that calls of the public operations lead to, from a process in which
  the descriptors \<open>K0\<close> are open. The system answers a descriptor that is not open.
\<close>

inductive sockets_reachable :: "int set \<Rightarrow> sockets \<Rightarrow> kernel \<Rightarrow> bool" for K0 where
  start: "k_open K = K0 \<Longrightarrow> sockets_reachable K0 [] K"
| default: "sockets_reachable K0 S K \<Longrightarrow> map_of S a = None \<Longrightarrow>
    sockets_reachable K0 (AList.update a TcpSocket_default S) K"
| listen: "sockets_reachable K0 S K \<Longrightarrow> map_of S a = None \<Longrightarrow> la_socket ans \<notin> k_open K \<Longrightarrow>
    TcpListener_new ans port backlog K = Some (res, K') \<Longrightarrow>
    sockets_reachable K0 (case res of Inl err \<Rightarrow> S | Inr l \<Rightarrow> AList.update a (tl_socket l) S) K'"
| accept: "sockets_reachable K0 S K \<Longrightarrow> map_of S a = None \<Longrightarrow> map_of S b = Some (tl_socket l) \<Longrightarrow> answer \<notin> k_open K \<Longrightarrow>
    listener_Accept answer l K = (s, K') \<Longrightarrow> sockets_reachable K0 (AList.update a s S) K'"
| connect: "sockets_reachable K0 S K \<Longrightarrow> map_of S a = None \<Longrightarrow> fd \<notin> k_open K \<Longrightarrow>
    ConnectLoopback fd connect_answer port K = Some (s, K') \<Longrightarrow> sockets_reachable K0 (AList.update a s S) K'"
| move: "sockets_reachable K0 S K \<Longrightarrow> map_of S a = None \<Longrightarrow> socket_move a b S = Some S' \<Longrightarrow> sockets_reachable K0 S' K"
| assign: "sockets_reachable K0 S K \<Longrightarrow> socket_assign a b S K = Some (S', K') \<Longrightarrow> sockets_reachable K0 S' K'"
| close: "sockets_reachable K0 S K \<Longrightarrow> socket_close_at a S K = Some (S', K') \<Longrightarrow> sockets_reachable K0 S' K'"
| destroy: "sockets_reachable K0 S K \<Longrightarrow> socket_destroy a S K = Some (S', K') \<Longrightarrow> sockets_reachable K0 S' K'"

definition owners_ok :: "int set \<Rightarrow> (nat \<rightharpoonup> int) \<Rightarrow> int set \<Rightarrow> bool" where
  "owners_ok K0 f fds \<longleftrightarrow> fds = K0 \<union> ran f \<and> K0 \<inter> ran f = {} \<and> inj_on f (dom f)"

lemma inj_on_ran_remove: "inj_on f (dom f) \<Longrightarrow> f a = Some y \<Longrightarrow> ran (f(a := None)) = ran f - {y}"
  by (auto simp: ran_def inj_on_def dom_def fun_upd_apply) (metis option.inject)+

lemma inj_on_remove: "inj_on f (dom f) \<Longrightarrow> inj_on (f(a := None)) (dom (f(a := None)))"
  by (auto simp: inj_on_def dom_def split: if_splits)

lemma owners_ok_new:
  assumes ok: "owners_ok K0 f fds" and new: "f a = None" "fd \<notin> fds"
  shows "owners_ok K0 (f(a \<mapsto> fd)) (insert fd fds)"
proof -
  have "ran (f(a \<mapsto> fd)) = insert fd (ran f)" using new by simp
  moreover have "inj_on (f(a \<mapsto> fd)) (dom (f(a \<mapsto> fd)))"
    using ok new by (auto simp: owners_ok_def inj_on_def dom_def ran_def split: if_splits)
  ultimately show ?thesis using ok new by (auto simp: owners_ok_def)
qed

lemma owners_ok_close:
  "owners_ok K0 f fds \<Longrightarrow> f a = Some fd \<Longrightarrow> owners_ok K0 (f(a := None)) (fds - {fd})"
  using inj_on_ran_remove [of f a fd] inj_on_remove [of f a] by (auto simp: owners_ok_def ran_def)

lemma owners_ok_move:
  assumes ok: "owners_ok K0 f fds" and a: "f a = None" "a \<noteq> b"
  shows "owners_ok K0 (f(a := f b, b := None)) fds"
proof (cases "f b")
  case None
  with a have "f(a := f b, b := None) = f" by auto
  with ok show ?thesis by simp
next
  case (Some fd)
  have "fd \<in> fds" using ok Some by (auto simp: owners_ok_def ran_def)
  moreover have "owners_ok K0 ((f(b := None))(a \<mapsto> fd)) (insert fd (fds - {fd}))"
    using owners_ok_new [OF owners_ok_close [OF ok Some], of a fd] a by simp
  ultimately show ?thesis using Some a by (simp add: insert_absorb fun_upd_twist)
qed

lemma fd_owned_update: "fd_owned (AList.update a s S) = (fd_owned S)(a := if 0 \<le> ts_fd s then Some (ts_fd s) else None)"
  by (auto simp: fd_owned_def update_conv')

lemma fd_owned_delete: "fd_owned (AList.delete a S) = (fd_owned S)(a := None)"
  by (auto simp: fd_owned_def delete_conv')

lemma fd_owned_none: "map_of S a = None \<Longrightarrow> fd_owned S a = None"
  by (simp add: fd_owned_def)

lemma fd_owned_unchanged: "fd_owned S a = x \<Longrightarrow> (fd_owned S)(a := x) = fd_owned S"
  by auto

lemma socket_Close_owned:
  assumes ok: "owners_ok K0 (fd_owned S) (k_open K)" and s: "map_of S a = Some s"
  obtains s' K' where "socket_Close s K = Some (s', K')" "ts_fd s' < 0" "owners_ok K0 ((fd_owned S)(a := None)) (k_open K')"
proof (cases "0 \<le> ts_fd s")
  case True
  then have f: "fd_owned S a = Some (ts_fd s)" using s by (simp add: fd_owned_def)
  then have "ts_fd s \<in> k_open K" using ok by (auto simp: owners_ok_def ran_def)
  with that True owners_ok_close [OF ok f] show ?thesis by (simp add: socket_Close_def os_close_def)
next
  case False
  then have "(fd_owned S)(a := None) = fd_owned S" using s by (intro fd_owned_unchanged) (simp add: fd_owned_def)
  with that False ok show ?thesis by (simp add: socket_Close_def)
qed

lemma opened_twice: "fd \<notin> k_open K \<Longrightarrow> k_open K \<union> {fd} - {fd} = k_open K"
  by auto

lemmas kernel_simps = os_close_def os_opened_def os_setsockopt_def socket_SetNoDelay_def TcpSocket_of_def TcpSocket_default_def

lemma TcpListener_new_open:
  assumes "TcpListener_new ans port backlog K = Some (res, K')" "la_socket ans \<notin> k_open K"
  shows "case res of Inl err \<Rightarrow> k_open K' = k_open K
    | Inr l \<Rightarrow> 0 \<le> ts_fd (tl_socket l) \<and> ts_fd (tl_socket l) \<notin> k_open K \<and> k_open K' = insert (ts_fd (tl_socket l)) (k_open K)"
  using assms by (auto simp: TcpListener_new_def Let_def kernel_simps split: if_splits option.splits sum.splits)

lemma new_socket_open:
  assumes "listener_Accept answer l K = (s, K') \<and> answer \<notin> k_open K \<or>
    ConnectLoopback answer connect_answer port K = Some (s, K') \<and> answer \<notin> k_open K"
  shows "ts_fd s < 0 \<and> k_open K' = k_open K \<or>
    0 \<le> ts_fd s \<and> ts_fd s \<notin> k_open K \<and> k_open K' = insert (ts_fd s) (k_open K)"
  using assms by (auto simp: listener_Accept_def ConnectLoopback_def Let_def kernel_simps split: if_splits)

lemma owners_ok_new_socket:
  assumes ok: "owners_ok K0 (fd_owned S) (k_open K)" and a: "map_of S a = None"
    and s: "ts_fd s < 0 \<and> k_open K' = k_open K \<or>
      0 \<le> ts_fd s \<and> ts_fd s \<notin> k_open K \<and> k_open K' = insert (ts_fd s) (k_open K)"
  shows "owners_ok K0 (fd_owned (AList.update a s S)) (k_open K')"
  using owners_ok_new [OF ok fd_owned_none [OF a]] fd_owned_unchanged [OF fd_owned_none [OF a]] ok s
  by (auto simp: fd_owned_update)

lemma sockets_reachable_ok: "sockets_reachable K0 S K \<Longrightarrow> owners_ok K0 (fd_owned S) (k_open K)"
proof (induction rule: sockets_reachable.induct)
  case (start K)
  then show ?case by (simp add: owners_ok_def fd_owned_def ran_def dom_def inj_on_def)
next
  case (default S K a)
  then show ?case by (intro owners_ok_new_socket) (simp_all add: TcpSocket_default_def)
next
  case (listen S K a ans port backlog res K')
  show ?case
  proof (cases res)
    case (Inl err)
    with TcpListener_new_open [OF listen.hyps(4,3)] listen.IH show ?thesis by simp
  next
    case (Inr l)
    with TcpListener_new_open [OF listen.hyps(4,3)] owners_ok_new_socket [OF listen.IH listen.hyps(2), of "tl_socket l" K']
    show ?thesis by simp
  qed
next
  case (accept S K a b l answer s K')
  then show ?case using new_socket_open [of answer l K s K'] by (intro owners_ok_new_socket) auto
next
  case (connect S K a fd connect_answer port s K')
  then show ?case using new_socket_open [of fd undefined K s K' connect_answer port] by (intro owners_ok_new_socket) auto
next
  case (move S K a b S')
  then obtain s where s: "map_of S b = Some s" "S' = AList.update a \<lparr>ts_fd = ts_fd s\<rparr> (AList.update b (s\<lparr>ts_fd := - 1\<rparr>) S)"
    by (auto simp: socket_move_def bind_eq_Some_conv)
  then have ab: "a \<noteq> b" using move.hyps(2) by auto
  moreover from s have "fd_owned S b = (if 0 \<le> ts_fd s then Some (ts_fd s) else None)" by (simp add: fd_owned_def)
  ultimately have "fd_owned S' = (fd_owned S)(a := fd_owned S b, b := None)" by (auto simp: s(2) fd_owned_update fun_eq_iff)
  with owners_ok_move [OF move.IH fd_owned_none [OF move.hyps(2)] ab] show ?case by (simp only:)
next
  case (assign S K a b S' K')
  show ?case
  proof (cases "a = b")
    case True
    with assign show ?thesis by (simp add: socket_assign_def)
  next
    case False
    with assign.hyps(2) obtain this s this' where s: "map_of S a = Some this" "map_of S b = Some s"
      "socket_Close this K = Some (this', K')"
      "S' = AList.update b (s\<lparr>ts_fd := - 1\<rparr>) (AList.update a (this'\<lparr>ts_fd := ts_fd s\<rparr>) S)"
      by (auto simp: socket_assign_def bind_eq_Some_conv)
    have "owners_ok K0 ((fd_owned S)(a := None)) (k_open K')"
      by (rule socket_Close_owned [OF assign.IH s(1)]) (use s(3) in simp)
    moreover have "fd_owned S b = (if 0 \<le> ts_fd s then Some (ts_fd s) else None)" using s(2) by (simp add: fd_owned_def)
    then have "fd_owned S' = ((fd_owned S)(a := None))(a := ((fd_owned S)(a := None)) b, b := None)"
      using False by (auto simp: s(4) fd_owned_update fun_eq_iff)
    ultimately show ?thesis using owners_ok_move [of K0 "(fd_owned S)(a := None)" "k_open K'" a b] False by (simp only: fun_upd_same simp_thms)
  qed
next
  case (close S K a S' K')
  then obtain s s' where s: "map_of S a = Some s" "socket_Close s K = Some (s', K')" "S' = AList.update a s' S"
    by (auto simp: socket_close_at_def bind_eq_Some_conv)
  show ?case by (rule socket_Close_owned [OF close.IH s(1)]) (use s in \<open>simp add: fd_owned_update fun_upd_def\<close>)
next
  case (destroy S K a S' K')
  then obtain s s' where s: "map_of S a = Some s" "socket_Close s K = Some (s', K')" "S' = AList.delete a S"
    by (auto simp: socket_destroy_def bind_eq_Some_conv)
  show ?case by (rule socket_Close_owned [OF destroy.IH s(1)]) (use s in \<open>simp add: fd_owned_delete fun_upd_def\<close>)
qed

section \<open>Properties\<close>

text \<open>
  C38. Descriptors are owned by one object. Whatever sockets, listeners and connections are made,
  moved, assigned (to themselves too), closed and destroyed in whatever order, with whatever
  answers of the system: the open descriptors are those of the live objects besides those that
  were open before, no two objects hold the same one, so no descriptor is closed twice (every
  operation on a live object is defined), and none is left open when no object is left.
\<close>

theorem sockets_own_descriptors:
  assumes "sockets_reachable K0 S K"
  shows "k_open K = K0 \<union> ran (fd_owned S) \<and> K0 \<inter> ran (fd_owned S) = {} \<and> inj_on (fd_owned S) (dom (fd_owned S)) \<and>
    (map_of S a \<noteq> None \<longrightarrow> socket_close_at a S K \<noteq> None \<and> socket_destroy a S K \<noteq> None) \<and>
    (map_of S a \<noteq> None \<and> map_of S b \<noteq> None \<longrightarrow> socket_assign a b S K \<noteq> None) \<and>
    (map_of S = Map.empty \<longrightarrow> k_open K = K0)"
proof -
  have ok: "owners_ok K0 (fd_owned S) (k_open K)" by (rule sockets_reachable_ok [OF assms])
  have defined: "\<exists>s' K'. socket_Close s K = Some (s', K')" if "map_of S c = Some s" for c s
    by (rule socket_Close_owned [OF ok that]) blast
  have "fd_owned S = Map.empty" if "map_of S = Map.empty" using that by (auto simp: fd_owned_def)
  moreover have "socket_close_at a S K \<noteq> None \<and> socket_destroy a S K \<noteq> None" if "map_of S a \<noteq> None"
    using that defined [of a] by (auto simp: socket_close_at_def socket_destroy_def)
  moreover have "socket_assign a b S K \<noteq> None" if "map_of S a \<noteq> None \<and> map_of S b \<noteq> None"
    using that defined [of a] by (auto simp: socket_assign_def)
  ultimately show ?thesis using ok by (simp add: owners_ok_def)
qed

text \<open>A listener accepts a connection, the connection is moved into another object, and the first object is destroyed.\<close>

theorem sockets_own_descriptors_witness:
  "\<exists>S K. sockets_reachable {0, 1, 2} S K \<and> k_open K = {0, 1, 2, 3, 4} \<and> fd_owned S 1 = Some 3 \<and> fd_owned S 7 = Some 4 \<and>
     socket_destroy 7 S K \<noteq> None"
proof -
  let ?K0 = "\<lparr>k_open = {0, 1, 2}, k_options = []\<rparr>"
  let ?ans = "\<lparr>la_socket = 3, la_bind = \<lambda>_. 0, la_getsockname = Some 9000, la_listen = \<lambda>_. 0\<rparr>"
  let ?l = "\<lparr>tl_socket = \<lparr>ts_fd = 3\<rparr>, tl_port = 9000\<rparr>"
  let ?S1 = "[(1, \<lparr>ts_fd = 3\<rparr>)] :: sockets" and ?S2 = "[(1, \<lparr>ts_fd = 3\<rparr>), (5, \<lparr>ts_fd = 4\<rparr>)] :: sockets"
  let ?S3 = "[(1, \<lparr>ts_fd = 3\<rparr>), (5, \<lparr>ts_fd = - 1\<rparr>), (7, \<lparr>ts_fd = 4\<rparr>)] :: sockets"
  let ?S4 = "[(1, \<lparr>ts_fd = 3\<rparr>), (7, \<lparr>ts_fd = 4\<rparr>)] :: sockets"
  define K1 where "K1 = \<lparr>k_open = {3, 0, 1, 2}, k_options = [(3, ReuseAddr 1)]\<rparr>"
  define K2 where "K2 = \<lparr>k_open = {4, 3, 0, 1, 2}, k_options = [(3, ReuseAddr 1), (4, NoDelay 1)]\<rparr>"
  have "sockets_reachable {0, 1, 2} [] ?K0" by (rule sockets_reachable.start) simp
  moreover have "TcpListener_new ?ans 9000 16 ?K0 = Some (Inr ?l, K1)" by (simp add: TcpListener_new_def kernel_simps K1_def)
  ultimately have "sockets_reachable {0, 1, 2} ?S1 K1"
    using sockets_reachable.listen [of "{0, 1, 2}" "[]" ?K0 1 ?ans 9000 16 "Inr ?l" K1] by simp
  moreover have "listener_Accept 4 ?l K1 = (\<lparr>ts_fd = 4\<rparr>, K2)" by (simp add: listener_Accept_def kernel_simps K1_def K2_def)
  ultimately have "sockets_reachable {0, 1, 2} ?S2 K2"
    using sockets_reachable.accept [of "{0, 1, 2}" ?S1 K1 5 1 ?l 4 "\<lparr>ts_fd = 4\<rparr>" K2] by (simp add: K1_def)
  then have "sockets_reachable {0, 1, 2} ?S3 K2"
    by (rule sockets_reachable.move [of _ _ _ 7 5]) (simp_all add: socket_move_def)
  then have r: "sockets_reachable {0, 1, 2} ?S4 K2"
    by (rule sockets_reachable.destroy [of _ _ _ 5]) (simp add: socket_destroy_def socket_Close_def AList.delete_eq)
  have "k_open K2 = {0, 1, 2, 3, 4}" by (auto simp: K2_def)
  with sockets_own_descriptors [OF r, of 7 7] r show ?thesis by (intro exI [of _ ?S4] exI [of _ K2]) (simp add: fd_owned_def)
qed

text \<open>
  \<open>SendAll\<close> for all answers of the system: it returns after at most as many \<open>send\<close> calls as
  there are bytes; the bytes handed over are an initial part of the buffer, in order and without
  repetition, and the whole of it exactly when it reports success; on a closed socket nothing is
  handed over and, unless the buffer is empty, it reports failure.
\<close>

lemma SendAll_sends_prefix:
  assumes "socket_SendAll ns buf s wire = (r, wire')"
  shows "\<exists>k. wire' = wire @ take k buf \<and> (r = AllSent \<longrightarrow> wire' = wire @ buf) \<and>
    (length buf \<le> length ns \<longrightarrow> r \<noteq> SendBlocked) \<and>
    (\<not> socket_valid s \<and> buf \<noteq> [] \<longrightarrow> r = SendFailed \<and> wire' = wire)"
proof -
  from send_loop_wire [of "ts_fd s" buf 0 ns wire r wire'] assms obtain k where
    k: "wire' = wire @ take k buf" "r = AllSent \<longrightarrow> length buf \<le> k"
      "ts_fd s < 0 \<longrightarrow> wire' = wire \<and> (r = AllSent \<longleftrightarrow> length buf \<le> 0) \<and> r \<noteq> SendBlocked"
    by (auto simp: socket_SendAll_def)
  moreover have "r \<noteq> SendBlocked" if "length buf \<le> length ns"
    using send_loop_returns [of buf 0 ns "ts_fd s" wire] assms that by (simp add: socket_SendAll_def)
  moreover have "r = SendFailed" if "ts_fd s < 0" "buf \<noteq> []" using k(3) that by (cases r) auto
  ultimately show ?thesis by (auto simp: socket_valid_def)
qed

lemma SendAll_sends_prefix_witness:
  "socket_SendAll [2, 1] [1, 2, 3] \<lparr>ts_fd = 5\<rparr> [] = (AllSent, [1, 2, 3]) \<and>
   (\<exists>k. [1, 2, 3] = [] @ take k [1 :: u8, 2, 3]) \<and> AllSent \<noteq> SendBlocked"
proof -
  have "socket_SendAll [2, 1] [1, 2, 3] \<lparr>ts_fd = 5\<rparr> [] = (AllSent, [1, 2, 3])" by code_simp
  from this SendAll_sends_prefix [OF this] show ?thesis by auto
qed

end
