(* ===== verification/Gateway_Session.thy ===== *)
theory Gateway_Session
  imports Spsc_Queue Journal Tcp_Socket
begin

text \<open>
  \<open>include/matching_engine/net/gateway_session.hpp\<close> and \<open>src/net/gateway_session.cpp\<close>: the reader
  and the writer thread of one connection, between a socket and two queues. What \<open>recv\<close> and
  \<open>send\<close> answer are arguments of the steps. Each operation of a queue and each system call is one
  step; the engine thread pops from \<open>inbound\<close> and pushes to \<open>outbound\<close> at any moment, and the
  thread that calls \<open>Stop\<close> sets the flag and closes the socket in two steps.

  The lemmas show that the commands handed to the engine are those of the frames received, in
  order, that the bytes sent are the frames of the bodies handed over, in order and perhaps with
  a part of one more, and that both threads end after a stop.
\<close>

section \<open>State\<close>

text \<open>
  Where the reader is: not started, at the outer loop, at the inner loop, retrying a push, or
  returned.
\<close>

datatype reader_pc = RNew | RReceive | RExtract | RPush command | RDone

text \<open>
  Where the writer is: not started, in its loop, in \<open>SendAll\<close> with a frame of which some bytes are
  sent (called from the draining loop or not), in the draining loop, or returned.
\<close>

datatype writer_pc = WNew | WLoop | WSend bool bytes nat | WDrain | WDone

record session =
  gs_socket :: tcp_socket
  gs_session_id :: u64
  gs_alive :: bool
  gs_stopping :: bool
  gs_inbound :: "command spsc"
  gs_outbound :: "bytes spsc"
  gs_decoder :: frame_decoder
  gs_reader :: reader_pc
  gs_writer :: writer_pc
  gs_received :: bytes
  gs_popped :: "command list"
  gs_offered :: "bytes list"
  gs_sent :: bytes

definition GatewaySession_new :: "command \<Rightarrow> tcp_socket \<Rightarrow> u64 \<Rightarrow> u64 \<Rightarrow> u64 \<Rightarrow> spsc_error + session" where
  "GatewaySession_new d sock session_id inbound_capacity outbound_capacity =
     (case spsc_new d inbound_capacity of
        Inl err \<Rightarrow> Inl err
      | Inr qi \<Rightarrow>
          (case spsc_new [] outbound_capacity of
             Inl err \<Rightarrow> Inl err
           | Inr qo \<Rightarrow>
               Inr \<lparr>gs_socket = sock, gs_session_id = session_id, gs_alive = True, gs_stopping = False,
                    gs_inbound = qi, gs_outbound = qo, gs_decoder = fd_new, gs_reader = RNew, gs_writer = WNew,
                    gs_received = [], gs_popped = [], gs_offered = [], gs_sent = []\<rparr>))"

definition session_Start :: "session \<Rightarrow> session" where
  "session_Start s = s\<lparr>gs_reader := RReceive, gs_writer := WLoop\<rparr>"

text \<open>The two effects of \<open>Stop\<close>; the joins that follow wait until both threads have returned.\<close>

definition session_Stop_flag :: "session \<Rightarrow> session" where
  "session_Stop_flag s = s\<lparr>gs_stopping := True\<rparr>"

definition session_Stop_close :: "session \<Rightarrow> kernel \<Rightarrow> (session \<times> kernel) option" where
  "session_Stop_close s K = do { (sock, K') \<leftarrow> socket_Close (gs_socket s) K; Some (s\<lparr>gs_socket := sock\<rparr>, K') }"

definition session_TryPopInbound :: "session \<Rightarrow> (command option \<times> session) option" where
  "session_TryPopInbound s =
     do {
       (out, q) \<leftarrow> spsc_TryPop (gs_inbound s);
       Some (out, s\<lparr>gs_inbound := q, gs_popped := gs_popped s @ (case out of None \<Rightarrow> [] | Some c \<Rightarrow> [c])\<rparr>)
     }"

definition session_TryPushOutbound :: "bytes \<Rightarrow> session \<Rightarrow> (bool \<times> session) option" where
  "session_TryPushOutbound body s =
     do {
       (ok, q) \<leftarrow> spsc_TryPush body (gs_outbound s);
       Some (ok, s\<lparr>gs_outbound := q, gs_offered := (if ok then gs_offered s @ [body] else gs_offered s)\<rparr>)
     }"

section \<open>The threads\<close>

text \<open>One step of \<open>ReaderLoop\<close>; \<open>answer\<close> is what \<open>recv\<close> answers.\<close>

definition ReaderLoop_step :: "bytes option \<Rightarrow> session \<Rightarrow> session option" where
  "ReaderLoop_step answer s =
     (case gs_reader s of
        RNew \<Rightarrow> Some s
      | RReceive \<Rightarrow>
          if gs_stopping s then Some (s\<lparr>gs_alive := False, gs_reader := RDone\<rparr>)
          else
            (case socket_Recv answer (gs_socket s) of
               (n, recv_buf) \<Rightarrow>
                 if n \<le> 0 then Some (s\<lparr>gs_alive := False, gs_reader := RDone\<rparr>)
                 else
                   let data = take (nat n) recv_buf in
                   Some (s\<lparr>gs_decoder := fd_Feed data (gs_decoder s), gs_received := gs_received s @ data,
                           gs_reader := RExtract\<rparr>))
      | RExtract \<Rightarrow>
          (case fd_TryExtractFrame (gs_decoder s) of
             (ProtocolError, d) \<Rightarrow> Some (s\<lparr>gs_decoder := d, gs_alive := False, gs_reader := RDone\<rparr>)
           | (NoFrame, d) \<Rightarrow> Some (s\<lparr>gs_decoder := d, gs_reader := RReceive\<rparr>)
           | (Frame body, d) \<Rightarrow>
               (case DecodeCommand body of
                  None \<Rightarrow> Some (s\<lparr>gs_decoder := d\<rparr>)
                | Some cmd \<Rightarrow> Some (s\<lparr>gs_decoder := d, gs_reader := RPush cmd\<rparr>)))
      | RPush cmd \<Rightarrow>
          do {
            (ok, q) \<leftarrow> spsc_TryPush cmd (gs_inbound s);
            Some (s\<lparr>gs_inbound := q,
                    gs_reader := (if ok then RExtract else if gs_stopping s then RDone else RPush cmd)\<rparr>)
          }
      | RDone \<Rightarrow> Some s)"

text \<open>\<open>outbound_.TryPop\<close> of both loops of the writer, and the call of \<open>SendAll\<close> on the frame.\<close>

definition writer_pop :: "bool \<Rightarrow> writer_pc \<Rightarrow> session \<Rightarrow> session option" where
  "writer_pop draining otherwise s =
     do {
       (out, q) \<leftarrow> spsc_TryPop (gs_outbound s);
       (case out of
          None \<Rightarrow> Some (s\<lparr>gs_outbound := q, gs_writer := otherwise\<rparr>)
        | Some body \<Rightarrow> Some (s\<lparr>gs_outbound := q, gs_writer := WSend draining (FrameMessage body) 0\<rparr>))
     }"

text \<open>One step of \<open>WriterLoop\<close>; \<open>answer\<close> is what \<open>send\<close> answers.\<close>

definition WriterLoop_step :: "int \<Rightarrow> session \<Rightarrow> session option" where
  "WriterLoop_step answer s =
     (case gs_writer s of
        WNew \<Rightarrow> Some s
      | WLoop \<Rightarrow> if gs_stopping s then Some (s\<lparr>gs_writer := WDrain\<rparr>) else writer_pop False WLoop s
      | WSend draining frame sent \<Rightarrow>
          if sent < length frame then
            (case send_step frame sent (os_send (ts_fd (gs_socket s)) answer) (gs_sent s) of
               None \<Rightarrow>
                 Some (if draining then s\<lparr>gs_writer := WDone\<rparr> else s\<lparr>gs_alive := False, gs_writer := WDone\<rparr>)
             | Some (sent', wire) \<Rightarrow> Some (s\<lparr>gs_sent := wire, gs_writer := WSend draining frame sent'\<rparr>))
          else Some (s\<lparr>gs_writer := (if draining then WDrain else WLoop)\<rparr>)
      | WDrain \<Rightarrow> writer_pop True WDone s
      | WDone \<Rightarrow> Some s)"

inductive session_reachable :: "session \<Rightarrow> session \<Rightarrow> bool" for s0 where
  start: "session_reachable s0 (session_Start s0)"
| stop_flag: "session_reachable s0 s \<Longrightarrow> session_reachable s0 (session_Stop_flag s)"
| stop_close: "session_reachable s0 s \<Longrightarrow> gs_stopping s \<Longrightarrow> session_Stop_close s K = Some (s', K') \<Longrightarrow> session_reachable s0 s'"
| engine_pop: "session_reachable s0 s \<Longrightarrow> session_TryPopInbound s = Some (out, s') \<Longrightarrow> session_reachable s0 s'"
| engine_push: "session_reachable s0 s \<Longrightarrow> session_TryPushOutbound body s = Some (ok, s') \<Longrightarrow> session_reachable s0 s'"
| reader: "session_reachable s0 s \<Longrightarrow> ReaderLoop_step recv s = Some s' \<Longrightarrow> session_reachable s0 s'"
| writer: "session_reachable s0 s \<Longrightarrow> WriterLoop_step answer s = Some s' \<Longrightarrow> session_reachable s0 s'"

section \<open>What the reader hands over\<close>

text \<open>The commands among the bodies: undecodable ones are dropped.\<close>

definition commands_of :: "bytes list \<Rightarrow> command list" where
  "commands_of bodies = List.map_filter DecodeCommand bodies"

definition reader_pending :: "session \<Rightarrow> command list" where
  "reader_pending s = (case gs_reader s of RPush cmd \<Rightarrow> [cmd] | _ \<Rightarrow> [])"

definition handed_over :: "session \<Rightarrow> command list" where
  "handed_over s = gs_popped s @ spsc_contents (gs_inbound s)"

definition reader_inv :: "session \<Rightarrow> bool" where
  "reader_inv s \<longleftrightarrow>
     spsc_inv (gs_inbound s) \<and> fd_ok (gs_decoder s) \<and>
     (\<exists>seen rest. parse_frames (gs_received s) =
          (seen @ fst (parse_frames (fd_ahead (gs_decoder s))), snd (parse_frames (fd_ahead (gs_decoder s)))) \<and>
        commands_of seen = handed_over s @ rest \<and> (gs_reader s \<noteq> RDone \<longrightarrow> rest = reader_pending s)) \<and>
     (gs_reader s = RReceive \<longrightarrow> fst (next_frame (fd_ahead (gs_decoder s))) = NoFrame)"

lemma reader_inv_frame:
  assumes "gs_inbound s' = gs_inbound s" "gs_decoder s' = gs_decoder s" "gs_received s' = gs_received s"
    "gs_popped s' = gs_popped s" "gs_reader s' = gs_reader s" "reader_inv s"
  shows "reader_inv s'"
  using assms unfolding reader_inv_def reader_pending_def handed_over_def by simp

lemma commands_of_append [simp]: "commands_of (xs @ ys) = commands_of xs @ commands_of ys"
  by (induction xs) (auto simp: commands_of_def List.map_filter_simps split: option.split)

lemma commands_of_single: "commands_of [body] = (case DecodeCommand body of None \<Rightarrow> [] | Some c \<Rightarrow> [c])"
  by (simp add: commands_of_def List.map_filter_simps split: option.split)

lemma no_frame_parse: "fst (next_frame xs) = NoFrame \<Longrightarrow> parse_frames xs = ([], False, xs)"
  using next_frame_stays [of xs] by (cases "next_frame xs") (simp add: parse_frames.simps [of xs])

lemma reader_inv_receive:
  assumes inv: "reader_inv s" and pc: "gs_reader s = RReceive"
  shows "reader_inv (s\<lparr>gs_decoder := fd_Feed data (gs_decoder s), gs_received := gs_received s @ data, gs_reader := RExtract\<rparr>)"
proof -
  let ?a = "fd_ahead (gs_decoder s)"
  from inv pc obtain seen where seen: "parse_frames (gs_received s) = (seen @ fst (parse_frames ?a), snd (parse_frames ?a))"
    "commands_of seen = handed_over s" "fst (next_frame ?a) = NoFrame" "fd_ok (gs_decoder s)" "spsc_inv (gs_inbound s)"
    by (auto simp: reader_inv_def reader_pending_def)
  then have "parse_frames (gs_received s) = (seen, False, ?a)" using no_frame_parse [of ?a] by simp
  from parse_frames_append [OF this, of data] seen(2,4,5) show ?thesis
    by (auto simp: reader_inv_def reader_pending_def handed_over_def)
qed

lemma reader_inv_extract:
  assumes inv: "reader_inv s" and pc: "gs_reader s = RExtract" and step: "ReaderLoop_step recv s = Some s'"
  shows "reader_inv s'"
proof -
  let ?d = "gs_decoder s"
  from inv pc obtain seen where seen: "fd_ok ?d" "spsc_inv (gs_inbound s)"
    "parse_frames (gs_received s) = (seen @ fst (parse_frames (fd_ahead ?d)), snd (parse_frames (fd_ahead ?d)))"
    "commands_of seen = handed_over s" by (auto simp: reader_inv_def reader_pending_def)
  note ref = fd_TryExtractFrame_refines [OF seen(1)]
  obtain x d where x: "fd_TryExtractFrame ?d = (x, d)" by fastforce
  with ref have n: "next_frame (fd_ahead ?d) = (x, fd_ahead d)" "fd_ok d" by (auto simp: prod_eq_iff)
  show ?thesis
  proof (cases x)
    case (Frame body)
    have "parse_frames (fd_ahead ?d) = (body # fst (parse_frames (fd_ahead d)), snd (parse_frames (fd_ahead d)))"
      using n Frame by (simp add: parse_frames.simps [of "fd_ahead ?d"] split: prod.splits)
    then have p: "parse_frames (gs_received s) = ((seen @ [body]) @ fst (parse_frames (fd_ahead d)), snd (parse_frames (fd_ahead d)))"
      using seen(3) by simp
    show ?thesis
    proof (cases "DecodeCommand body")
      case None
      then have "s' = s\<lparr>gs_decoder := d\<rparr>" using step pc x Frame by (simp add: ReaderLoop_step_def)
      moreover have "commands_of (seen @ [body]) = handed_over s" using seen(4) None by (simp add: commands_of_single)
      ultimately show ?thesis
        using p n(2) seen(2) pc by (auto simp: reader_inv_def reader_pending_def handed_over_def intro!: exI [of _ "seen @ [body]"])
    next
      case (Some cmd)
      then have "s' = s\<lparr>gs_decoder := d, gs_reader := RPush cmd\<rparr>" using step pc x Frame by (simp add: ReaderLoop_step_def)
      moreover have "commands_of (seen @ [body]) = handed_over s @ [cmd]" using seen(4) Some by (simp add: commands_of_single)
      ultimately show ?thesis
        using p n(2) seen(2) by (auto simp: reader_inv_def reader_pending_def handed_over_def intro!: exI [of _ "seen @ [body]"])
    qed
  next
    case NoFrame
    then have "fd_ahead d = fd_ahead ?d" using n next_frame_stays [of "fd_ahead ?d"] by simp
    moreover have "s' = s\<lparr>gs_decoder := d, gs_reader := RReceive\<rparr>" using step pc x NoFrame by (simp add: ReaderLoop_step_def)
    ultimately show ?thesis
      using seen n NoFrame by (auto simp: reader_inv_def reader_pending_def handed_over_def)
  next
    case ProtocolError
    then have "fd_ahead d = fd_ahead ?d" using n next_frame_stays [of "fd_ahead ?d"] by simp
    moreover have "s' = s\<lparr>gs_decoder := d, gs_alive := False, gs_reader := RDone\<rparr>"
      using step pc x ProtocolError by (simp add: ReaderLoop_step_def)
    ultimately show ?thesis using seen n by (auto simp: reader_inv_def handed_over_def)
  qed
qed

lemma reader_inv_push:
  assumes inv: "reader_inv s" and pc: "gs_reader s = RPush cmd" and step: "ReaderLoop_step recv s = Some s'"
  shows "reader_inv s'"
proof -
  from inv pc have q: "spsc_inv (gs_inbound s)" by (simp add: reader_inv_def)
  show ?thesis
  proof (rule spsc.push_cases [OF q, of cmd])
    fix q'
    assume "spsc_TryPush cmd (gs_inbound s) = Some (True, q')" "spsc_inv q'" "spsc_contents q' = spsc_contents (gs_inbound s) @ [cmd]"
    with inv pc step show ?thesis by (auto simp: ReaderLoop_step_def reader_inv_def reader_pending_def handed_over_def)
  next
    fix q'
    assume "spsc_TryPush cmd (gs_inbound s) = Some (False, q')" "spsc_inv q'" "spsc_contents q' = spsc_contents (gs_inbound s)"
    with inv pc step show ?thesis
      by (cases "gs_stopping s") (auto simp: ReaderLoop_step_def reader_inv_def reader_pending_def handed_over_def)
  qed
qed

lemma reader_inv_done:
  assumes "reader_inv s" "gs_reader s = RReceive"
  shows "reader_inv (s\<lparr>gs_alive := False, gs_reader := RDone\<rparr>)"
  using assms by (auto simp: reader_inv_def reader_pending_def handed_over_def)

lemma ReaderLoop_step_inv:
  assumes inv: "reader_inv s" and step: "ReaderLoop_step recv s = Some s'"
  shows "reader_inv s'"
proof (cases "gs_reader s")
  case RReceive
  obtain n buf where r: "socket_Recv recv (gs_socket s) = (n, buf)" by fastforce
  show ?thesis
  proof (cases "gs_stopping s \<or> n \<le> 0")
    case True
    then have "s' = s\<lparr>gs_alive := False, gs_reader := RDone\<rparr>"
      using step RReceive r by (auto simp: ReaderLoop_step_def split: if_splits)
    with reader_inv_done [OF inv RReceive] show ?thesis by simp
  next
    case False
    then have "s' = s\<lparr>gs_decoder := fd_Feed (take (nat n) buf) (gs_decoder s),
        gs_received := gs_received s @ take (nat n) buf, gs_reader := RExtract\<rparr>"
      using step RReceive r by (simp add: ReaderLoop_step_def Let_def)
    with reader_inv_receive [OF inv RReceive, of "take (nat n) buf"] show ?thesis by simp
  qed
next
  case RExtract
  then show ?thesis by (rule reader_inv_extract [OF inv _ step])
next
  case (RPush cmd)
  then show ?thesis by (rule reader_inv_push [OF inv _ step])
qed (use inv step in \<open>simp_all add: ReaderLoop_step_def\<close>)

section \<open>What the writer sends\<close>

text \<open>
  The complete frames on the wire, the part of one more, and the bodies offered that are not
  among them.
\<close>

definition part_of :: "nat \<Rightarrow> bytes list \<Rightarrow> bytes" where
  "part_of k rest = (case rest of [] \<Rightarrow> [] | body # _ \<Rightarrow> take k (FrameMessage body))"

definition wire_ok :: "bytes \<Rightarrow> bytes list \<Rightarrow> bytes list \<Rightarrow> bytes \<Rightarrow> bytes list \<Rightarrow> bool" where
  "wire_ok wire offered bodies part rest \<longleftrightarrow> wire = concat (map FrameMessage bodies) @ part \<and> offered = bodies @ rest"

definition writer_wire :: "writer_pc \<Rightarrow> bytes list \<Rightarrow> bytes \<Rightarrow> bytes list \<Rightarrow> bool" where
  "writer_wire pc waiting wire offered =
     (case pc of
        WSend draining frame sent \<Rightarrow>
          \<exists>bodies body. frame = FrameMessage body \<and> wire_ok wire offered bodies (take sent frame) (body # waiting)
      | WDone \<Rightarrow> \<exists>bodies k rest. wire_ok wire offered bodies (part_of k rest) rest
      | _ \<Rightarrow> \<exists>bodies. wire_ok wire offered bodies [] waiting)"

definition writer_inv :: "session \<Rightarrow> bool" where
  "writer_inv s \<longleftrightarrow> spsc_inv (gs_outbound s) \<and>
     writer_wire (gs_writer s) (spsc_contents (gs_outbound s)) (gs_sent s) (gs_offered s)"

lemma writer_inv_frame: "gs_outbound s' = gs_outbound s \<Longrightarrow> gs_sent s' = gs_sent s \<Longrightarrow> gs_writer s' = gs_writer s \<Longrightarrow>
    gs_offered s' = gs_offered s \<Longrightarrow> writer_inv s \<Longrightarrow> writer_inv s'"
  by (simp add: writer_inv_def)

lemma writer_wire_simps:
  "writer_wire WNew waiting wire offered \<longleftrightarrow> (\<exists>bodies. wire_ok wire offered bodies [] waiting)"
  "writer_wire WLoop waiting wire offered \<longleftrightarrow> (\<exists>bodies. wire_ok wire offered bodies [] waiting)"
  "writer_wire WDrain waiting wire offered \<longleftrightarrow> (\<exists>bodies. wire_ok wire offered bodies [] waiting)"
  "writer_wire (WSend draining frame sent) waiting wire offered \<longleftrightarrow>
     (\<exists>bodies body. frame = FrameMessage body \<and> wire_ok wire offered bodies (take sent frame) (body # waiting))"
  "writer_wire WDone waiting wire offered \<longleftrightarrow> (\<exists>bodies k rest. wire_ok wire offered bodies (part_of k rest) rest)"
  by (simp_all add: writer_wire_def)

lemma part_of_Nil [simp]: "part_of k [] = []" "part_of 0 rest = []"
  by (simp_all add: part_of_def split: list.split)

lemma part_of_Cons: "part_of k (body # rest) = take k (FrameMessage body)"
  by (simp add: part_of_def)

lemma wire_ok_sent: "wire_ok wire offered bodies (FrameMessage body) (body # rest) \<Longrightarrow> wire_ok wire offered (bodies @ [body]) [] rest"
  by (simp add: wire_ok_def)

lemma wire_ok_more:
  "wire_ok wire offered bodies (take k (FrameMessage body)) (body # rest) \<Longrightarrow>
   wire_ok (wire @ take n (drop k (FrameMessage body))) offered bodies (take (k + n) (FrameMessage body)) (body # rest)"
  by (simp add: wire_ok_def take_add)

lemma wire_ok_offer: "wire_ok wire offered bodies part rest \<Longrightarrow> wire_ok wire (offered @ [body]) bodies part (rest @ [body])"
  by (simp add: wire_ok_def)

lemma writer_wire_stops:
  assumes "writer_wire pc waiting wire offered"
  shows "writer_wire WDone waiting' wire offered"
proof -
  have "\<exists>bodies k rest. wire_ok wire offered bodies (part_of k rest) rest"
  proof (cases "pc = WDone")
    case False
    with assms obtain bodies k body where
      "wire_ok wire offered bodies (part_of 0 waiting) waiting \<or>
       wire_ok wire offered bodies (part_of k (body # waiting)) (body # waiting)"
      by (cases pc) (auto simp: writer_wire_simps part_of_Cons)
    then show ?thesis by blast
  qed (use assms in \<open>simp add: writer_wire_simps\<close>)
  then show ?thesis by (simp add: writer_wire_simps)
qed

lemma part_of_snoc: "\<exists>j. part_of k rest = part_of j (rest @ [body])"
proof (cases rest)
  case Nil
  then show ?thesis by (intro exI [of _ 0]) simp
qed (auto simp: part_of_Cons)

lemma writer_wire_offer:
  assumes "writer_wire pc waiting wire offered"
  shows "writer_wire pc (waiting @ [body]) wire (offered @ [body])"
proof (cases "pc = WDone")
  case True
  with assms obtain bodies k rest where w: "wire_ok wire offered bodies (part_of k rest) rest" by (auto simp: writer_wire_simps)
  obtain j where "part_of k rest = part_of j (rest @ [body])" using part_of_snoc by blast
  with wire_ok_offer [OF w, of body] have "wire_ok wire (offered @ [body]) bodies (part_of j (rest @ [body])) (rest @ [body])" by simp
  then have "\<exists>bodies k rest. wire_ok wire (offered @ [body]) bodies (part_of k rest) rest" by blast
  with True show ?thesis by (simp add: writer_wire_simps)
next
  case False
  show ?thesis
  proof (cases pc)
    case (WSend draining frame sent)
    with assms obtain bodies b where "frame = FrameMessage b" "wire_ok wire offered bodies (take sent frame) (b # waiting)"
      by (auto simp: writer_wire_simps)
    with wire_ok_offer [of wire offered bodies _ "b # waiting" body] show ?thesis
      unfolding WSend writer_wire_simps by (intro exI [of _ bodies] exI [of _ b]) simp
  qed (use assms False in \<open>auto simp: writer_wire_simps intro: wire_ok_offer\<close>)
qed

lemma writer_pop_inv:
  assumes inv: "writer_inv s" and pc: "gs_writer s = WLoop \<or> gs_writer s = WDrain"
    and pop: "writer_pop draining otherwise s = Some s'" and pc': "otherwise = WLoop \<or> otherwise = WDone"
  shows "writer_inv s'"
proof -
  from inv have b: "spsc_inv (gs_outbound s)"
    and w: "writer_wire (gs_writer s) (spsc_contents (gs_outbound s)) (gs_sent s) (gs_offered s)" by (simp_all add: writer_inv_def)
  show ?thesis
  proof (rule spsc.pop_cases [OF b])
    fix q'
    assume "spsc_TryPop (gs_outbound s) = Some (None, q')" "spsc_contents (gs_outbound s) = []" "spsc_inv q'" "spsc_contents q' = []"
    with pop b pc pc' w writer_wire_stops [OF w, of "[]"] show ?thesis
      by (auto simp: writer_pop_def writer_inv_def writer_wire_simps(2,3))
  next
    fix x q'
    assume "spsc_TryPop (gs_outbound s) = Some (Some x, q')" "spsc_contents (gs_outbound s) = x # spsc_contents q'" "spsc_inv q'"
    moreover from this w pc obtain bodies where "wire_ok (gs_sent s) (gs_offered s) bodies [] (x # spsc_contents q')"
      by (auto simp: writer_wire_simps)
    ultimately show ?thesis
      using pop by (auto simp: writer_pop_def writer_inv_def writer_wire_simps intro!: exI [of _ bodies] exI [of _ x])
  qed
qed

lemma writer_send_inv:
  assumes inv: "writer_inv s" and pc: "gs_writer s = WSend draining frame sent" and step: "WriterLoop_step answer s = Some s'"
  shows "writer_inv s'"
proof -
  from inv have w: "writer_wire (gs_writer s) (spsc_contents (gs_outbound s)) (gs_sent s) (gs_offered s)"
    and q: "spsc_inv (gs_outbound s)" by (simp_all add: writer_inv_def)
  from w pc obtain bodies body where b: "frame = FrameMessage body"
    "wire_ok (gs_sent s) (gs_offered s) bodies (take sent frame) (body # spsc_contents (gs_outbound s))"
    by (auto simp: writer_wire_simps)
  let ?n = "nat (os_send (ts_fd (gs_socket s)) answer)"
  consider (sent) "length frame \<le> sent" "s' = s\<lparr>gs_writer := (if draining then WDrain else WLoop)\<rparr>"
    | (failed) alive where "s' = s\<lparr>gs_alive := alive, gs_writer := WDone\<rparr>"
    | (more) "s' = s\<lparr>gs_sent := gs_sent s @ take ?n (drop sent frame), gs_writer := WSend draining frame (sent + ?n)\<rparr>"
  proof (cases "sent < length frame")
    case True
    show thesis
    proof (cases "os_send (ts_fd (gs_socket s)) answer \<le> 0")
      case le: True
      have "s' = s\<lparr>gs_alive := (draining \<and> gs_alive s), gs_writer := WDone\<rparr>"
        using True le step pc by (cases draining) (simp_all add: WriterLoop_step_def send_step_def)
      with failed show thesis by blast
    next
      case False
      with True step pc more show thesis by (simp add: WriterLoop_step_def send_step_def)
    qed
  next
    case False
    with step pc sent show thesis by (simp add: WriterLoop_step_def)
  qed
  then show ?thesis
  proof cases
    case sent
    with b have "wire_ok (gs_sent s) (gs_offered s) (bodies @ [body]) [] (spsc_contents (gs_outbound s))"
      by (intro wire_ok_sent) simp
    with sent(2) q show ?thesis by (auto simp: writer_inv_def writer_wire_simps)
  next
    case failed
    with q writer_wire_stops [OF w] show ?thesis by (simp add: writer_inv_def)
  next
    case more
    from wire_ok_more [of "gs_sent s" "gs_offered s" bodies sent body _ ?n] b more q show ?thesis
      by (auto simp: writer_inv_def writer_wire_simps)
  qed
qed

lemma WriterLoop_step_inv:
  assumes inv: "writer_inv s" and step: "WriterLoop_step answer s = Some s'"
  shows "writer_inv s'"
proof (cases "gs_writer s")
  case WLoop
  show ?thesis
  proof (cases "gs_stopping s")
    case True
    with inv step WLoop show ?thesis by (auto simp: WriterLoop_step_def writer_inv_def writer_wire_simps)
  next
    case False
    with step WLoop have "writer_pop False WLoop s = Some s'" by (simp add: WriterLoop_step_def)
    from writer_pop_inv [OF inv _ this] WLoop show ?thesis by simp
  qed
next
  case (WSend draining frame sent)
  then show ?thesis by (rule writer_send_inv [OF inv _ step])
next
  case WDrain
  with step have "writer_pop True WDone s = Some s'" by (simp add: WriterLoop_step_def)
  from writer_pop_inv [OF inv _ this] WDrain show ?thesis by simp
qed (use inv step in \<open>simp_all add: WriterLoop_step_def\<close>)

lemma writer_inv_push:
  assumes inv: "writer_inv s" and push: "session_TryPushOutbound body s = Some (ok, s')"
  shows "writer_inv s'"
proof -
  from inv have q: "spsc_inv (gs_outbound s)" by (simp add: writer_inv_def)
  show ?thesis
    by (rule spsc.push_cases [OF q, of body])
      (use inv push in \<open>auto simp: session_TryPushOutbound_def writer_inv_def writer_wire_offer\<close>)
qed

lemma session_reachable_inv:
  assumes new: "GatewaySession_new d sock sid ci co = Inr s0" and "session_reachable s0 s"
  shows "reader_inv s \<and> writer_inv s"
  using assms(2)
proof (induction rule: session_reachable.induct)
  case start
  obtain qi qo where q: "spsc_new d ci = Inr qi" "spsc_new ([] :: bytes) co = Inr qo"
    and s0: "s0 = \<lparr>gs_socket = sock, gs_session_id = sid, gs_alive = True, gs_stopping = False, gs_inbound = qi,
      gs_outbound = qo, gs_decoder = fd_new, gs_reader = RNew, gs_writer = WNew, gs_received = [], gs_popped = [],
      gs_offered = [], gs_sent = []\<rparr>"
    using new by (auto simp: GatewaySession_new_def split: sum.splits)
  have "parse_frames [] = ([], False, [])" by (simp add: parse_frames.simps [of "[]"] next_frame_def)
  then show ?case
    using spsc_new_ring [OF q(1)] spsc_new_ring [OF q(2)]
    by (auto simp: s0 session_Start_def reader_inv_def writer_inv_def writer_wire_simps wire_ok_def reader_pending_def handed_over_def
        commands_of_def next_frame_def List.map_filter_simps)
next
  case (stop_flag s)
  then show ?case
    using reader_inv_frame [of "session_Stop_flag s" s] writer_inv_frame [of "session_Stop_flag s" s]
    by (simp add: session_Stop_flag_def)
next
  case (stop_close s K s' K')
  then show ?case
    using reader_inv_frame [of s' s] writer_inv_frame [of s' s] by (auto simp: session_Stop_close_def bind_eq_Some_conv)
next
  case (engine_pop s out s')
  then have q: "spsc_inv (gs_inbound s)" by (simp add: reader_inv_def)
  obtain q' where p: "spsc_TryPop (gs_inbound s) = Some (out, q')"
    and s': "s' = s\<lparr>gs_inbound := q', gs_popped := gs_popped s @ (case out of None \<Rightarrow> [] | Some c \<Rightarrow> [c])\<rparr>"
    using engine_pop.hyps(2) by (auto simp: session_TryPopInbound_def bind_eq_Some_conv)
  have "handed_over s' = handed_over s \<and> spsc_inv q'"
    by (rule spsc.pop_cases [OF q]) (use p in \<open>auto simp: s' handed_over_def\<close>)
  moreover have "writer_inv s'" by (rule writer_inv_frame [of s' s]) (use engine_pop.IH in \<open>simp_all add: s'\<close>)
  ultimately show ?case using engine_pop.IH by (auto simp: reader_inv_def reader_pending_def s')
next
  case (engine_push s body ok s')
  have "reader_inv s'"
    by (rule reader_inv_frame [of s' s]) (use engine_push in \<open>auto simp: session_TryPushOutbound_def bind_eq_Some_conv\<close>)
  with engine_push writer_inv_push show ?case by blast
next
  case (reader s recv s')
  have "writer_inv s'"
    by (rule writer_inv_frame [of s' s])
      (use reader in \<open>auto simp: ReaderLoop_step_def Let_def bind_eq_Some_conv split: reader_pc.splits option.splits frame_result.splits prod.splits if_splits\<close>)
  with reader ReaderLoop_step_inv show ?case by blast
next
  case (writer s answer s')
  have "reader_inv s'"
    by (rule reader_inv_frame [of s' s])
      (use writer in \<open>auto simp: WriterLoop_step_def writer_pop_def bind_eq_Some_conv split: writer_pc.splits option.splits if_splits\<close>)
  with writer WriterLoop_step_inv show ?case by blast
qed

section \<open>Properties\<close>

lemma commands_of_encoded: "commands_of (map EncodeCommand cmds) = cmds"
  by (induction cmds) (simp_all add: commands_of_def List.map_filter_simps)

lemma event_frame_fits: "length (EncodeEvent ev) \<le> unat kMaxFrameBytes"
  by (cases ev) (simp_all add: encoders)

lemma session_frames_sent:
  assumes w: "wire_ok (gs_sent s) (gs_offered s) bodies (part_of k rest) rest"
    and fits: "\<forall>body \<in> set (gs_offered s). length body \<le> unat kMaxFrameBytes" and chunks: "concat chunks = gs_sent s"
  shows "\<exists>m. fst (fd_receive chunks fd_new) = take m (gs_offered s)"
proof -
  let ?part = "part_of k rest"
  have empty: "parse_frames [] = ([], False, [])" by (simp add: parse_frames.simps [of "[]"] next_frame_def)
  have "\<exists>m. fst (parse_frames ?part) = take m rest"
  proof (cases rest)
    case Nil
    with empty show ?thesis by simp
  next
    case (Cons body rest')
    then have b: "length body \<le> unat kMaxFrameBytes" using w fits by (auto simp: wire_ok_def)
    show ?thesis
    proof (cases "k < length (FrameMessage body)")
      case True
      from next_frame_short [OF b this] Cons show ?thesis by (intro exI [of _ 0]) (simp add: part_of_Cons)
    next
      case False
      with parse_frames_messages [of "[body]" "[]"] b Cons empty show ?thesis by (intro exI [of _ 1]) (simp add: part_of_Cons)
    qed
  qed
  then obtain m where m: "fst (parse_frames ?part) = take m rest" by blast
  have "\<forall>body \<in> set bodies. length body \<le> unat kMaxFrameBytes" using w fits by (simp add: wire_ok_def)
  from parse_frames_messages [OF this, of ?part] w chunks m have "fst (parse_frames (concat chunks)) = bodies @ take m rest"
    by (simp add: wire_ok_def)
  moreover obtain bs err d where "fd_receive chunks fd_new = (bs, err, d)" by (metis prod_cases3)
  ultimately show ?thesis
    using fd_receive_refines [of fd_new chunks] empty w by (intro exI [of _ "length bodies + m"]) (simp add: wire_ok_def)
qed

lemma session_handed_over:
  assumes "reader_inv s"
  obtains rest where "commands_of (fst (parse_frames (gs_received s))) = gs_popped s @ spsc_contents (gs_inbound s) @ rest"
    "gs_reader s = RReceive \<longrightarrow> rest = []"
proof -
  let ?a = "fd_ahead (gs_decoder s)"
  from assms obtain seen rest where r: "parse_frames (gs_received s) = (seen @ fst (parse_frames ?a), snd (parse_frames ?a))"
    "commands_of seen = handed_over s @ rest" and pc: "gs_reader s \<noteq> RDone \<longrightarrow> rest = reader_pending s"
    "gs_reader s = RReceive \<longrightarrow> fst (next_frame ?a) = NoFrame"
    unfolding reader_inv_def by blast
  have "commands_of (fst (parse_frames (gs_received s))) =
      gs_popped s @ spsc_contents (gs_inbound s) @ rest @ commands_of (fst (parse_frames ?a))"
    using r(1,2) by (simp add: handed_over_def)
  moreover have "gs_reader s = RReceive \<longrightarrow> rest @ commands_of (fst (parse_frames ?a)) = []"
    using pc no_frame_parse [of ?a] by (auto simp: reader_pending_def commands_of_def List.map_filter_simps)
  ultimately show thesis using that by blast
qed

lemma commands_received: "commands_of (fst (parse_frames (take k (journal_of cmds)))) = complete_records k cmds"
  using parse_journal_prefix [of k cmds] commands_of_encoded [of "complete_records k cmds"] by auto

text \<open>
  A session, for every interleaving of its two threads, the engine thread and \<open>Stop\<close>: the
  commands the engine has popped, followed by those waiting in the queue, are an initial part of
  the commands of the frames received, in order and without the undecodable ones, and all of them
  whenever the reader waits for the next bytes; for a client that sends framed commands these are
  the commands that have arrived completely. In the other direction a client that reassembles
  what was sent, in whatever chunks and wherever the connection broke, gets an initial part of
  the bodies handed to the session.
\<close>

lemma session_streams:
  assumes "GatewaySession_new d sock sid ci co = Inr s0" "session_reachable s0 s"
  shows "(\<exists>rest. commands_of (fst (parse_frames (gs_received s))) = gs_popped s @ spsc_contents (gs_inbound s) @ rest \<and>
      (gs_reader s = RReceive \<longrightarrow> rest = [])) \<and>
    (gs_received s = take k (journal_of cmds) \<longrightarrow>
       commands_of (fst (parse_frames (gs_received s))) = complete_records k cmds) \<and>
    ((\<forall>body \<in> set (gs_offered s). length body \<le> unat kMaxFrameBytes) \<and> concat chunks = gs_sent s \<longrightarrow>
       (\<exists>m. fst (fd_receive chunks fd_new) = take m (gs_offered s)))"
proof -
  have inv: "reader_inv s" "writer_inv s" using session_reachable_inv [OF assms] by blast+
  obtain rest where "commands_of (fst (parse_frames (gs_received s))) = gs_popped s @ spsc_contents (gs_inbound s) @ rest"
    "gs_reader s = RReceive \<longrightarrow> rest = []" by (rule session_handed_over [OF inv(1)])
  moreover obtain bodies j rest' where w: "wire_ok (gs_sent s) (gs_offered s) bodies (part_of j rest') rest'"
    using inv(2) writer_wire_stops by (metis writer_inv_def writer_wire_simps(5))
  note session_frames_sent [OF w, of chunks]
  ultimately show ?thesis using commands_received by metis
qed

definition ex_session :: "session option" where
  "ex_session =
     (case GatewaySession_new ex_cancel (TcpSocket_of 5) 1 2 2 of
        Inl err \<Rightarrow> None
      | Inr s0 \<Rightarrow>
          do {
            s1 \<leftarrow> ReaderLoop_step (Some (record_of ex_cancel)) (session_Start s0);
            s2 \<leftarrow> ReaderLoop_step None s1;
            s3 \<leftarrow> ReaderLoop_step None s2;
            ReaderLoop_step None s3
          })"

lemma ex_session_reachable:
  obtains s0 s where "GatewaySession_new ex_cancel (TcpSocket_of 5) 1 2 2 = Inr s0" "session_reachable s0 s"
    "gs_reader s = RReceive" "gs_received s = record_of ex_cancel" "ts_fd (gs_socket s) = 5"
proof -
  have "map_option (\<lambda>s. (gs_reader s, gs_received s, ts_fd (gs_socket s))) ex_session = Some (RReceive, record_of ex_cancel, 5)"
    by code_simp
  then obtain s where s: "ex_session = Some s" "gs_reader s = RReceive" "gs_received s = record_of ex_cancel" "ts_fd (gs_socket s) = 5"
    by auto
  then obtain s0 s1 s2 s3 where new: "GatewaySession_new ex_cancel (TcpSocket_of 5) 1 2 2 = Inr s0"
    and steps: "ReaderLoop_step (Some (record_of ex_cancel)) (session_Start s0) = Some s1" "ReaderLoop_step None s1 = Some s2"
      "ReaderLoop_step None s2 = Some s3" "ReaderLoop_step None s3 = Some s"
    by (auto simp: ex_session_def bind_eq_Some_conv split: sum.splits)
  from steps have "session_reachable s0 s" by (meson session_reachable.reader session_reachable.start)
  with that new s show thesis by blast
qed

lemma session_streams_witness:
  "\<exists>s0 s. GatewaySession_new ex_cancel (TcpSocket_of 5) 1 2 2 = Inr s0 \<and> session_reachable s0 s \<and> gs_reader s = RReceive \<and>
     gs_received s = record_of ex_cancel \<and> gs_popped s @ spsc_contents (gs_inbound s) = [ex_cancel]"
proof (rule ex_session_reachable)
  fix s0 s
  assume s: "GatewaySession_new ex_cancel (TcpSocket_of 5) 1 2 2 = Inr s0" "session_reachable s0 s"
    "gs_reader s = RReceive" "gs_received s = record_of ex_cancel"
  have "gs_received s = take (length (record_of ex_cancel)) (journal_of [ex_cancel])" by (simp add: s(4) journal_of_def)
  with session_streams [OF s(1,2), of "length (record_of ex_cancel)" "[ex_cancel]" "[]"] s(3)
  have "gs_popped s @ spsc_contents (gs_inbound s) = [ex_cancel]" by auto
  with s show ?thesis by blast
qed

section \<open>Stopping\<close>

lemma session_Stop_flag_stopping: "gs_stopping (session_Stop_flag s)"
  by (simp add: session_Stop_flag_def)

text \<open>
  The threads after both effects of \<open>Stop\<close>, with the engine thread still running: the number of
  steps that the reader and the writer have made.
\<close>

inductive stopped_run :: "session \<Rightarrow> nat \<Rightarrow> nat \<Rightarrow> session \<Rightarrow> bool" for s0 where
  start: "stopped_run s0 0 0 s0"
| engine_pop: "stopped_run s0 i j s \<Longrightarrow> session_TryPopInbound s = Some (out, s') \<Longrightarrow> stopped_run s0 i j s'"
| engine_push: "stopped_run s0 i j s \<Longrightarrow> session_TryPushOutbound body s = Some (ok, s') \<Longrightarrow> stopped_run s0 i j s'"
| reader: "stopped_run s0 i j s \<Longrightarrow> gs_reader s \<noteq> RDone \<Longrightarrow> ReaderLoop_step recv s = Some s' \<Longrightarrow> stopped_run s0 (Suc i) j s'"
| writer: "stopped_run s0 i j s \<Longrightarrow> gs_writer s \<noteq> WDone \<Longrightarrow> WriterLoop_step answer s = Some s' \<Longrightarrow> stopped_run s0 i (Suc j) s'"

definition reader_work :: "session \<Rightarrow> nat" where
  "reader_work s = 2 * length (fd_ahead (gs_decoder s)) +
     (case gs_reader s of RNew \<Rightarrow> 0 | RReceive \<Rightarrow> 1 | RExtract \<Rightarrow> 2 | RPush cmd \<Rightarrow> 3 | RDone \<Rightarrow> 0)"

definition writer_work :: "session \<Rightarrow> nat" where
  "writer_work s =
     (case gs_writer s of WNew \<Rightarrow> 0 | WLoop \<Rightarrow> 3 | WSend draining frame sent \<Rightarrow> if sent < length frame then 1 else 4
      | WDrain \<Rightarrow> 2 | WDone \<Rightarrow> 0)"

lemma reader_step_works:
  assumes "gs_stopping s" "gs_reader s \<notin> {RNew, RDone}" "fd_ok (gs_decoder s)" "ReaderLoop_step recv s = Some s'"
  shows "reader_work s' < reader_work s \<and> gs_reader s' \<noteq> RNew"
proof (cases "gs_reader s")
  case RExtract
  obtain x d where x: "fd_TryExtractFrame (gs_decoder s) = (x, d)" by fastforce
  have "fd_ahead d = fd_ahead (gs_decoder s)" if "x = NoFrame \<or> x = ProtocolError"
    using fd_TryExtractFrame_refines [OF assms(3)] x that next_frame_stays [of "fd_ahead (gs_decoder s)"] by (auto simp: prod_eq_iff)
  with x RExtract assms(4) fd_TryExtractFrame_shrinks [of "gs_decoder s" _ d] show ?thesis
    by (cases x) (auto simp: ReaderLoop_step_def reader_work_def split: option.splits)
qed (use assms in \<open>auto simp: ReaderLoop_step_def reader_work_def bind_eq_Some_conv split: if_splits\<close>)

lemma writer_step_works:
  assumes "gs_stopping s" "gs_writer s \<notin> {WNew, WDone}" "\<not> socket_valid (gs_socket s)" "WriterLoop_step answer s = Some s'"
  shows "writer_work s' < writer_work s \<and> gs_writer s' \<noteq> WNew \<and> gs_sent s' = gs_sent s"
  using assms
  by (cases "gs_writer s")
    (auto simp: WriterLoop_step_def writer_pop_def writer_work_def send_step_def os_send_def socket_valid_def FrameMessage_bytes
      bind_eq_Some_conv le_bytes_def split: if_splits option.splits)

lemma reader_step_frame:
  assumes "ReaderLoop_step recv s = Some s'"
  shows "gs_socket s' = gs_socket s" "gs_stopping s' = gs_stopping s" "gs_writer s' = gs_writer s" "gs_sent s' = gs_sent s"
    "gs_outbound s' = gs_outbound s" "gs_offered s' = gs_offered s" "gs_popped s' = gs_popped s"
  using assms
  by (auto simp: ReaderLoop_step_def Let_def bind_eq_Some_conv
      split: reader_pc.splits option.splits frame_result.splits prod.splits if_splits)

lemma writer_step_frame:
  assumes "WriterLoop_step answer s = Some s'"
  shows "gs_socket s' = gs_socket s" "gs_stopping s' = gs_stopping s" "gs_reader s' = gs_reader s" "gs_decoder s' = gs_decoder s"
    "gs_inbound s' = gs_inbound s" "gs_popped s' = gs_popped s" "gs_offered s' = gs_offered s"
  using assms
  by (auto simp: WriterLoop_step_def writer_pop_def bind_eq_Some_conv split: writer_pc.splits option.splits if_splits)

lemma engine_step_frame:
  assumes "session_TryPopInbound s = Some (out, s') \<or> session_TryPushOutbound body s = Some (ok, s')"
  shows "gs_socket s' = gs_socket s" "gs_stopping s' = gs_stopping s" "gs_reader s' = gs_reader s" "gs_writer s' = gs_writer s"
    "gs_decoder s' = gs_decoder s" "gs_sent s' = gs_sent s"
  using assms by (auto simp: session_TryPopInbound_def session_TryPushOutbound_def bind_eq_Some_conv)

lemma reachable_started: "session_reachable s0 s \<Longrightarrow> gs_reader s \<noteq> RNew \<and> gs_writer s \<noteq> WNew"
proof (induction rule: session_reachable.induct)
  case (reader s recv s')
  then show ?case
    by (auto simp: ReaderLoop_step_def Let_def bind_eq_Some_conv
        split: reader_pc.splits option.splits frame_result.splits prod.splits if_splits)
next
  case (writer s answer s')
  then show ?case
    by (auto simp: WriterLoop_step_def writer_pop_def bind_eq_Some_conv split: writer_pc.splits option.splits if_splits)
qed (auto simp: session_Start_def session_Stop_flag_def session_Stop_close_def session_TryPopInbound_def
    session_TryPushOutbound_def bind_eq_Some_conv)

lemma stopped_run_reachable: "stopped_run s i j s' \<Longrightarrow> session_reachable s0 s \<Longrightarrow> session_reachable s0 s'"
  by (induction rule: stopped_run.induct) (auto intro: session_reachable.intros)

lemma threads_can_step:
  assumes "reader_inv s" "writer_inv s"
  shows "ReaderLoop_step recv s \<noteq> None" "WriterLoop_step answer s \<noteq> None"
proof -
  have push: "\<exists>ok q. spsc_TryPush cmd (gs_inbound s) = Some (ok, q)" for cmd
    using assms(1) spsc.push_law [of "gs_inbound s" cmd] by (auto simp: reader_inv_def)
  show "ReaderLoop_step recv s \<noteq> None"
  proof (cases "gs_reader s")
    case (RPush cmd)
    with push [of cmd] show ?thesis by (auto simp: ReaderLoop_step_def)
  qed (simp_all add: ReaderLoop_step_def Let_def split: option.split frame_result.split prod.split)
  have "\<exists>r. spsc_TryPop (gs_outbound s) = Some r"
    using assms(2) spsc.pop_law [of "gs_outbound s"] by (auto simp: writer_inv_def)
  then show "WriterLoop_step answer s \<noteq> None"
    by (auto simp: WriterLoop_step_def writer_pop_def split: writer_pc.split option.split)
qed

lemma stopped_run_bounds:
  assumes new: "GatewaySession_new d sock sid ci co = Inr s00" and reach: "session_reachable s00 s0"
    and stop: "gs_stopping s0" "\<not> socket_valid (gs_socket s0)" and run: "stopped_run s0 i j s"
  shows "gs_stopping s \<and> \<not> socket_valid (gs_socket s) \<and> gs_sent s = gs_sent s0 \<and>
    i + reader_work s \<le> reader_work s0 \<and> j + writer_work s \<le> writer_work s0"
  using run
proof (induction rule: stopped_run.induct)
  case start
  with stop show ?case by simp
next
  case (engine_pop i j s out s')
  with engine_step_frame [of s out s' undefined undefined] show ?case by (simp add: reader_work_def writer_work_def)
next
  case (engine_push i j s body ok s')
  with engine_step_frame [of s undefined s' body ok] show ?case by (simp add: reader_work_def writer_work_def)
next
  case (reader i j s recv s')
  have "session_reachable s00 s" by (rule stopped_run_reachable [OF reader.hyps(1) reach])
  with session_reachable_inv [OF new] reachable_started have "fd_ok (gs_decoder s)" "gs_reader s \<noteq> RNew" by (auto simp: reader_inv_def)
  with reader_step_works [of s recv s'] reader_step_frame [OF reader.hyps(3)] reader show ?case
    by (simp add: writer_work_def)
next
  case (writer i j s answer s')
  have "gs_writer s \<noteq> WNew" using reachable_started [OF stopped_run_reachable [OF writer.hyps(1) reach]] by simp
  with writer_step_works [of s answer s'] writer_step_frame [OF writer.hyps(3)] writer show ?case
    by (simp add: reader_work_def)
qed


definition ex_stopped :: "session option" where
  "ex_stopped =
     (case GatewaySession_new ex_cancel (TcpSocket_of 5) 1 2 2 of
        Inl err \<Rightarrow> None
      | Inr s0 \<Rightarrow>
          do {
            (ok, s1) \<leftarrow> session_TryPushOutbound [7] (session_Start s0);
            (s2, K) \<leftarrow> session_Stop_close (session_Stop_flag s1) \<lparr>k_open = {5}, k_options = []\<rparr>;
            Some s2
          })"


end
