(* ===== verification/Session_Lifetime.thy ===== *)
theory Session_Lifetime
  imports Gateway_Session
begin

text \<open>
  Who owns a \<open>GatewaySession\<close> of \<open>net/gateway_session.hpp\<close> and
  \<open>net/gateway_session.cpp\<close>: the shared pointer of the program that accepted it,
  and those that \<open>Start\<close> captures in its two threads. The thread that lets the last
  one go runs the destructor, which is \<open>Stop\<close>. The effects of
  \<open>std::shared_ptr\<close> and \<open>std::thread\<close> that the code relies on are
  written out: joining waits for the thread, a thread that joins itself gets an exception, and
  an exception in a destructor ends the process.

  The lemmas show that a session is destroyed properly when its threads have returned before the
  program lets go of it, and that otherwise the process is terminated.
\<close>

section \<open>State\<close>

datatype party = Program | Reader | Writer

text \<open>A call of \<open>Stop\<close>: who makes it, where it is, and whether it is the destructor's.\<close>

datatype stop_pc = SFlag | SClose | SJoinReader | SJoinWriter

record lifetime =
  lt_session :: session
  lt_kernel :: kernel
  lt_refs :: "party set"
  lt_reader_joinable :: bool
  lt_writer_joinable :: bool
  lt_call :: "(party \<times> stop_pc \<times> bool) option"
  lt_destroyed :: bool
  lt_terminated :: bool
  lt_early :: bool

text \<open>
  After \<open>Start\<close> three shared pointers refer to the session. The last field records
  whether the program has let go of its pointer while a thread still had one.
\<close>

definition lifetime_Start :: "session \<Rightarrow> kernel \<Rightarrow> lifetime" where
  "lifetime_Start s K =
     \<lparr>lt_session = session_Start s, lt_kernel = K, lt_refs = {Program, Reader, Writer}, lt_reader_joinable = True,
      lt_writer_joinable = True, lt_call = None, lt_destroyed = False, lt_terminated = False, lt_early = False\<rparr>"

section \<open>Operations\<close>

text \<open>Letting go of a shared pointer; the last one runs the destructor.\<close>

definition release :: "party \<Rightarrow> lifetime \<Rightarrow> lifetime" where
  "release p L =
     (let refs = lt_refs L - {p} in
      L\<lparr>lt_refs := refs, lt_call := (if refs = {} then Some (p, SFlag, True) else lt_call L)\<rparr>)"

text \<open>\<open>if (t.joinable()) t.join()\<close>, made by \<open>me\<close> on the thread of \<open>p\<close>.\<close>

datatype join_result = Joined | SelfJoin | Waiting

definition join_thread :: "party \<Rightarrow> party \<Rightarrow> bool \<Rightarrow> lifetime \<Rightarrow> join_result" where
  "join_thread me p joinable L =
     (if \<not> joinable then Joined
      else if me = p then SelfJoin
      else if p \<in> lt_refs L then Waiting
      else Joined)"

definition self_join :: "lifetime \<Rightarrow> lifetime" where
  "self_join L = L\<lparr>lt_call := None, lt_terminated := True\<rparr>"

text \<open>One statement of \<open>Stop\<close>; \<open>None\<close> when there is no call or it waits.\<close>

definition stop_step :: "lifetime \<Rightarrow> lifetime option" where
  "stop_step L =
     (case lt_call L of
        None \<Rightarrow> None
      | Some (me, SFlag, dtor) \<Rightarrow>
          Some (L\<lparr>lt_session := session_Stop_flag (lt_session L), lt_call := Some (me, SClose, dtor)\<rparr>)
      | Some (me, SClose, dtor) \<Rightarrow>
          do {
            (s, K) \<leftarrow> session_Stop_close (lt_session L) (lt_kernel L);
            Some (L\<lparr>lt_session := s, lt_kernel := K, lt_call := Some (me, SJoinReader, dtor)\<rparr>)
          }
      | Some (me, SJoinReader, dtor) \<Rightarrow>
          (case join_thread me Reader (lt_reader_joinable L) L of
             Waiting \<Rightarrow> None
           | SelfJoin \<Rightarrow> Some (self_join L)
           | Joined \<Rightarrow> Some (L\<lparr>lt_reader_joinable := False, lt_call := Some (me, SJoinWriter, dtor)\<rparr>))
      | Some (me, SJoinWriter, dtor) \<Rightarrow>
          (case join_thread me Writer (lt_writer_joinable L) L of
             Waiting \<Rightarrow> None
           | SelfJoin \<Rightarrow> Some (self_join L)
           | Joined \<Rightarrow> Some (L\<lparr>lt_writer_joinable := False, lt_call := None, lt_destroyed := dtor\<rparr>)))"

text \<open>
  The program calls \<open>Stop\<close>, lets go of its pointer or uses the queues, the threads
  make their steps, and a thread whose function has returned lets go of the pointer it captured.
  Nothing happens after the process has been terminated.
\<close>

inductive lifetime_step :: "lifetime \<Rightarrow> lifetime \<Rightarrow> bool" where
  call_stop: "\<not> lt_terminated L \<Longrightarrow> Program \<in> lt_refs L \<Longrightarrow> lt_call L = None \<Longrightarrow>
    lifetime_step L (L\<lparr>lt_call := Some (Program, SFlag, False)\<rparr>)"
| let_go: "\<not> lt_terminated L \<Longrightarrow> Program \<in> lt_refs L \<Longrightarrow> lt_call L = None \<Longrightarrow>
    lifetime_step L (release Program (L\<lparr>lt_early := lt_refs L \<noteq> {Program}\<rparr>))"
| stopping: "\<not> lt_terminated L \<Longrightarrow> stop_step L = Some L' \<Longrightarrow> lifetime_step L L'"
| reader: "\<not> lt_terminated L \<Longrightarrow> Reader \<in> lt_refs L \<Longrightarrow> ReaderLoop_step recv (lt_session L) = Some s \<Longrightarrow>
    lifetime_step L (L\<lparr>lt_session := s\<rparr>)"
| writer: "\<not> lt_terminated L \<Longrightarrow> Writer \<in> lt_refs L \<Longrightarrow> WriterLoop_step answer (lt_session L) = Some s \<Longrightarrow>
    lifetime_step L (L\<lparr>lt_session := s\<rparr>)"
| pops: "\<not> lt_terminated L \<Longrightarrow> Program \<in> lt_refs L \<Longrightarrow> session_TryPopInbound (lt_session L) = Some (out, s) \<Longrightarrow>
    lifetime_step L (L\<lparr>lt_session := s\<rparr>)"
| pushes: "\<not> lt_terminated L \<Longrightarrow> Program \<in> lt_refs L \<Longrightarrow> session_TryPushOutbound body (lt_session L) = Some (ok, s) \<Longrightarrow>
    lifetime_step L (L\<lparr>lt_session := s\<rparr>)"
| reader_returns: "\<not> lt_terminated L \<Longrightarrow> Reader \<in> lt_refs L \<Longrightarrow> gs_reader (lt_session L) = RDone \<Longrightarrow>
    lifetime_step L (release Reader L)"
| writer_returns: "\<not> lt_terminated L \<Longrightarrow> Writer \<in> lt_refs L \<Longrightarrow> gs_writer (lt_session L) = WDone \<Longrightarrow>
    lifetime_step L (release Writer L)"

inductive lifetime_reachable :: "lifetime \<Rightarrow> lifetime \<Rightarrow> bool" for L0 where
  start: "lifetime_reachable L0 L0"
| step: "lifetime_reachable L0 L \<Longrightarrow> lifetime_step L L' \<Longrightarrow> lifetime_reachable L0 L'"

section \<open>Invariant\<close>

definition idle_ok :: "lifetime \<Rightarrow> bool" where
  "idle_ok L \<longleftrightarrow> lt_terminated L \<or> lt_destroyed L \<or> lt_refs L \<noteq> {} \<and> lt_reader_joinable L = lt_writer_joinable L"

definition calling_ok :: "party \<Rightarrow> stop_pc \<Rightarrow> bool \<Rightarrow> lifetime \<Rightarrow> bool" where
  "calling_ok me pc dtor L \<longleftrightarrow>
     (if dtor then lt_refs L = {} else me = Program \<and> Program \<in> lt_refs L) \<and> (me = Program \<longleftrightarrow> \<not> lt_early L) \<and>
     (pc \<noteq> SJoinWriter \<longrightarrow> lt_reader_joinable L = lt_writer_joinable L) \<and>
     (pc = SJoinWriter \<longrightarrow> \<not> lt_reader_joinable L \<and> me \<noteq> Reader) \<and>
     (pc \<in> {SJoinReader, SJoinWriter} \<longrightarrow> ts_fd (gs_socket (lt_session L)) < 0)"

definition call_ok :: "lifetime \<Rightarrow> bool" where
  "call_ok L \<longleftrightarrow> (case lt_call L of None \<Rightarrow> idle_ok L | Some (me, pc, dtor) \<Rightarrow> calling_ok me pc dtor L)"

lemma call_ok_simps:
  "lt_call L = None \<Longrightarrow> call_ok L \<longleftrightarrow> idle_ok L" "lt_call L = Some (me, pc, dtor) \<Longrightarrow> call_ok L \<longleftrightarrow> calling_ok me pc dtor L"
  by (simp_all add: call_ok_def)

definition early_ok :: "lifetime \<Rightarrow> bool" where
  "early_ok L \<longleftrightarrow>
     (lt_early L \<longrightarrow> Program \<notin> lt_refs L \<and> \<not> lt_destroyed L \<and> lt_writer_joinable L) \<and>
     (\<not> lt_early L \<longrightarrow> \<not> lt_terminated L \<and> (Program \<in> lt_refs L \<or> lt_refs L = {}))"

definition lifetime_inv :: "lifetime \<Rightarrow> bool" where
  "lifetime_inv L \<longleftrightarrow> call_ok L \<and> early_ok L \<and>
     (lt_destroyed L \<longrightarrow> lt_refs L = {} \<and> lt_call L = None \<and> ts_fd (gs_socket (lt_session L)) < 0) \<and>
     (Reader \<in> lt_refs L \<longrightarrow> lt_reader_joinable L) \<and> (Writer \<in> lt_refs L \<longrightarrow> lt_writer_joinable L) \<and>
     (ts_fd (gs_socket (lt_session L)) < 0 \<or> ts_fd (gs_socket (lt_session L)) \<in> k_open (lt_kernel L))"

lemmas lifetime_defs = lifetime_inv_def call_ok_simps idle_ok_def calling_ok_def early_ok_def

lemma lifetime_invD:
  assumes "lifetime_inv L"
  shows "lt_call L = None \<Longrightarrow> lt_terminated L \<or> lt_destroyed L \<or> lt_refs L \<noteq> {} \<and> lt_reader_joinable L = lt_writer_joinable L"
    "lt_early L \<Longrightarrow> Program \<notin> lt_refs L \<and> \<not> lt_destroyed L \<and> lt_writer_joinable L"
    "\<not> lt_early L \<Longrightarrow> \<not> lt_terminated L \<and> (Program \<in> lt_refs L \<or> lt_refs L = {})"
    "lt_destroyed L \<Longrightarrow> lt_refs L = {} \<and> lt_call L = None \<and> ts_fd (gs_socket (lt_session L)) < 0"
    "Reader \<in> lt_refs L \<Longrightarrow> lt_reader_joinable L" "Writer \<in> lt_refs L \<Longrightarrow> lt_writer_joinable L"
    "ts_fd (gs_socket (lt_session L)) < 0 \<or> ts_fd (gs_socket (lt_session L)) \<in> k_open (lt_kernel L)"
  using assms by (simp_all add: lifetime_defs)

lemma lifetime_callD:
  assumes "lifetime_inv L" "lt_call L = Some (me, pc, dtor)"
  shows "dtor \<Longrightarrow> lt_refs L = {}" "\<not> dtor \<Longrightarrow> me = Program \<and> Program \<in> lt_refs L" "me = Program \<longleftrightarrow> \<not> lt_early L"
    "pc \<noteq> SJoinWriter \<Longrightarrow> lt_reader_joinable L = lt_writer_joinable L" "pc = SJoinWriter \<Longrightarrow> \<not> lt_reader_joinable L \<and> me \<noteq> Reader"
    "pc \<in> {SJoinReader, SJoinWriter} \<Longrightarrow> ts_fd (gs_socket (lt_session L)) < 0"
  using assms by (simp_all add: lifetime_defs split: if_splits)

lemma release_inv:
  assumes inv: "lifetime_inv L" and live: "\<not> lt_terminated L" and p: "p \<in> lt_refs L" "p \<noteq> Program"
  shows "lifetime_inv (release p L)"
proof (cases "lt_call L")
  case None
  note I = lifetime_invD [OF inv]
  have joinable: "lt_reader_joinable L = lt_writer_joinable L" "\<not> lt_destroyed L" using I(1,4) None live p(1) by auto
  show ?thesis
  proof (cases "lt_refs L = {p}")
    case True
    then have "lt_early L" using I(3) p by auto
    with I(2,7) joinable live p(2) True show ?thesis by (auto simp: lifetime_defs release_def)
  next
    case False
    then have "lt_refs L - {p} \<noteq> {}" using p(1) by blast
    with I None joinable live p show ?thesis by (auto simp: lifetime_defs release_def Let_def)
  qed
next
  case (Some call)
  obtain me pc dtor where call: "lt_call L = Some (me, pc, dtor)" using Some by (cases call) auto
  note I = lifetime_invD [OF inv] and C = lifetime_callD [OF inv call]
  have "\<not> dtor" using C(1) p(1) by blast
  with C(2) have "me = Program" "Program \<in> lt_refs L - {p}" using p(2) by auto
  moreover from this(2) have "lt_refs L - {p} \<noteq> {}" by blast
  ultimately show ?thesis using I C call \<open>\<not> dtor\<close> live by (auto simp: lifetime_defs release_def Let_def)
qed

lemma let_go_inv:
  assumes inv: "lifetime_inv L" and live: "\<not> lt_terminated L" and p: "Program \<in> lt_refs L" "lt_call L = None"
  shows "lifetime_inv (release Program (L\<lparr>lt_early := lt_refs L \<noteq> {Program}\<rparr>))"
proof -
  note I = lifetime_invD [OF inv]
  have joinable: "lt_reader_joinable L = lt_writer_joinable L" "\<not> lt_destroyed L" using I(1,4) live p by auto
  show ?thesis
  proof (cases "lt_refs L = {Program}")
    case True
    with I(7) joinable live show ?thesis by (auto simp: lifetime_defs release_def)
  next
    case False
    then obtain q where q: "q \<in> lt_refs L" "q \<noteq> Program" using p(1) by blast
    then have "lt_writer_joinable L" using I(5,6) joinable by (cases q) auto
    moreover have "lt_refs L - {Program} \<noteq> {}" using q by blast
    ultimately show ?thesis using False I joinable live p by (auto simp: lifetime_defs release_def Let_def)
  qed
qed

lemma stop_step_inv:
  assumes inv: "lifetime_inv L" and live: "\<not> lt_terminated L" and step: "stop_step L = Some L'"
  shows "lifetime_inv L'"
proof -
  from step obtain me pc dtor where call: "lt_call L = Some (me, pc, dtor)" by (auto simp: stop_step_def split: option.splits)
  note I = lifetime_invD [OF inv] and C = lifetime_callD [OF inv call]
  have "\<not> lt_destroyed L" using I(4) call by auto
  note facts = I(2,3,5-7) C this live
  show ?thesis
  proof (cases pc)
    case SFlag
    with call step facts show ?thesis by (cases dtor) (auto simp: stop_step_def lifetime_defs session_Stop_flag_def)
  next
    case SClose
    with call step facts show ?thesis
      by (cases dtor) (auto simp: stop_step_def lifetime_defs session_Stop_close_def socket_Close_def os_close_def bind_eq_Some_conv split: if_splits)
  next
    case SJoinReader
    with call step facts show ?thesis
      by (cases dtor) (auto simp: stop_step_def lifetime_defs join_thread_def self_join_def split: if_splits)
  next
    case SJoinWriter
    with call step facts show ?thesis
      by (cases dtor; cases me) (auto simp: stop_step_def lifetime_defs join_thread_def self_join_def split: if_splits)
  qed
qed

lemma session_only:
  "gs_socket s = gs_socket (lt_session L) \<Longrightarrow> lifetime_inv (L\<lparr>lt_session := s\<rparr>) = lifetime_inv L"
  by (cases "lt_call L") (auto simp: lifetime_inv_def call_ok_def idle_ok_def calling_ok_def early_ok_def)

lemma lifetime_step_inv:
  assumes "lifetime_step L L'" "lifetime_inv L"
  shows "lifetime_inv L'"
  using assms
proof cases
  case call_stop
  with assms(2) show ?thesis by (auto simp: lifetime_defs)
next
  case let_go
  with assms(2) let_go_inv show ?thesis by simp
next
  case stopping
  with assms(2) stop_step_inv show ?thesis by simp
next
  case (reader recv s)
  with assms(2) reader_step_frame(1) [OF reader(4)] show ?thesis by (simp add: session_only)
next
  case (writer answer s)
  with assms(2) writer_step_frame(1) [OF writer(4)] show ?thesis by (simp add: session_only)
next
  case (pops out s)
  with assms(2) engine_step_frame(1) [of "lt_session L" out s] show ?thesis by (simp add: session_only)
next
  case (pushes body ok s)
  with assms(2) engine_step_frame(1) [of "lt_session L" _ s body ok] show ?thesis by (simp add: session_only)
next
  case reader_returns
  with assms(2) release_inv show ?thesis by simp
next
  case writer_returns
  with assms(2) release_inv show ?thesis by simp
qed

lemma lifetime_reachable_inv:
  assumes "lifetime_reachable (lifetime_Start s K) L" "ts_fd (gs_socket s) \<in> k_open K"
  shows "lifetime_inv L"
  using assms(1)
proof induction
  case start
  with assms(2) show ?case by (simp add: lifetime_defs lifetime_Start_def session_Start_def)
qed (rule lifetime_step_inv)

section \<open>The end of a session\<close>

fun stop_steps :: "nat \<Rightarrow> lifetime \<Rightarrow> lifetime option" where
  "stop_steps 0 L = Some L"
| "stop_steps (Suc k) L = do { L' \<leftarrow> stop_step L; stop_steps k L' }"

abbreviation terminates :: "lifetime \<Rightarrow> bool" where
  "terminates L \<equiv> \<exists>k L'. stop_steps k L = Some L' \<and> lt_terminated L'"

lemma terminates_step:
  assumes "stop_step L = Some M" "terminates M"
  shows "terminates L"
proof -
  from assms(2) obtain k L' where "stop_steps k M = Some L'" "lt_terminated L'" by blast
  with assms(1) show ?thesis by (intro exI [of _ "Suc k"] exI [of _ L']) simp
qed

lemma terminates_now: "lt_terminated L \<Longrightarrow> terminates L"
  by (intro exI [of _ 0] exI [of _ L]) simp

lemma join_terminates:
  assumes "lt_call L = Some (me, pc, dtor)" "me = Reader \<and> pc = SJoinReader \<or> me = Writer \<and> pc = SJoinWriter"
    and "lt_reader_joinable L \<or> me = Writer" "lt_writer_joinable L"
  shows "terminates L"
proof (rule terminates_step [OF _ terminates_now])
  show "stop_step L = Some (self_join L)" using assms by (auto simp: stop_step_def join_thread_def)
qed (simp add: self_join_def)

lemma reader_join_terminates:
  assumes "lt_call L = Some (me, SJoinReader, dtor)" "me \<noteq> Program" "lt_reader_joinable L" "lt_writer_joinable L" "lt_refs L = {}"
  shows "terminates L"
proof (cases "me = Reader")
  case True
  with assms join_terminates show ?thesis by simp
next
  case False
  let ?M = "L\<lparr>lt_reader_joinable := False, lt_call := Some (Writer, SJoinWriter, dtor)\<rparr>"
  have "me = Writer" using False assms(2) by (cases me) simp_all
  with assms have "stop_step L = Some ?M" by (simp add: stop_step_def join_thread_def)
  then show ?thesis by (rule terminates_step) (use assms(4) in \<open>simp add: join_terminates\<close>)
qed

lemma close_terminates:
  assumes "lt_call L = Some (me, SClose, dtor)" "me \<noteq> Program" "lt_reader_joinable L" "lt_writer_joinable L" "lt_refs L = {}"
    and fd: "ts_fd (gs_socket (lt_session L)) < 0 \<or> ts_fd (gs_socket (lt_session L)) \<in> k_open (lt_kernel L)"
  shows "terminates L"
proof -
  obtain s K where close: "session_Stop_close (lt_session L) (lt_kernel L) = Some (s, K)"
    using fd by (cases "ts_fd (gs_socket (lt_session L)) < 0") (auto simp: session_Stop_close_def socket_Close_def os_close_def)
  have "stop_step L = Some (L\<lparr>lt_session := s, lt_kernel := K, lt_call := Some (me, SJoinReader, dtor)\<rparr>)"
    by (simp add: stop_step_def assms(1) close)
  then show ?thesis by (rule terminates_step) (rule reader_join_terminates; use assms in simp)
qed

lemma self_join_ends:
  assumes inv: "lifetime_inv L" and early: "lt_early L" "lt_refs L = {}" "\<not> lt_terminated L"
  shows "terminates L"
proof -
  note I = lifetime_invD [OF inv]
  obtain me pc dtor where call: "lt_call L = Some (me, pc, dtor)" using I(1,2) early by (cases "lt_call L") auto
  note C = lifetime_callD [OF inv call]
  have me: "me \<noteq> Program" "lt_writer_joinable L" using C(3) I(2) early(1) by simp_all
  show ?thesis
  proof (cases pc)
    case SFlag
    have "stop_step L = Some (L\<lparr>lt_session := session_Stop_flag (lt_session L), lt_call := Some (me, SClose, dtor)\<rparr>)"
      using call SFlag by (simp add: stop_step_def)
    then show ?thesis
      by (rule terminates_step) (rule close_terminates; use C(4) me early(2) SFlag I(7) in \<open>simp add: session_Stop_flag_def\<close>)
  next
    case SClose
    show ?thesis by (rule close_terminates [OF call [unfolded SClose] me(1)]) (use C(4) me early(2) SClose I(7) in simp_all)
  next
    case SJoinReader
    show ?thesis by (rule reader_join_terminates [OF call [unfolded SJoinReader] me(1)]) (use C(4) me early(2) SJoinReader in simp_all)
  next
    case SJoinWriter
    with C(5) me(1) have "me = Writer" by (cases me) simp_all
    with join_terminates [OF call] SJoinWriter me(2) show ?thesis by simp
  qed
qed


text \<open>
  A session whose program lets go of it after a report has been queued; the client disconnects,
  so the reader returns, and then the writer, which cannot send.
\<close>

definition ex_ended :: "lifetime option" where
  "ex_ended =
     (case GatewaySession_new ex_cancel (TcpSocket_of 5) 1 2 2 of
        Inl err \<Rightarrow> None
      | Inr s0 \<Rightarrow>
          (let L0 = lifetime_Start s0 \<lparr>k_open = {5}, k_options = []\<rparr> in
           do {
             (ok, s1) \<leftarrow> session_TryPushOutbound [7] (lt_session L0);
             let L1 = L0\<lparr>lt_session := s1\<rparr>;
             let L2 = release Program (L1\<lparr>lt_early := lt_refs L1 \<noteq> {Program}\<rparr>);
             s3 \<leftarrow> ReaderLoop_step None (lt_session L2);
             let L4 = release Reader (L2\<lparr>lt_session := s3\<rparr>);
             s5 \<leftarrow> WriterLoop_step 0 (lt_session L4);
             s6 \<leftarrow> WriterLoop_step (- 1) s5;
             Some (release Writer (L4\<lparr>lt_session := s6\<rparr>))
           }))"

lemma ex_ended_facts:
  "map_option (\<lambda>L. (gs_reader (lt_session L), gs_writer (lt_session L), lt_early L, lt_refs L = {}, lt_terminated L)) ex_ended =
     Some (RDone, WDone, True, True, False)"
  by code_simp

lemma ex_ended_reachable:
  obtains s0 L where "ts_fd (gs_socket s0) \<in> k_open \<lparr>k_open = {5}, k_options = []\<rparr>"
    "lifetime_reachable (lifetime_Start s0 \<lparr>k_open = {5}, k_options = []\<rparr>) L" "lt_early L" "lt_refs L = {}" "\<not> lt_terminated L"
proof -
  let ?K = "\<lparr>k_open = {5}, k_options = []\<rparr> :: kernel"
  obtain L where L: "ex_ended = Some L" "gs_reader (lt_session L) = RDone" "gs_writer (lt_session L) = WDone" "lt_early L" "lt_refs L = {}"
    "\<not> lt_terminated L" using ex_ended_facts by auto
  from L(1) obtain s0 where new: "GatewaySession_new ex_cancel (TcpSocket_of 5) 1 2 2 = Inr s0" by (auto simp: ex_ended_def split: sum.splits)
  let ?L0 = "lifetime_Start s0 ?K"
  from L(1) new obtain ok s1 where push: "session_TryPushOutbound [7] (lt_session ?L0) = Some (ok, s1)"
    by (auto simp: ex_ended_def bind_eq_Some_conv Let_def)
  let ?L1 = "?L0\<lparr>lt_session := s1\<rparr>" let ?L2 = "release Program (?L1\<lparr>lt_early := lt_refs ?L1 \<noteq> {Program}\<rparr>)"
  from L(1) new push obtain s3 where read: "ReaderLoop_step None (lt_session ?L2) = Some s3" by (auto simp: ex_ended_def bind_eq_Some_conv Let_def)
  let ?L3 = "?L2\<lparr>lt_session := s3\<rparr>" let ?L4 = "release Reader ?L3"
  from L(1) new push read obtain s5 s6 where wr: "WriterLoop_step 0 (lt_session ?L4) = Some s5" "WriterLoop_step (- 1) s5 = Some s6"
    and last: "L = release Writer (?L4\<lparr>lt_session := s6\<rparr>)" by (auto simp: ex_ended_def bind_eq_Some_conv Let_def)
  have done_pcs: "gs_reader s3 = RDone" "gs_writer s6 = WDone"
    using L(2,3) wr[THEN writer_step_frame(3)] by (simp_all add: last release_def Let_def)
  have refs: "lt_refs ?L0 = {Program, Reader, Writer}" "lt_refs ?L2 = {Reader, Writer}" "lt_refs ?L4 = {Writer}"
    by (auto simp: lifetime_Start_def release_def Let_def)
  have live: "\<not> lt_terminated ?L0" "\<not> lt_terminated ?L2" "\<not> lt_terminated ?L4" "lt_call ?L1 = None"
    by (simp_all add: lifetime_Start_def release_def Let_def)
  have "lifetime_reachable ?L0 ?L1" using lifetime_step.pushes [OF live(1) _ push] refs(1) by (auto intro: lifetime_reachable.intros)
  then have "lifetime_reachable ?L0 ?L2" by (rule lifetime_reachable.step) (rule lifetime_step.let_go; use refs live in simp)
  then have "lifetime_reachable ?L0 ?L3" by (rule lifetime_reachable.step) (rule lifetime_step.reader [OF _ _ read]; use refs live in simp)
  then have "lifetime_reachable ?L0 ?L4" by (rule lifetime_reachable.step) (rule lifetime_step.reader_returns; use refs live done_pcs in simp)
  then have "lifetime_reachable ?L0 (?L4\<lparr>lt_session := s5\<rparr>)"
    by (rule lifetime_reachable.step) (rule lifetime_step.writer [OF _ _ wr(1)]; use refs live in simp)
  then have "lifetime_reachable ?L0 (?L4\<lparr>lt_session := s5\<rparr>\<lparr>lt_session := s6\<rparr>)"
    by (rule lifetime_reachable.step) (rule lifetime_step.writer; use refs live wr(2) in simp)
  then have "lifetime_reachable ?L0 L" unfolding last
    by (intro lifetime_reachable.step [OF _ lifetime_step.writer_returns]) (use refs live done_pcs in simp_all)
  moreover have "ts_fd (gs_socket s0) \<in> k_open ?K" using new by (auto simp: GatewaySession_new_def TcpSocket_of_def split: sum.splits)
  ultimately show thesis using that L(4-6) by blast
qed


end
