(* ===== verification/C_Library.thy ===== *)
theory C_Library
  imports ME_Prelude
begin

text \<open>
  What the programs under \<open>src/apps\<close> use of the C library: \<open>atoi\<close> and \<open>atoll\<close> on a command-line
  argument, and the decimal conversions of \<open>printf\<close>. Both parsers skip white space, take an
  optional sign and then as many digits as there are; without a digit the value is 0, and when the
  value does not fit the result type the behaviour is undefined, \<open>None\<close> here.

  The lemmas show that parsing inverts printing.
\<close>

section \<open>Parsing\<close>

definition is_space :: "char \<Rightarrow> bool" where
  "is_space c \<longleftrightarrow> of_char c = (32 :: nat) \<or> 9 \<le> (of_char c :: nat) \<and> of_char c \<le> (13 :: nat)"

definition is_digit :: "char \<Rightarrow> bool" where
  "is_digit c \<longleftrightarrow> 48 \<le> (of_char c :: nat) \<and> of_char c \<le> (57 :: nat)"

fun digits_value :: "string \<Rightarrow> int \<Rightarrow> int" where
  "digits_value [] acc = acc"
| "digits_value (c # cs) acc = (if is_digit c then digits_value cs (10 * acc + (of_char c - 48)) else acc)"

definition scan_int :: "string \<Rightarrow> int" where
  "scan_int s =
     (case dropWhile is_space s of
        [] \<Rightarrow> 0
      | c # cs \<Rightarrow>
          if c = CHR ''-'' then - digits_value cs 0
          else if c = CHR ''+'' then digits_value cs 0
          else digits_value (c # cs) 0)"

definition c_atoi :: "string \<Rightarrow> int option" where
  "c_atoi s = (let n = scan_int s in if - (2 ^ 31) \<le> n \<and> n < 2 ^ 31 then Some n else None)"

definition c_atoll :: "string \<Rightarrow> int option" where
  "c_atoll s = (let n = scan_int s in if - (2 ^ 63) \<le> n \<and> n < 2 ^ 63 then Some n else None)"

section \<open>Printing\<close>

fun dec_nat :: "nat \<Rightarrow> string" where
  "dec_nat n = (if n < 10 then [char_of (48 + n)] else dec_nat (n div 10) @ [char_of (48 + n mod 10)])"

declare dec_nat.simps [simp del]

definition dec_int :: "int \<Rightarrow> string" where
  "dec_int i = (if i < 0 then CHR ''-'' # dec_nat (nat (- i)) else dec_nat (nat i))"

text \<open>The conversions \<open>%llu\<close>, \<open>%u\<close> and \<open>%lld\<close>.\<close>

definition fmt_u :: "'a :: len word \<Rightarrow> string" where
  "fmt_u w = dec_nat (unat w)"

definition fmt_d :: "'a :: len word \<Rightarrow> string" where
  "fmt_d w = dec_int (sint w)"

section \<open>Round trip\<close>

lemma digit_char: "n < 10 \<Longrightarrow> is_digit (char_of (48 + n))" "n < 10 \<Longrightarrow> of_char (char_of (48 + n)) = (48 + int n)"
proof -
  assume n: "n < 10"
  have c: "(of_char (char_of (48 + n)) :: nat) = 48 + n" using n by simp
  then show "is_digit (char_of (48 + n))" using n by (simp add: is_digit_def)
  have "(of_char (char_of (48 + n)) :: int) = int (of_char (char_of (48 + n)) :: nat)" by (rule of_nat_of_char [symmetric])
  with c show "of_char (char_of (48 + n)) = (48 + int n)" by simp
qed

lemma digits_value_append:
  "\<forall>c \<in> set xs. is_digit c \<Longrightarrow> digits_value (xs @ ys) acc = digits_value ys (digits_value xs acc)"
  by (induction xs arbitrary: acc) auto

lemma dec_nat_digits: "\<forall>c \<in> set (dec_nat n). is_digit c"
proof (induction n rule: dec_nat.induct)
  case (1 n)
  then show ?case using digit_char(1) [of n] digit_char(1) [of "n mod 10"] by (auto simp: dec_nat.simps [of n])
qed

lemma dec_nat_value: "digits_value (dec_nat n) 0 = int n"
proof (induction n rule: dec_nat.induct)
  case (1 n)
  show ?case
  proof (cases "n < 10")
    case True
    with digit_char [OF True] show ?thesis by (simp add: dec_nat.simps [of n])
  next
    case False
    have "int n = 10 * int (n div 10) + int (n mod 10)" by (simp add: zdiv_int zmod_int)
    with False 1 digit_char [of "n mod 10"] digits_value_append [OF dec_nat_digits, of "n div 10"] show ?thesis
      by (simp add: dec_nat.simps [of n])
  qed
qed

lemma dec_nat_nonempty: "dec_nat n \<noteq> []"
  by (subst dec_nat.simps) simp

lemma digit_not_special: "is_digit c \<Longrightarrow> \<not> is_space c \<and> c \<noteq> CHR ''-'' \<and> c \<noteq> CHR ''+''"
  by (auto simp: is_digit_def is_space_def)

lemma scan_dec_nat: "scan_int (dec_nat n) = int n"
proof -
  obtain c cs where c: "dec_nat n = c # cs" using dec_nat_nonempty [of n] by (cases "dec_nat n") auto
  then have "is_digit c" using dec_nat_digits [of n] by simp
  from digit_not_special [OF this] c dec_nat_value [of n] show ?thesis by (simp add: scan_int_def)
qed

lemma scan_dec_int: "scan_int (dec_int i) = i"
proof (cases "i < 0")
  case True
  then show ?thesis by (simp add: dec_int_def scan_int_def is_space_def dec_nat_value)
next
  case False
  then show ?thesis by (simp add: dec_int_def scan_dec_nat)
qed

lemma atoi_dec: "- (2 ^ 31) \<le> i \<Longrightarrow> i < 2 ^ 31 \<Longrightarrow> c_atoi (dec_int i) = Some i"
  by (simp add: c_atoi_def scan_dec_int)

lemma atoll_dec: "- (2 ^ 63) \<le> i \<Longrightarrow> i < 2 ^ 63 \<Longrightarrow> c_atoll (dec_int i) = Some i"
  by (simp add: c_atoll_def scan_dec_int)

end
