(* ===== verification/Send_Order.thy ===== *)
theory Send_Order
  imports C_Library Gateway_Session
begin

text \<open>
  \<open>src/apps/send_order.cpp\<close>: the command-line client. It parses an order from its arguments, sends
  it in one frame and prints the execution reports that arrive until the server has been quiet for
  a while. The answers of the system to \<open>socket\<close>, \<open>connect\<close>, \<open>send\<close> and \<open>recv\<close> are arguments.

  The lemmas show that the order typed is the order the server's session hands to its engine, and
  that what is printed are the reports the server sent.
\<close>

section \<open>Arguments\<close>

definition nl :: string where
  "nl = [CHR 0x0A]"

definition usage_text :: "string \<Rightarrow> string" where
  "usage_text prog = ''usage: '' @ prog @ '' <port> <symbol_id> <buy|sell> <price> <quantity> [order_id]'' @ nl"

text \<open>The conversions of the arguments (at least five after the program's name); \<open>None\<close> when one of them is undefined.\<close>

definition parse_args :: "string list \<Rightarrow> (16 word \<times> new_order_command) option" where
  "parse_args argv =
     do {
       port \<leftarrow> c_atoi (argv ! 1);
       symb \<leftarrow> c_atoi (argv ! 2);
       price \<leftarrow> c_atoll (argv ! 4);
       qty \<leftarrow> c_atoll (argv ! 5);
       order_id \<leftarrow> (if length argv > 6 then map_option word_of_int (c_atoll (argv ! 6)) else Some 1);
       Some (word_of_int port,
         \<lparr>nc_order_id = order_id, nc_trader_id = 1, nc_symbol_id = word_of_int symb,
          nc_side = (if argv ! 3 = ''buy'' then Buy else Sell), nc_type = Limit,
          nc_price = Price (word_of_int price), nc_quantity = word_of_int qty,
          nc_time_in_force = GoodTillCancel, nc_timestamp = 0\<rparr>)
     }"

section \<open>Reports\<close>

fun print_event :: "event \<Rightarrow> string" where
  "print_event (AcceptedEvent e) =
     ''Accepted: order='' @ fmt_u (ae_order_id e) @ '' filled='' @ fmt_u (ae_filled_quantity e) @
     '' remaining='' @ fmt_u (ae_remaining_quantity e) @ '' status='' @ to_string_status (ae_status e) @ nl"
| "print_event (TradeEvent t) =
     ''Trade: price='' @ fmt_d (ticks (t_price t)) @ '' qty='' @ fmt_u (t_quantity t) @
     '' resting_order='' @ fmt_u (t_resting_order_id t) @ nl"
| "print_event (BookUpdateEvent e) =
     ''BookUpdate: side='' @ to_string_side (be_side e) @ '' price='' @ fmt_d (ticks (be_price e)) @
     '' qty='' @ fmt_u (be_aggregate_quantity e) @ nl"
| "print_event (RejectedEvent e) = ''Rejected: reason='' @ to_string_reason (re_reason e) @ nl"
| "print_event (CancelledEvent e) = []"
| "print_event (ModifiedEvent e) = []"

definition print_body :: "bytes \<Rightarrow> string" where
  "print_body body = (case DecodeEvent body of None \<Rightarrow> [] | Some ev \<Rightarrow> print_event ev)"

text \<open>
  The receiving loop. It ends with the first \<open>recv\<close> that answers no bytes; after a frame length
  out of bounds it goes on reading. When the answers end, \<open>recv\<close> runs into its timeout.
\<close>

fun client_receive :: "bytes option list \<Rightarrow> tcp_socket \<Rightarrow> frame_decoder \<Rightarrow> string" where
  "client_receive [] s d = []"
| "client_receive (answer # answers) s d =
     (case socket_Recv answer s of
        (n, buf) \<Rightarrow>
          if n \<le> 0 then []
          else
            (case fd_drain (fd_Feed (take (nat n) buf) d) of
               (bodies, err, d') \<Rightarrow> concat (map print_body bodies) @ client_receive answers s d'))"

section \<open>main\<close>

record client_env =
  ce_socket :: int
  ce_connect :: "16 word \<Rightarrow> int"
  ce_send :: "int list"
  ce_recv :: "bytes option list"

text \<open>The exit code (\<open>None\<close> while \<open>SendAll\<close> is blocked), the output and what was sent.\<close>

record client_out =
  co_exit :: "int option"
  co_stdout :: string
  co_stderr :: string
  co_wire :: bytes

definition sent_line :: "new_order_command \<Rightarrow> string \<Rightarrow> string" where
  "sent_line c side_arg =
     ''sent NewOrder id='' @ fmt_u (nc_order_id c) @ '' symbol='' @ fmt_u (nc_symbol_id c) @ '' side='' @ side_arg @
     '' price='' @ fmt_d (ticks (nc_price c)) @ '' qty='' @ fmt_u (nc_quantity c) @ nl"

definition send_order_main :: "client_env \<Rightarrow> string list \<Rightarrow> kernel \<Rightarrow> (client_out \<times> kernel) option" where
  "send_order_main env argv K =
     (if length argv < 6 then
        Some (\<lparr>co_exit = Some 1, co_stdout = [], co_stderr = usage_text (argv ! 0), co_wire = []\<rparr>, K)
      else
        do {
          (port, c) \<leftarrow> parse_args argv;
          (sock, K1) \<leftarrow> ConnectLoopback (ce_socket env) (ce_connect env) port K;
          if \<not> socket_valid sock then
            Some (\<lparr>co_exit = Some 1, co_stdout = [],
                   co_stderr = ''failed to connect to 127.0.0.1:'' @ fmt_u port @ nl, co_wire = []\<rparr>, K1)
          else
            let frame = FrameMessage (EncodeCommand (NewOrderCommand c)) in
            (case socket_SendAll (ce_send env) frame sock [] of
               (SendBlocked, wire) \<Rightarrow> Some (\<lparr>co_exit = None, co_stdout = [], co_stderr = [], co_wire = wire\<rparr>, K1)
             | (SendFailed, wire) \<Rightarrow>
                 do {
                   (sock', K2) \<leftarrow> socket_Close sock K1;
                   Some (\<lparr>co_exit = Some 1, co_stdout = [], co_stderr = ''send failed'' @ nl, co_wire = wire\<rparr>, K2)
                 }
             | (AllSent, wire) \<Rightarrow>
                 let K2 = socket_SetRecvTimeout 300 sock K1;
                     reports = client_receive (ce_recv env) sock fd_new in
                 do {
                   (sock', K3) \<leftarrow> socket_Close sock K2;
                   Some (\<lparr>co_exit = Some 0, co_stdout = sent_line c (argv ! 3) @ reports, co_stderr = [], co_wire = wire\<rparr>, K3)
                 })
        })"

section \<open>Lemmas\<close>

lemma client_receive_drains:
  assumes "fd_receive chunks d = (bodies, False, d')" "0 \<le> ts_fd s" "\<forall>c \<in> set chunks. c \<noteq> [] \<and> length c < 2 ^ 31"
  shows "client_receive (map Some chunks) s d = concat (map print_body bodies)"
  using assms
proof (induction chunks arbitrary: d bodies)
  case (Cons c cs)
  obtain bs e d1 where dr: "fd_drain (fd_Feed c d) = (bs, e, d1)" by (metis prod_cases3)
  with Cons.prems(1) obtain bs' where r: "\<not> e" "fd_receive cs d1 = (bs', False, d')" "bodies = bs @ bs'"
    by (auto split: if_splits prod.splits)
  have len: "length c < 2 ^ 31" "c \<noteq> []" using Cons.prems(3) by simp_all
  have "sint (word_of_nat (length c) :: u32) = int (length c)"
    using len(1) by (simp add: signed_of_nat signed_take_bit_eq_if_positive signed_take_bit_int_eq_self)
  with len(2) Cons.prems(2) have "socket_Recv (Some c) s = (int (length c), c)" "0 < length c" by (simp_all add: socket_Recv_def)
  with Cons.IH [OF r(2)] Cons.prems(2,3) r(3) dr show ?case by simp
qed simp

lemma print_body_event [simp]: "print_body (EncodeEvent ev) = print_event ev"
  using decode_encode_event [of ev "[]"] by (simp add: print_body_def)

text \<open>A run that ends with exit code 0.\<close>

lemma send_order_success:
  assumes "send_order_main env argv K = Some (out, K')" "co_exit out = Some 0"
  obtains port c where "parse_args argv = Some (port, c)" "0 \<le> ce_socket env"
    "co_wire out = record_of (NewOrderCommand c)"
    "co_stdout out = sent_line c (argv ! 3) @ client_receive (ce_recv env) (TcpSocket_of (ce_socket env)) fd_new"
proof -
  from assms obtain port c sock K1 where p: "parse_args argv = Some (port, c)"
    and k: "ConnectLoopback (ce_socket env) (ce_connect env) port K = Some (sock, K1)" "socket_valid sock"
    by (auto simp: send_order_main_def bind_eq_Some_conv split: if_splits)
  then have sock: "sock = TcpSocket_of (ce_socket env)" "0 \<le> ce_socket env"
    by (auto simp: ConnectLoopback_def Let_def kernel_simps socket_valid_def split: if_splits)
  obtain r wire where s: "socket_SendAll (ce_send env) (record_of (NewOrderCommand c)) sock [] = (r, wire)" by fastforce
  with assms p k have r: "r = AllSent" "co_wire out = wire"
    "co_stdout out = sent_line c (argv ! 3) @ client_receive (ce_recv env) sock fd_new"
    by (auto simp: send_order_main_def record_of_def Let_def bind_eq_Some_conv split: if_splits send_result.splits)
  from send_loop_wire [of "ts_fd sock" "record_of (NewOrderCommand c)" 0 "ce_send env" "[]" r wire] s r(1)
  have "wire = record_of (NewOrderCommand c)" by (auto simp: socket_SendAll_def)
  with that p sock r show thesis by simp
qed

text \<open>The arguments of a user who types the numbers in decimal.\<close>

definition typed_args :: "string \<Rightarrow> int \<Rightarrow> int \<Rightarrow> string \<Rightarrow> int \<Rightarrow> int \<Rightarrow> int \<Rightarrow> string list" where
  "typed_args prog port symb side_arg price qty oid =
     [prog, dec_int port, dec_int symb, side_arg, dec_int price, dec_int qty, dec_int oid]"

definition typed_order :: "int \<Rightarrow> string \<Rightarrow> int \<Rightarrow> int \<Rightarrow> int \<Rightarrow> new_order_command" where
  "typed_order symb side_arg price qty oid =
     \<lparr>nc_order_id = word_of_int oid, nc_trader_id = 1, nc_symbol_id = word_of_int symb,
      nc_side = (if side_arg = ''buy'' then Buy else Sell), nc_type = Limit, nc_price = Price (word_of_int price),
      nc_quantity = word_of_int qty, nc_time_in_force = GoodTillCancel, nc_timestamp = 0\<rparr>"

lemma parse_typed_args:
  assumes "0 \<le> port" "port < 2 ^ 16" "0 \<le> symb" "symb < 2 ^ 31" "- (2 ^ 63) \<le> price" "price < 2 ^ 63"
    "0 \<le> qty" "qty < 2 ^ 63" "0 \<le> oid" "oid < 2 ^ 63"
  shows "parse_args (typed_args prog port symb side_arg price qty oid) = Some (word_of_int port, typed_order symb side_arg price qty oid)"
  using assms by (simp add: parse_args_def typed_args_def typed_order_def atoi_dec atoll_dec)

lemma typed_order_values:
  assumes "0 \<le> symb" "symb < 2 ^ 31" "- (2 ^ 63) \<le> price" "price < 2 ^ 63" "0 \<le> qty" "qty < 2 ^ 63" "0 \<le> oid" "oid < 2 ^ 63"
  shows "uint (nc_symbol_id (typed_order symb side_arg price qty oid)) = symb"
    "sint (ticks (nc_price (typed_order symb side_arg price qty oid))) = price"
    "uint (nc_quantity (typed_order symb side_arg price qty oid)) = qty"
    "uint (nc_order_id (typed_order symb side_arg price qty oid)) = oid"
  using assms
  by (simp_all add: typed_order_def unsigned_of_int signed_of_int take_bit_int_eq_self signed_take_bit_int_eq_self)

section \<open>Properties\<close>

text \<open>
  C40. The order that is typed is the order that is processed. When the client, called with decimal
  numbers in range, ends with exit code 0, a session that has received what it sent and waits for
  more has handed exactly one command to the engine: a new good-till-cancel limit order with the
  typed symbol, price, quantity and id, a buy exactly when the side argument is \<open>buy\<close>.
\<close>

theorem typed_order_arrives:
  assumes "0 \<le> port" "port < 2 ^ 16" "0 \<le> symb" "symb < 2 ^ 31" "- (2 ^ 63) \<le> price" "price < 2 ^ 63"
    and "0 \<le> qty" "qty < 2 ^ 63" "0 \<le> oid" "oid < 2 ^ 63"
    and "send_order_main env (typed_args prog port symb side_arg price qty oid) K = Some (out, K')" "co_exit out = Some 0"
    and "GatewaySession_new d sock sid ci co = Inr s0" "session_reachable s0 s" "gs_received s = co_wire out" "gs_reader s = RReceive"
  shows "\<exists>c. gs_popped s @ spsc_contents (gs_inbound s) = [NewOrderCommand c] \<and>
    uint (nc_symbol_id c) = symb \<and> sint (ticks (nc_price c)) = price \<and> uint (nc_quantity c) = qty \<and> uint (nc_order_id c) = oid \<and>
    nc_side c = (if side_arg = ''buy'' then Buy else Sell) \<and> nc_type c = Limit \<and> nc_time_in_force c = GoodTillCancel"
proof -
  let ?c = "typed_order symb side_arg price qty oid"
  have wire: "co_wire out = record_of (NewOrderCommand ?c)"
    by (rule send_order_success [OF assms(11,12)]) (use parse_typed_args [OF assms(1-10)] in simp)
  then have "gs_received s = take (length (record_of (NewOrderCommand ?c))) (journal_of [NewOrderCommand ?c])"
    using assms(15) by (simp add: journal_of_def)
  then have "commands_of (fst (parse_frames (gs_received s))) = [NewOrderCommand ?c]"
    using commands_received [of "length (record_of (NewOrderCommand ?c))" "[NewOrderCommand ?c]"] by simp
  moreover have "reader_inv s" using session_reachable_inv [OF assms(13,14)] by simp
  ultimately have "gs_popped s @ spsc_contents (gs_inbound s) = [NewOrderCommand ?c]"
    using session_handed_over [of s] assms(16) by (metis append_Nil2)
  then show ?thesis
    using typed_order_values [OF assms(3-10), of side_arg] by (intro exI [of _ ?c]) (simp add: typed_order_def)
qed

definition ex_env :: "bytes option list \<Rightarrow> client_env" where
  "ex_env answers = \<lparr>ce_socket = 3, ce_connect = \<lambda>_. 0, ce_send = [200], ce_recv = answers\<rparr>"

abbreviation ex_argv :: "string list" where
  "ex_argv \<equiv> typed_args ''send_order'' 9000 3 ''buy'' 100 5 7"

abbreviation ex_kernel :: kernel where
  "ex_kernel \<equiv> \<lparr>k_open = {0, 1, 2}, k_options = []\<rparr>"

definition ex_order :: new_order_command where
  "ex_order = typed_order 3 ''buy'' 100 5 7"

lemma send_in_one_call:
  "buf \<noteq> [] \<Longrightarrow> length buf \<le> 200 \<Longrightarrow> socket_SendAll [200] buf \<lparr>ts_fd = 3\<rparr> [] = (AllSent, buf)"
  by (simp add: socket_SendAll_def send_loop.simps [of 3 buf 0] send_loop.simps [of 3 buf 200] os_answer_def os_send_def send_step_def)

lemma ex_client_runs:
  obtains out K' where "send_order_main (ex_env answers) ex_argv ex_kernel = Some (out, K')" "co_exit out = Some 0"
    "co_wire out = record_of (NewOrderCommand ex_order)"
proof -
  have "parse_args ex_argv = Some (word_of_int 9000, ex_order)" unfolding ex_order_def by (rule parse_typed_args) simp_all
  moreover have "length ex_argv = 7" by (simp add: typed_args_def)
  moreover have "record_of (NewOrderCommand ex_order) \<noteq> []" "length (record_of (NewOrderCommand ex_order)) \<le> 200"
    using command_fits [of "NewOrderCommand ex_order"] by (simp_all add: record_of_def FrameMessage_bytes le_bytes_def)
  ultimately show thesis
    using that
    by (simp add: send_order_main_def record_of_def ex_env_def ConnectLoopback_def kernel_simps socket_valid_def
        send_in_one_call socket_Close_def socket_SetRecvTimeout_def)
qed

definition ex_order_session :: "(session \<times> session) option" where
  "ex_order_session =
     (case GatewaySession_new ex_cancel (TcpSocket_of 5) 1 2 2 of
        Inl err \<Rightarrow> None
      | Inr s0 \<Rightarrow>
          do {
            s1 \<leftarrow> ReaderLoop_step (Some (record_of (NewOrderCommand ex_order))) (session_Start s0);
            s2 \<leftarrow> ReaderLoop_step None s1;
            s3 \<leftarrow> ReaderLoop_step None s2;
            s4 \<leftarrow> ReaderLoop_step None s3;
            Some (s0, s4)
          })"

theorem typed_order_arrives_witness:
  "\<exists>out K' s0 s c. send_order_main (ex_env []) ex_argv ex_kernel = Some (out, K') \<and> co_exit out = Some 0 \<and>
     GatewaySession_new ex_cancel (TcpSocket_of 5) 1 2 2 = Inr s0 \<and> session_reachable s0 s \<and> gs_received s = co_wire out \<and>
     gs_popped s @ spsc_contents (gs_inbound s) = [NewOrderCommand c] \<and> sint (ticks (nc_price c)) = 100 \<and> nc_side c = Buy"
proof (rule ex_client_runs)
  fix out K'
  assume run: "send_order_main (ex_env []) ex_argv ex_kernel = Some (out, K')" "co_exit out = Some 0"
    "co_wire out = record_of (NewOrderCommand ex_order)"
  have "map_option (\<lambda>(s0, s). (gs_reader s, gs_received s)) ex_order_session = Some (RReceive, record_of (NewOrderCommand ex_order))"
    by code_simp
  then obtain s0 s where v: "ex_order_session = Some (s0, s)" "gs_received s = co_wire out" "gs_reader s = RReceive"
    using run(3) by auto
  then obtain s1 s2 s3 where new: "GatewaySession_new ex_cancel (TcpSocket_of 5) 1 2 2 = Inr s0"
    and steps: "ReaderLoop_step (Some (record_of (NewOrderCommand ex_order))) (session_Start s0) = Some s1"
      "ReaderLoop_step None s1 = Some s2" "ReaderLoop_step None s2 = Some s3" "ReaderLoop_step None s3 = Some s"
    by (auto simp: ex_order_session_def bind_eq_Some_conv split: sum.splits)
  from steps have reach: "session_reachable s0 s" by (meson session_reachable.reader session_reachable.start)
  from typed_order_arrives [OF _ _ _ _ _ _ _ _ _ _ run(1,2) new reach v(2,3)] obtain c where
    "gs_popped s @ spsc_contents (gs_inbound s) = [NewOrderCommand c]" "sint (ticks (nc_price c)) = 100" "nc_side c = Buy" by auto
  with run(1,2) v(2) new reach show ?thesis by blast
qed

text \<open>
  The reports that are printed are those that were sent: when what \<open>recv\<close> returns, in whatever
  pieces, are the frames of a list of events and perhaps the beginning of another frame, the
  client prints its own order and then a line for every acknowledgement, trade, book update and
  rejection among them, in order.
\<close>

lemma reports_printed:
  assumes "send_order_main env argv K = Some (out, K')" "co_exit out = Some 0" "ce_recv env = map Some chunks"
    and "\<forall>chunk \<in> set chunks. chunk \<noteq> [] \<and> length chunk < 2 ^ 31"
    and "concat chunks = concat (map (\<lambda>ev. FrameMessage (EncodeEvent ev)) evs) @ part" "length part < kLengthPrefixBytes"
  shows "\<exists>c. co_stdout out = sent_line c (argv ! 3) @ concat (map print_event evs) \<and> co_wire out = record_of (NewOrderCommand c)"
proof -
  obtain port c where c: "0 \<le> ce_socket env" "co_wire out = record_of (NewOrderCommand c)"
    "co_stdout out = sent_line c (argv ! 3) @ client_receive (map Some chunks) (TcpSocket_of (ce_socket env)) fd_new"
    by (rule send_order_success [OF assms(1,2)]) (use assms(3) in simp)
  let ?bodies = "map EncodeEvent evs"
  have empty: "parse_frames [] = ([], False, [])" by (simp add: parse_frames.simps [of "[]"] next_frame_def)
  have "parse_frames part = ([], False, part)"
    using assms(6) by (simp add: parse_frames.simps [of part] next_frame_def kLengthPrefixBytes_def)
  with parse_frames_messages [of ?bodies part] assms(5) event_frame_fits
  have parse: "parse_frames (concat chunks) = (?bodies, False, part)" by (simp add: o_def)
  obtain bs err d where "fd_receive chunks fd_new = (bs, err, d)" by (metis prod_cases3)
  with fd_receive_refines [of fd_new chunks bs err d] parse empty have "fd_receive chunks fd_new = (?bodies, False, d)" by simp
  from client_receive_drains [OF this _ assms(4)] c(1)
  have "client_receive (map Some chunks) (TcpSocket_of (ce_socket env)) fd_new = concat (map print_event evs)"
    by (simp add: TcpSocket_of_def o_def)
  with c show ?thesis by auto
qed

definition ex_trade :: event where
  "ex_trade = TradeEvent \<lparr>t_sequence_number = 1, t_timestamp = 0, t_symbol_id = 3, t_aggressor_order_id = 7, t_resting_order_id = 2,
     t_aggressor_trader_id = 1, t_resting_trader_id = 1, t_aggressor_side = Buy, t_price = Price 99, t_quantity = 5\<rparr>"

lemma reports_printed_witness:
  "\<exists>out K' c. send_order_main (ex_env [Some (FrameMessage (EncodeEvent ex_trade))]) ex_argv ex_kernel = Some (out, K') \<and>
     co_stdout out = sent_line c ''buy'' @ ''Trade: price=99 qty=5 resting_order=2'' @ nl"
proof (rule ex_client_runs)
  let ?chunk = "FrameMessage (EncodeEvent ex_trade)"
  fix out K'
  assume v: "send_order_main (ex_env [Some ?chunk]) ex_argv ex_kernel = Some (out, K')" "co_exit out = Some 0"
  have "?chunk \<noteq> []" "length ?chunk < 2 ^ 31" using event_frame_fits [of ex_trade] by (simp_all add: FrameMessage_bytes le_bytes_def)
  with reports_printed [OF v, of "[?chunk]" "[ex_trade]" "[]"] obtain c where
    "co_stdout out = sent_line c (ex_argv ! 3) @ print_event ex_trade" by (auto simp: ex_env_def kLengthPrefixBytes_def)
  moreover have "print_event ex_trade = ''Trade: price=99 qty=5 resting_order=2'' @ nl" by code_simp
  moreover have "ex_argv ! 3 = ''buy''" by (simp add: typed_args_def)
  ultimately show ?thesis using v(1) by auto
qed

end
