(* ===== verification/Tcp_Gateway.thy ===== *)
theory Tcp_Gateway
  imports Gateway_Session
begin

text \<open>
  \<open>include/matching_engine/net/tcp_gateway.hpp\<close>: the accept thread, which makes a session of every
  connection, starts it and hands it to a callback. One iteration of \<open>AcceptLoop\<close> is one step; the
  session it hands over is its result. What \<open>accept\<close> answers is an argument. An iteration is taken
  when \<open>accept\<close> has returned; that closing the listener makes a pending \<open>accept\<close> return is what
  \<open>Stop\<close> relies on and is left to the system.
\<close>

datatype accept_pc = ANew | ALoop | ADone

record tcp_gateway =
  tg_listener :: tcp_listener
  tg_stopped :: bool
  tg_next_session_id :: u64
  tg_pc :: accept_pc

definition TcpGateway_new ::
  "listener_answers \<Rightarrow> 16 word \<Rightarrow> kernel \<Rightarrow> ((listener_error + tcp_gateway) \<times> kernel) option" where
  "TcpGateway_new ans port K =
     do {
       (res, K') \<leftarrow> TcpListener_new ans port 16 K;
       Some (case res of
               Inl err \<Rightarrow> Inl err
             | Inr l \<Rightarrow> Inr \<lparr>tg_listener = l, tg_stopped = False, tg_next_session_id = 1, tg_pc = ANew\<rparr>, K')
     }"

definition gateway_Start :: "tcp_gateway \<Rightarrow> tcp_gateway" where
  "gateway_Start g = g\<lparr>tg_pc := ALoop\<rparr>"

definition gateway_port :: "tcp_gateway \<Rightarrow> 16 word" where
  "gateway_port g = tl_port (tg_listener g)"

text \<open>
  The two effects of \<open>Stop\<close>, of which a second call has none; the join that follows waits until the
  accept thread has returned.
\<close>

definition gateway_Stop_flag :: "tcp_gateway \<Rightarrow> bool \<times> tcp_gateway" where
  "gateway_Stop_flag g = (tg_stopped g, g\<lparr>tg_stopped := True\<rparr>)"

definition gateway_Stop_close :: "tcp_gateway \<Rightarrow> kernel \<Rightarrow> (tcp_gateway \<times> kernel) option" where
  "gateway_Stop_close g K = do { (l, K') \<leftarrow> listener_Close (tg_listener g) K; Some (g\<lparr>tg_listener := l\<rparr>, K') }"

text \<open>
  An iteration of \<open>AcceptLoop\<close>. The default capacities of the queues are 4096; \<open>d\<close> is the default
  command that fills a new queue. A constructor that throws ends the process (\<open>None\<close>).
\<close>

definition AcceptLoop_step ::
  "command \<Rightarrow> int \<Rightarrow> tcp_gateway \<Rightarrow> kernel \<Rightarrow> (session option \<times> tcp_gateway \<times> kernel) option" where
  "AcceptLoop_step d answer g K =
     (case tg_pc g of
        ANew \<Rightarrow> Some (None, g, K)
      | ALoop \<Rightarrow>
          if tg_stopped g then Some (None, g\<lparr>tg_pc := ADone\<rparr>, K)
          else
            (case listener_Accept answer (tg_listener g) K of
               (sock, K1) \<Rightarrow>
                 if \<not> socket_valid sock then Some (None, g\<lparr>tg_pc := ADone\<rparr>, K1)
                 else
                   (case GatewaySession_new d sock (tg_next_session_id g) 4096 4096 of
                      Inl err \<Rightarrow> None
                    | Inr s \<Rightarrow>
                        Some (Some (session_Start s), g\<lparr>tg_next_session_id := tg_next_session_id g + 1\<rparr>, K1)))
      | ADone \<Rightarrow> Some (None, g, K))"

lemma session_capacities: "\<exists>s. GatewaySession_new d sock sid 4096 4096 = Inr s"
  by (simp add: GatewaySession_new_def spsc_new_def)

text \<open>The accept thread never throws, and what it hands over is a started session with the next id.\<close>

lemma AcceptLoop_defined: "AcceptLoop_step d answer g K \<noteq> None"
proof -
  obtain sock K1 where "listener_Accept answer (tg_listener g) K = (sock, K1)" by fastforce
  with session_capacities [of d sock "tg_next_session_id g"] show ?thesis
    by (auto simp: AcceptLoop_step_def split: accept_pc.split)
qed

lemma AcceptLoop_hands_over:
  assumes "AcceptLoop_step d answer g K = Some (Some s, g', K')"
  obtains s0 where "GatewaySession_new d \<lparr>ts_fd = answer\<rparr> (tg_next_session_id g) 4096 4096 = Inr s0" "s = session_Start s0"
    "tg_next_session_id g' = tg_next_session_id g + 1" "0 \<le> answer" "\<not> tg_stopped g"
  using assms
  by (auto simp: AcceptLoop_step_def listener_Accept_def Let_def kernel_simps socket_valid_def
      split: accept_pc.splits if_splits sum.splits)

lemma AcceptLoop_stops: "tg_stopped g \<Longrightarrow> tg_pc g = ALoop \<Longrightarrow> AcceptLoop_step d answer g K = Some (None, g\<lparr>tg_pc := ADone\<rparr>, K)"
  by (simp add: AcceptLoop_step_def)

end
