(* ===== verification/Partitioned_Engine.thy ===== *)
theory Partitioned_Engine
  imports Engine_Properties
begin

text \<open>
  \<open>SymbolRouter\<close> (\<open>include/matching_engine/symbol_router.hpp\<close>) and \<open>PartitionedEngine\<close>
  (\<open>include/matching_engine/partitioned_engine.hpp\<close>): the partitions of the system and the
  routing of commands to them. The division by zero of a router without partitions and an
  index past the last partition are undefined in C++ and \<open>None\<close> here.

  The lemmas show that a symbol pinned before its first registration has one owner, which is the
  partition commands are routed to, and that the partitions do not influence each other: each
  one sees exactly the commands of its symbols, in their order, whatever the other partitions
  do in between.
\<close>

section \<open>Routing\<close>

record symbol_router =
  sr_partition_count :: nat
  sr_overrides :: "(symbol_id, nat) unordered_map"

definition router_new :: "nat \<Rightarrow> symbol_router" where
  "router_new partition_count = \<lparr>sr_partition_count = partition_count, sr_overrides = []\<rparr>"

definition router_Pin :: "symbol_id \<Rightarrow> nat \<Rightarrow> symbol_router \<Rightarrow> symbol_router" where
  "router_Pin symb part r = r\<lparr>sr_overrides := AList.update symb part (sr_overrides r)\<rparr>"

definition router_PartitionFor :: "symbol_id \<Rightarrow> symbol_router \<Rightarrow> nat option" where
  "router_PartitionFor symb r =
     (case map_of (sr_overrides r) symb of
        Some p \<Rightarrow> Some p
      | None \<Rightarrow> if sr_partition_count r = 0 then None else Some (unat symb mod sr_partition_count r))"

section \<open>The partitions\<close>

record partitioned_engine =
  pe_router :: symbol_router
  pe_partitions :: "engine list"

definition partitioned_new :: "nat \<Rightarrow> partitioned_engine" where
  "partitioned_new partition_count =
     \<lparr>pe_router = router_new partition_count, pe_partitions = map engine_new [0..<partition_count]\<rparr>"

text \<open>\<open>*partitions_[index]\<close> and an update through the reference.\<close>

definition partitioned_Partition :: "nat \<Rightarrow> partitioned_engine \<Rightarrow> engine option" where
  "partitioned_Partition i pe = (if i < length (pe_partitions pe) then Some (pe_partitions pe ! i) else None)"

definition partitioned_PartitionCount :: "partitioned_engine \<Rightarrow> nat" where
  "partitioned_PartitionCount pe = length (pe_partitions pe)"

definition partitioned_set :: "nat \<Rightarrow> engine \<Rightarrow> partitioned_engine \<Rightarrow> partitioned_engine" where
  "partitioned_set i e pe = pe\<lparr>pe_partitions := (pe_partitions pe)[i := e]\<rparr>"

definition partitioned_RegisterSymbol :: "symbol_id \<Rightarrow> partitioned_engine \<Rightarrow> partitioned_engine option" where
  "partitioned_RegisterSymbol symb pe =
     do {
       p \<leftarrow> router_PartitionFor symb (pe_router pe);
       e \<leftarrow> partitioned_Partition p pe;
       Some (partitioned_set p (engine_RegisterSymbol symb e) pe)
     }"

definition partitioned_RegisterSymbolOnPartition ::
  "symbol_id \<Rightarrow> nat \<Rightarrow> partitioned_engine \<Rightarrow> partitioned_engine option" where
  "partitioned_RegisterSymbolOnPartition symb part pe =
     (let pe1 = pe\<lparr>pe_router := router_Pin symb part (pe_router pe)\<rparr> in
      do {
        e \<leftarrow> partitioned_Partition part pe1;
        Some (partitioned_set part (engine_RegisterSymbol symb e) pe1)
      })"

definition partitioned_Dispatch ::
  "command \<Rightarrow> partitioned_engine \<Rightarrow> event list \<Rightarrow> (sequence_number \<times> event list \<times> partitioned_engine) option" where
  "partitioned_Dispatch cmd pe out_events =
     do {
       p \<leftarrow> router_PartitionFor (SymbolOf cmd) (pe_router pe);
       e \<leftarrow> partitioned_Partition p pe;
       (seq, out', e') \<leftarrow> engine_Process cmd e out_events;
       Some (seq, out', partitioned_set p e' pe)
     }"

section \<open>Ownership\<close>

definition pe_owner :: "partitioned_engine \<Rightarrow> symbol_id \<Rightarrow> nat \<Rightarrow> bool" where
  "pe_owner pe symb i \<longleftrightarrow> i < length (pe_partitions pe) \<and> engine_OwnsSymbol symb (pe_partitions pe ! i)"

text \<open>
  The systems that calls of the public operations lead to, from at least one partition. As the
  comment on \<open>Pin\<close> requires, a symbol is pinned before it is registered anywhere.
\<close>

inductive partitioned_reachable :: "nat \<Rightarrow> partitioned_engine \<Rightarrow> bool" where
  start: "0 < n \<Longrightarrow> partitioned_reachable n (partitioned_new n)"
| register: "partitioned_reachable n pe \<Longrightarrow> partitioned_RegisterSymbol symb pe = Some pe' \<Longrightarrow>
    partitioned_reachable n pe'"
| pin: "partitioned_reachable n pe \<Longrightarrow> part < n \<Longrightarrow> (\<forall>i. \<not> pe_owner pe symb i) \<Longrightarrow>
    partitioned_RegisterSymbolOnPartition symb part pe = Some pe' \<Longrightarrow> partitioned_reachable n pe'"
| dispatch: "partitioned_reachable n pe \<Longrightarrow> partitioned_Dispatch cmd pe out = Some (seq, out', pe') \<Longrightarrow>
    partitioned_reachable n pe'"

definition router_ok :: "nat \<Rightarrow> symbol_router \<Rightarrow> bool" where
  "router_ok n r \<longleftrightarrow> 0 < n \<and> sr_partition_count r = n \<and> (\<forall>symb p. map_of (sr_overrides r) symb = Some p \<longrightarrow> p < n)"

definition partitioned_inv :: "nat \<Rightarrow> partitioned_engine \<Rightarrow> bool" where
  "partitioned_inv n pe \<longleftrightarrow>
     router_ok n (pe_router pe) \<and> length (pe_partitions pe) = n \<and>
     (\<forall>i < n. engine_inv (pe_partitions pe ! i) \<and> en_partition_index (pe_partitions pe ! i) = i) \<and>
     (\<forall>symb i. pe_owner pe symb i \<longrightarrow> router_PartitionFor symb (pe_router pe) = Some i)"

lemma router_routes:
  assumes "router_ok n r"
  obtains p where "router_PartitionFor symb r = Some p" "p < n"
  using assms by (cases "map_of (sr_overrides r) symb") (auto simp: router_ok_def router_PartitionFor_def)

lemma router_Pin_routes:
  "router_PartitionFor s (router_Pin symb p r) = (if s = symb then Some p else router_PartitionFor s r)"
  by (simp add: router_PartitionFor_def router_Pin_def update_conv' split: option.split)

lemma router_ok_Pin: "router_ok n r \<Longrightarrow> p < n \<Longrightarrow> router_ok n (router_Pin symb p r)"
  by (simp add: router_ok_def router_Pin_def update_conv')

lemma partitioned_set_simps [simp]:
  "pe_router (partitioned_set i e pe) = pe_router pe"
  "length (pe_partitions (partitioned_set i e pe)) = length (pe_partitions pe)"
  by (simp_all add: partitioned_set_def)

lemma partitioned_set_nth:
  "i < length (pe_partitions pe) \<Longrightarrow>
   pe_partitions (partitioned_set i e pe) ! j = (if j = i then e else pe_partitions pe ! j)"
  by (simp add: partitioned_set_def nth_list_update)

text \<open>Replacing one partition by an engine that owns no symbol routed elsewhere.\<close>

lemma partitioned_inv_set:
  assumes inv: "partitioned_inv n pe" and i: "i < n" and e: "engine_inv e" "en_partition_index e = i"
    and own: "\<And>symb. engine_OwnsSymbol symb e \<Longrightarrow> router_PartitionFor symb (pe_router pe) = Some i"
  shows "partitioned_inv n (partitioned_set i e pe)"
  using assms by (auto simp: partitioned_inv_def partitioned_set_nth pe_owner_def split: if_splits)

lemma engine_Owns_register: "engine_OwnsSymbol s (engine_RegisterSymbol symb e) \<longleftrightarrow> s = symb \<or> engine_OwnsSymbol s e"
  by (auto simp: engine_OwnsSymbol_def engine_RegisterSymbol_def update_conv' split: option.splits)

lemma engine_index_register [simp]: "en_partition_index (engine_RegisterSymbol symb e) = en_partition_index e"
  by (simp add: engine_RegisterSymbol_def split: option.splits)

lemma engine_index_process:
  "engine_Process cmd e out = Some (seq, out', e') \<Longrightarrow> en_partition_index e' = en_partition_index e"
  by (auto simp: engine_Process_def ProcessNewOrder_def ProcessCancel_def ProcessModify_def Let_def
      split: command.splits option.splits prod.splits if_splits bind_splits)

lemma partitioned_invD:
  assumes "partitioned_inv n pe"
  shows "router_ok n (pe_router pe)" "length (pe_partitions pe) = n"
    and "i < n \<Longrightarrow> engine_inv (pe_partitions pe ! i)" "i < n \<Longrightarrow> en_partition_index (pe_partitions pe ! i) = i"
    and "i < n \<Longrightarrow> engine_OwnsSymbol symb (pe_partitions pe ! i) \<Longrightarrow> router_PartitionFor symb (pe_router pe) = Some i"
  using assms by (simp_all add: partitioned_inv_def pe_owner_def)

lemma partitioned_inv_register_at:
  assumes inv: "partitioned_inv n pe" and p: "p < n" "router_PartitionFor symb (pe_router pe) = Some p"
  shows "partitioned_inv n (partitioned_set p (engine_RegisterSymbol symb (pe_partitions pe ! p)) pe)"
  by (rule partitioned_inv_set [OF inv p(1)])
    (use partitioned_invD [OF inv] p in \<open>auto simp: engine_Owns_register intro: engine_inv_register\<close>)

lemma partitioned_register_total:
  assumes inv: "partitioned_inv n pe"
  obtains p where "router_PartitionFor symb (pe_router pe) = Some p" "p < n"
    "partitioned_RegisterSymbol symb pe = Some (partitioned_set p (engine_RegisterSymbol symb (pe_partitions pe ! p)) pe)"
proof -
  obtain p where "router_PartitionFor symb (pe_router pe) = Some p" "p < n"
    by (rule router_routes [OF partitioned_invD(1) [OF inv]])
  with that partitioned_invD(2) [OF inv] show thesis
    by (simp add: partitioned_RegisterSymbol_def partitioned_Partition_def)
qed

lemma partitioned_inv_pin:
  assumes inv: "partitioned_inv n pe" and p: "part < n" and free: "\<forall>i. \<not> pe_owner pe symb i"
    and reg: "partitioned_RegisterSymbolOnPartition symb part pe = Some pe'"
  shows "partitioned_inv n pe'"
proof -
  let ?pe = "pe\<lparr>pe_router := router_Pin symb part (pe_router pe)\<rparr>"
  have "s \<noteq> symb" if "pe_owner ?pe s i" for s i using free that by (auto simp: pe_owner_def)
  then have pin: "partitioned_inv n ?pe"
    using inv p by (auto simp: partitioned_inv_def router_ok_Pin router_Pin_routes pe_owner_def)
  moreover have "pe' = partitioned_set part (engine_RegisterSymbol symb (pe_partitions ?pe ! part)) ?pe"
    using reg p inv by (simp add: partitioned_RegisterSymbolOnPartition_def partitioned_Partition_def partitioned_inv_def)
  ultimately show ?thesis
    using partitioned_inv_register_at [OF pin p, of symb] by (simp add: router_Pin_routes)
qed

text \<open>One dispatch: the partition of the symbol processes the command, the others are as before.\<close>

lemma partitioned_dispatch_total:
  assumes inv: "partitioned_inv n pe" and route: "router_PartitionFor (SymbolOf cmd) (pe_router pe) = Some p"
  obtains seq evs e' where "p < n" "engine_Process cmd (pe_partitions pe ! p) [] = Some (seq, evs, e')"
    "partitioned_Dispatch cmd pe out = Some (seq, out @ evs, partitioned_set p e' pe)"
    "partitioned_inv n (partitioned_set p e' pe)"
proof -
  have p: "p < n" using router_routes [OF partitioned_invD(1) [OF inv], of "SymbolOf cmd"] route by force
  let ?e = "pe_partitions pe ! p"
  note D = partitioned_invD [OF inv]
  from process_step_appends [OF D(3) [OF p], of cmd] obtain evs e' where
    e': "\<And>out. engine_Process cmd ?e out = Some (en_next_seq ?e, out @ evs, e')" "engine_inv e'"
    "\<And>symb. engine_OwnsSymbol symb e' = engine_OwnsSymbol symb ?e" by metis
  have "partitioned_inv n (partitioned_set p e' pe)"
    by (rule partitioned_inv_set [OF inv p e'(2)])
      (use D p e' engine_index_process [OF e'(1)] in simp_all)
  with that [OF p] e'(1) [of "[]"] e'(1) [of out] route p D(2) show thesis
    by (simp add: partitioned_Dispatch_def partitioned_Partition_def)
qed

lemma partitioned_reachable_inv: "partitioned_reachable n pe \<Longrightarrow> partitioned_inv n pe"
proof (induction rule: partitioned_reachable.induct)
  case (start n)
  then show ?case
    by (auto simp: partitioned_inv_def partitioned_new_def router_new_def router_ok_def pe_owner_def engine_inv_new)
      (auto simp: engine_new_def engine_OwnsSymbol_def)
next
  case (register n pe symb pe')
  obtain p where "router_PartitionFor symb (pe_router pe) = Some p" "p < n"
    "partitioned_RegisterSymbol symb pe = Some (partitioned_set p (engine_RegisterSymbol symb (pe_partitions pe ! p)) pe)"
    by (rule partitioned_register_total [OF register.IH])
  with register show ?case by (auto intro: partitioned_inv_register_at)
next
  case (pin n pe part symb pe')
  then show ?case by (blast intro: partitioned_inv_pin)
next
  case (dispatch n pe cmd out seq out' pe')
  obtain p where "router_PartitionFor (SymbolOf cmd) (pe_router pe) = Some p"
    by (rule router_routes [OF partitioned_invD(1) [OF dispatch.IH]])
  from partitioned_dispatch_total [OF dispatch.IH this, of out] dispatch.hyps(2) show ?case by force
qed

section \<open>Independence of the partitions\<close>

text \<open>
  A sequence of dispatched commands, with a log of the partition and the events of each: the
  order of the sequence is one interleaving of what the threads of the partitions do.
\<close>

fun partitioned_run ::
  "command list \<Rightarrow> partitioned_engine \<Rightarrow> ((nat \<times> event list) list \<times> partitioned_engine) option" where
  "partitioned_run [] pe = Some ([], pe)"
| "partitioned_run (cmd # cmds) pe =
     do {
       p \<leftarrow> router_PartitionFor (SymbolOf cmd) (pe_router pe);
       (seq, evs, pe1) \<leftarrow> partitioned_Dispatch cmd pe [];
       (log, pe2) \<leftarrow> partitioned_run cmds pe1;
       Some ((p, evs) # log, pe2)
     }"

definition routed :: "partitioned_engine \<Rightarrow> nat \<Rightarrow> command list \<Rightarrow> command list" where
  "routed pe p cmds = filter (\<lambda>cmd. router_PartitionFor (SymbolOf cmd) (pe_router pe) = Some p) cmds"

definition events_of :: "nat \<Rightarrow> (nat \<times> event list) list \<Rightarrow> event list" where
  "events_of p log = concat (map snd (filter (\<lambda>x. fst x = p) log))"

lemma engine_run_out:
  assumes "engine_inv e" "engine_run cmds e [] = Some (evs, e')"
  shows "engine_run cmds e out = Some (out @ evs, e')"
  using assms
proof (induction cmds arbitrary: e evs out e')
  case (Cons cmd cmds)
  obtain evs1 e1 where e1: "\<And>out. engine_Process cmd e out = Some (en_next_seq e, out @ evs1, e1)" "engine_inv e1"
    using process_step_appends [OF Cons.prems(1), of cmd] by blast
  obtain evs2 e2 where e2: "engine_run cmds e1 [] = Some (evs2, e2)"
    using engine_run_refines [OF e1(2), of cmds "[]"] by auto
  have r: "engine_run cmds e1 out1 = Some (out1 @ evs2, e2)" for out1 by (rule Cons.IH [OF e1(2) e2])
  then have "evs = evs1 @ evs2" "e' = e2" using Cons.prems(2) by (simp_all add: e1(1))
  then show ?case by (simp add: e1(1) r)
qed simp

lemma partitioned_run_independent:
  assumes "partitioned_inv n pe"
  shows "\<exists>log pe'. partitioned_run cmds pe = Some (log, pe') \<and> partitioned_inv n pe' \<and> pe_router pe' = pe_router pe \<and>
    (\<forall>p < n. engine_run (routed pe p cmds) (pe_partitions pe ! p) [] = Some (events_of p log, pe_partitions pe' ! p))"
  using assms
proof (induction cmds arbitrary: pe)
  case Nil
  then show ?case by (simp add: routed_def events_of_def)
next
  case (Cons cmd cmds)
  note inv = Cons.prems
  obtain q where q: "router_PartitionFor (SymbolOf cmd) (pe_router pe) = Some q" "q < n"
    by (rule router_routes [OF partitioned_invD(1) [OF inv]])
  obtain seq evs e' where d: "engine_Process cmd (pe_partitions pe ! q) [] = Some (seq, evs, e')"
    "partitioned_Dispatch cmd pe [] = Some (seq, [] @ evs, partitioned_set q e' pe)"
    "partitioned_inv n (partitioned_set q e' pe)"
    by (rule partitioned_dispatch_total [OF inv q(1)])
  let ?pe = "partitioned_set q e' pe"
  from Cons.IH [OF d(3)] obtain log pe' where r: "partitioned_run cmds ?pe = Some (log, pe')" "partitioned_inv n pe'"
    "pe_router pe' = pe_router pe"
    "\<forall>p < n. engine_run (routed ?pe p cmds) (pe_partitions ?pe ! p) [] = Some (events_of p log, pe_partitions pe' ! p)"
    by auto
  have same: "routed ?pe p cmds = routed pe p cmds" for p by (simp add: routed_def)
  have len: "q < length (pe_partitions pe)" using partitioned_invD(2) [OF inv] q(2) by simp
  have "engine_run (routed pe p (cmd # cmds)) (pe_partitions pe ! p) [] =
      Some (events_of p ((q, evs) # log), pe_partitions pe' ! p)" if p: "p < n" for p
  proof (cases "p = q")
    case True
    have "engine_run (routed pe q cmds) e' [] = Some (events_of q log, pe_partitions pe' ! q)"
      using r(4) [rule_format, OF q(2)] by (simp add: same partitioned_set_nth [OF len])
    moreover have "engine_inv e'" using partitioned_invD(3) [OF d(3) q(2)] by (simp add: partitioned_set_nth [OF len])
    ultimately show ?thesis
      using engine_run_out [of e' "routed pe q cmds"] True q(1) d(1) by (simp add: routed_def events_of_def)
  next
    case False
    with r(4) [rule_format, OF p] q(1) show ?thesis by (simp add: same routed_def events_of_def partitioned_set_nth [OF len])
  qed
  with q d r show ?case by auto
qed

text \<open>
  C26. Ownership: in every system reached by public calls, when symbols are pinned before they
  are registered, a symbol has at most one owning partition and it is the one its commands are
  routed to; routing, registration and dispatch are always defined and never leave the vector
  of partitions.
\<close>

theorem symbol_has_one_owner:
  assumes "partitioned_reachable n pe"
  shows "partitioned_PartitionCount pe = n \<and>
    (\<forall>i < n. \<exists>e. partitioned_Partition i pe = Some e \<and> en_partition_index e = i \<and> engine_inv e \<and>
      (engine_OwnsSymbol symb e \<longrightarrow> router_PartitionFor symb (pe_router pe) = Some i)) \<and>
    (\<exists>p < n. router_PartitionFor symb (pe_router pe) = Some p) \<and>
    (\<exists>pe'. partitioned_RegisterSymbol symb pe = Some pe') \<and>
    (\<exists>seq out' pe'. partitioned_Dispatch cmd pe out = Some (seq, out', pe'))"
proof -
  have inv: "partitioned_inv n pe" by (rule partitioned_reachable_inv [OF assms])
  note D = partitioned_invD [OF inv]
  obtain p where p: "router_PartitionFor symb (pe_router pe) = Some p" "p < n"
    "partitioned_RegisterSymbol symb pe = Some (partitioned_set p (engine_RegisterSymbol symb (pe_partitions pe ! p)) pe)"
    by (rule partitioned_register_total [OF inv])
  obtain q where q: "router_PartitionFor (SymbolOf cmd) (pe_router pe) = Some q" by (rule router_routes [OF D(1)])
  from partitioned_dispatch_total [OF inv q, of out] have "\<exists>seq out' pe'. partitioned_Dispatch cmd pe out = Some (seq, out', pe')"
    by metis
  with p D show ?thesis by (auto simp: partitioned_PartitionCount_def partitioned_Partition_def)
qed

definition ex_partitioned :: partitioned_engine where
  "ex_partitioned = the (partitioned_RegisterSymbol 2 (the (partitioned_RegisterSymbolOnPartition 1 1 (partitioned_new 2))))"

lemma ex_partitioned_reachable: "partitioned_reachable 2 ex_partitioned"
proof -
  have fresh: "\<forall>i. \<not> pe_owner (partitioned_new 2) 1 i"
    by (simp add: pe_owner_def partitioned_new_def engine_OwnsSymbol_def engine_new_def)
  have start: "partitioned_reachable 2 (partitioned_new 2)" by (rule partitioned_reachable.start) simp
  obtain pe1 where pe1: "partitioned_RegisterSymbolOnPartition 1 1 (partitioned_new 2) = Some pe1"
    by (simp add: partitioned_RegisterSymbolOnPartition_def partitioned_Partition_def partitioned_new_def Let_def)
  have r1: "partitioned_reachable 2 pe1" by (rule partitioned_reachable.pin [OF start _ fresh pe1]) simp
  obtain pe2 where pe2: "partitioned_RegisterSymbol 2 pe1 = Some pe2"
    by (rule partitioned_register_total [OF partitioned_reachable_inv [OF r1], of 2])
  from partitioned_reachable.register [OF r1 pe2] pe1 pe2 show ?thesis by (simp add: ex_partitioned_def)
qed

theorem symbol_has_one_owner_witness:
  "partitioned_PartitionCount ex_partitioned = 2 \<and> router_PartitionFor 1 (pe_router ex_partitioned) = Some 1 \<and>
   (\<exists>seq out' pe'. partitioned_Dispatch (ex_cmd 1 1 Sell (Price 100) 5) ex_partitioned [] = Some (seq, out', pe'))"
proof -
  have "router_PartitionFor 1 (pe_router ex_partitioned) = Some 1" by code_simp
  with symbol_has_one_owner [OF ex_partitioned_reachable, of 1 "ex_cmd 1 1 Sell (Price 100) 5" "[]"] show ?thesis by blast
qed

text \<open>
  C27. Independence: dispatching any interleaving of commands is defined, and each partition ends
  in the state, and has emitted the events, that it reaches by processing alone the commands
  routed to it in their order. What the other partitions do in between has no influence.
\<close>

theorem partitions_independent:
  assumes "partitioned_reachable n pe"
  shows "\<exists>log pe'. partitioned_run cmds pe = Some (log, pe') \<and>
    (\<forall>p < n. engine_run (routed pe p cmds) (pe_partitions pe ! p) [] = Some (events_of p log, pe_partitions pe' ! p))"
  using partitioned_run_independent [OF partitioned_reachable_inv [OF assms], of cmds] by blast

theorem partitions_independent_witness:
  "\<exists>log pe'. partitioned_run ex_cmds ex_partitioned = Some (log, pe') \<and>
     engine_run (routed ex_partitioned 1 ex_cmds) (pe_partitions ex_partitioned ! 1) [] =
       Some (events_of 1 log, pe_partitions pe' ! 1) \<and>
     length (routed ex_partitioned 1 ex_cmds) = 3"
proof -
  have "length (routed ex_partitioned 1 ex_cmds) = 3" by code_simp
  with partitions_independent [OF ex_partitioned_reachable, of ex_cmds] show ?thesis by auto
qed

end
