(* ===== verification/Snapshot.thy ===== *)
theory Snapshot
  imports Partitioned_Engine Binary_Codec
begin

text \<open>
  \<open>include/matching_engine/persistence/snapshot.hpp\<close> and \<open>src/persistence/snapshot.cpp\<close>: the
  serialised state of every partition. Whether the file can be opened and written is an
  argument; the content written is the result. Every \<open>throw\<close> is an error value; \<open>Undefined\<close>
  stands for an access past the vector of partitions.

  The lemmas show that loading what was written gives a system with the same partitions: the
  same symbols, the same resting orders in the same priority, the same next sequence numbers and
  the same routing of the registered symbols.
\<close>

section \<open>WriteSnapshot\<close>

datatype snapshot_error =
    SnapshotOpenFailed | SnapshotWriteFailed | BadMagic | UnsupportedVersion | TruncatedHeader
  | TruncatedPartitionHeader | TruncatedSymbolHeader | TruncatedOrderRecord | Undefined

definition kMagic :: bytes where "kMagic = [0x4D, 0x45, 0x53, 0x4E]"
definition kVersion :: u8 where "kVersion = 1"

definition WriteOrder :: "order \<Rightarrow> bytes \<Rightarrow> bytes" where
  "WriteOrder ord buf =
     fold (\<lambda>w buf. w buf)
      [WriteU64 (o_id ord),
       WriteU64 (o_trader_id ord),
       WriteU32 (o_symbol_id ord),
       WriteU64 (o_sequence_number ord),
       WriteU64 (o_timestamp ord),
       WriteI64 (o_price ord),
       WriteU64 (o_quantity ord),
       WriteU64 (o_remaining_quantity ord),
       WriteU8 (side_u8 (o_side ord)),
       WriteU8 (order_type_u8 (o_type ord)),
       WriteU8 (time_in_force_u8 (o_time_in_force ord)),
       WriteU8 (order_status_u8 (o_status ord))] buf"

definition write_book :: "symbol_id \<times> order_book \<Rightarrow> bytes \<Rightarrow> bytes" where
  "write_book sb buf =
     (let orders = naive_AllRestingOrders (snd sb) in
      fold WriteOrder orders (WriteU32 (word_of_nat (length orders)) (WriteU32 (fst sb) buf)))"

definition write_partition :: "engine \<Rightarrow> bytes \<Rightarrow> bytes" where
  "write_partition part buf =
     fold write_book (en_books part)
       (WriteU32 (word_of_nat (length (en_books part))) (WriteU64 (en_next_seq part) buf))"

definition snapshot_bytes :: "partitioned_engine \<Rightarrow> bytes" where
  "snapshot_bytes pe =
     (let buf = WriteU8 kVersion (fold WriteU8 kMagic []);
          buf = WriteU32 (word_of_nat (partitioned_PartitionCount pe)) buf
      in fold write_partition (pe_partitions pe) buf)"

definition WriteSnapshot :: "bool \<Rightarrow> bool \<Rightarrow> partitioned_engine \<Rightarrow> snapshot_error + bytes" where
  "WriteSnapshot open_ok write_ok pe =
     (let buf = snapshot_bytes pe in
      if \<not> open_ok then Inl SnapshotOpenFailed
      else if \<not> write_ok then Inl SnapshotWriteFailed
      else Inr buf)"

section \<open>LoadSnapshot\<close>

definition ReadOrder :: "reader \<Rightarrow> (order \<times> reader) option" where
  "ReadOrder r =
     do {
       (id, r) \<leftarrow> ReadU64 r;
       (trader_id, r) \<leftarrow> ReadU64 r;
       (symbol_id, r) \<leftarrow> ReadU32 r;
       (seq, r) \<leftarrow> ReadU64 r;
       (ts, r) \<leftarrow> ReadU64 r;
       (price, r) \<leftarrow> ReadI64 r;
       (quantity, r) \<leftarrow> ReadU64 r;
       (remaining, r) \<leftarrow> ReadU64 r;
       (side, r) \<leftarrow> ReadU8 r;
       (type, r) \<leftarrow> ReadU8 r;
       (tif, r) \<leftarrow> ReadU8 r;
       (status, r) \<leftarrow> ReadU8 r;
       Some (\<lparr>o_id = id, o_trader_id = trader_id, o_symbol_id = symbol_id, o_sequence_number = seq,
              o_timestamp = ts, o_price = price, o_quantity = quantity, o_remaining_quantity = remaining,
              o_side = Side side, o_type = OrderType type, o_time_in_force = TimeInForce tif,
              o_status = OrderStatus status\<rparr>, r)
     }"

fun read_magic :: "bytes \<Rightarrow> reader \<Rightarrow> reader option" where
  "read_magic [] r = Some r"
| "read_magic (expected # es) r =
     (case ReadU8 r of
        None \<Rightarrow> None
      | Some (got, r') \<Rightarrow> if got \<noteq> expected then None else read_magic es r')"

text \<open>The three nested loops; the first argument counts the remaining iterations.\<close>

fun load_orders ::
  "nat \<Rightarrow> symbol_id \<Rightarrow> nat \<Rightarrow> reader \<Rightarrow> partitioned_engine \<Rightarrow> snapshot_error + reader \<times> partitioned_engine" where
  "load_orders 0 symb p r pe = Inr (r, pe)"
| "load_orders (Suc n) symb p r pe =
     (case ReadOrder r of
        None \<Rightarrow> Inl TruncatedOrderRecord
      | Some (ord, r') \<Rightarrow>
          (case partitioned_Partition p pe of
             None \<Rightarrow> Inl Undefined
           | Some e \<Rightarrow> load_orders n symb p r' (partitioned_set p (engine_RestoreOrder symb ord e) pe)))"

fun load_symbols ::
  "nat \<Rightarrow> nat \<Rightarrow> reader \<Rightarrow> partitioned_engine \<Rightarrow> snapshot_error + reader \<times> partitioned_engine" where
  "load_symbols 0 p r pe = Inr (r, pe)"
| "load_symbols (Suc n) p r pe =
     (case do { (symb, r) \<leftarrow> ReadU32 r; (order_count, r) \<leftarrow> ReadU32 r; Some (symb, order_count, r) } of
        None \<Rightarrow> Inl TruncatedSymbolHeader
      | Some (symb, order_count, r') \<Rightarrow>
          (case partitioned_RegisterSymbolOnPartition symb p pe of
             None \<Rightarrow> Inl Undefined
           | Some pe1 \<Rightarrow>
               (case load_orders (unat order_count) symb p r' pe1 of
                  Inl err \<Rightarrow> Inl err
                | Inr (r'', pe2) \<Rightarrow> load_symbols n p r'' pe2)))"

fun load_partitions ::
  "nat \<Rightarrow> nat \<Rightarrow> reader \<Rightarrow> partitioned_engine \<Rightarrow> snapshot_error + partitioned_engine" where
  "load_partitions 0 p r pe = Inr pe"
| "load_partitions (Suc n) p r pe =
     (case do { (next_seq, r) \<leftarrow> ReadU64 r; (symbol_count, r) \<leftarrow> ReadU32 r; Some (next_seq, symbol_count, r) } of
        None \<Rightarrow> Inl TruncatedPartitionHeader
      | Some (next_seq, symbol_count, r') \<Rightarrow>
          (case load_symbols (unat symbol_count) p r' pe of
             Inl err \<Rightarrow> Inl err
           | Inr (r'', pe1) \<Rightarrow>
               (case partitioned_Partition p pe1 of
                  None \<Rightarrow> Inl Undefined
                | Some e \<Rightarrow>
                    load_partitions n (Suc p) r'' (partitioned_set p (engine_SetNextSequenceNumber next_seq e) pe1))))"

definition LoadSnapshot :: "bytes option \<Rightarrow> snapshot_error + partitioned_engine" where
  "LoadSnapshot file =
     (case file of
        None \<Rightarrow> Inl SnapshotOpenFailed
      | Some data \<Rightarrow>
          (case read_magic kMagic (reader_new data) of
             None \<Rightarrow> Inl BadMagic
           | Some r \<Rightarrow>
               (case ReadU8 r of
                  None \<Rightarrow> Inl UnsupportedVersion
                | Some (version, r') \<Rightarrow>
                    if version \<noteq> kVersion then Inl UnsupportedVersion
                    else
                      (case ReadU32 r' of
                         None \<Rightarrow> Inl TruncatedHeader
                       | Some (partition_count, r'') \<Rightarrow>
                           load_partitions (unat partition_count) 0 r'' (partitioned_new (unat partition_count))))))"

section \<open>Orders on the wire\<close>

lemma WriteOrder_fields:
  "WriteOrder x buf = buf @ WriteU64 (o_id x) [] @ WriteU64 (o_trader_id x) [] @ WriteU32 (o_symbol_id x) [] @
     WriteU64 (o_sequence_number x) [] @ WriteU64 (o_timestamp x) [] @ WriteI64 (o_price x) [] @
     WriteU64 (o_quantity x) [] @ WriteU64 (o_remaining_quantity x) [] @ WriteU8 (side_u8 (o_side x)) [] @
     WriteU8 (order_type_u8 (o_type x)) [] @ WriteU8 (time_in_force_u8 (o_time_in_force x)) [] @
     WriteU8 (order_status_u8 (o_status x)) []"
  unfolding WriteOrder_def by (rule trans [OF fold_appends]) simp_all

lemma ReadOrder_complete:
  assumes "64 \<le> length xs"
  shows "\<exists>v r. ReadOrder (reader_at pre xs) = Some (v, r)"
proof -
  obtain v1 xs1 where x1: "xs = WriteU64 v1 [] @ xs1" using u64.split_put [of xs] assms by auto
  obtain v2 xs2 where x2: "xs1 = WriteU64 v2 [] @ xs2" using u64.split_put [of xs1] assms x1 by auto
  obtain v3 xs3 where x3: "xs2 = WriteU32 v3 [] @ xs3" using u32.split_put [of xs2] assms x1 x2 by auto
  obtain v4 xs4 where x4: "xs3 = WriteU64 v4 [] @ xs4" using u64.split_put [of xs3] assms x1 x2 x3 by auto
  obtain v5 xs5 where x5: "xs4 = WriteU64 v5 [] @ xs5" using u64.split_put [of xs4] assms x1 x2 x3 x4 by auto
  obtain v6 xs6 where x6: "xs5 = WriteI64 v6 [] @ xs6" using i64.split_put [of xs5] assms x1 x2 x3 x4 x5 by auto
  obtain v7 xs7 where x7: "xs6 = WriteU64 v7 [] @ xs7" using u64.split_put [of xs6] assms x1 x2 x3 x4 x5 x6 by auto
  obtain v8 xs8 where x8: "xs7 = WriteU64 v8 [] @ xs8" using u64.split_put [of xs7] assms x1 x2 x3 x4 x5 x6 x7 by auto
  have "4 \<le> length xs8" using assms x1 x2 x3 x4 x5 x6 x7 x8 by simp
  then obtain a b c d ys where x9: "xs8 = WriteU8 a [] @ WriteU8 b [] @ WriteU8 c [] @ WriteU8 d [] @ ys"
    by (auto simp: WriteU8_def numeral_eq_Suc Suc_le_length_iff)
  show ?thesis unfolding x1 x2 x3 x4 x5 x6 x7 x8 x9 ReadOrder_def by simp
qed

interpretation order_codec: codec 64 WriteOrder ReadOrder
proof
  fix x :: order and buf pre xs :: bytes and r :: reader
  show "WriteOrder x buf = buf @ WriteOrder x []" by (simp add: WriteOrder_fields)
  show "length (WriteOrder x []) = 64" by (simp add: WriteOrder_fields)
  show iff: "ReadOrder (reader_at pre xs) = Some (x, r) \<longleftrightarrow>
      (\<exists>rest. xs = WriteOrder x [] @ rest \<and> r = reader_at (pre @ WriteOrder x []) rest)" for x xs r
  proof
    assume "ReadOrder (reader_at pre xs) = Some (x, r)"
    then show "\<exists>rest. xs = WriteOrder x [] @ rest \<and> r = reader_at (pre @ WriteOrder x []) rest"
      by (auto simp: ReadOrder_def bind_eq_Some_conv get_iff WriteOrder_fields)
  next
    assume "\<exists>rest. xs = WriteOrder x [] @ rest \<and> r = reader_at (pre @ WriteOrder x []) rest"
    then show "ReadOrder (reader_at pre xs) = Some (x, r)"
      by (auto simp: ReadOrder_def WriteOrder_fields)
  qed
  show "ReadOrder (reader_at pre xs) = None \<longleftrightarrow> length xs < 64"
  proof
    assume "length xs < 64"
    then have "ReadOrder (reader_at pre xs) \<noteq> Some (v, r)" for v r
      unfolding iff by (auto simp: WriteOrder_fields)
    then show "ReadOrder (reader_at pre xs) = None" by (metis option.exhaust surj_pair)
  next
    assume "ReadOrder (reader_at pre xs) = None"
    then show "length xs < 64" using ReadOrder_complete [of xs pre] by force
  qed
qed

section \<open>What the loops do\<close>

abbreviation book_fits :: "symbol_id \<times> order_book \<Rightarrow> bool" where
  "book_fits sb \<equiv> naive_TotalOrderCount (snd sb) < 2 ^ 32"

text \<open>One book restored on partition \<open>p\<close>, and one partition after the other.\<close>

definition restore_engine :: "symbol_id \<times> order_book \<Rightarrow> engine \<Rightarrow> engine" where
  "restore_engine sb e = fold (engine_RestoreOrder (fst sb)) (naive_AllRestingOrders (snd sb)) (engine_RegisterSymbol (fst sb) e)"

definition restore_book :: "nat \<Rightarrow> symbol_id \<times> order_book \<Rightarrow> partitioned_engine \<Rightarrow> partitioned_engine" where
  "restore_book p sb pe =
     partitioned_set p (restore_engine sb (pe_partitions pe ! p)) (pe\<lparr>pe_router := router_Pin (fst sb) p (pe_router pe)\<rparr>)"

definition restore_partition :: "nat \<Rightarrow> engine \<Rightarrow> partitioned_engine \<Rightarrow> partitioned_engine" where
  "restore_partition p e pe =
     (let pe1 = fold (restore_book p) (en_books e) pe in
      partitioned_set p (engine_SetNextSequenceNumber (en_next_seq e) (pe_partitions pe1 ! p)) pe1)"

fun restore_partitions :: "nat \<Rightarrow> engine list \<Rightarrow> partitioned_engine \<Rightarrow> partitioned_engine" where
  "restore_partitions p [] pe = pe"
| "restore_partitions p (e # es) pe = restore_partitions (Suc p) es (restore_partition p e pe)"

lemma partitioned_set_twice: "partitioned_set i e' (partitioned_set i e pe) = partitioned_set i e' pe"
  by (simp add: partitioned_set_def)

lemma partitioned_set_same: "i < length (pe_partitions pe) \<Longrightarrow> partitioned_set i (pe_partitions pe ! i) pe = pe"
  by (simp add: partitioned_set_def)

lemma load_orders_run:
  assumes "p < length (pe_partitions pe)"
  shows "load_orders (length os) symb p (reader_at pre (concat (map (\<lambda>x. WriteOrder x []) os) @ rest)) pe =
    Inr (reader_at (pre @ concat (map (\<lambda>x. WriteOrder x []) os)) rest,
         partitioned_set p (fold (engine_RestoreOrder symb) os (pe_partitions pe ! p)) pe)"
  using assms
proof (induction os arbitrary: pre pe)
  case (Cons x os)
  then show ?case
    by (simp add: order_codec.get_put partitioned_Partition_def partitioned_set_nth partitioned_set_twice)
qed (simp add: partitioned_set_same)

lemma write_book_bytes:
  "write_book sb buf = buf @ WriteU32 (fst sb) [] @ WriteU32 (word_of_nat (length (naive_AllRestingOrders (snd sb)))) [] @
     concat (map (\<lambda>x. WriteOrder x []) (naive_AllRestingOrders (snd sb)))"
  unfolding write_book_def Let_def order_codec.fold_put
  using u32.put_append [of _ "WriteU32 (fst sb) buf"] u32.put_append [of _ buf] by simp

lemma fold_write_book: "fold write_book books buf = buf @ concat (map (\<lambda>sb. write_book sb []) books)"
proof (induction books arbitrary: buf)
  case (Cons sb books)
  have "write_book sb buf = buf @ write_book sb []" by (simp add: write_book_bytes)
  with Cons show ?case by simp
qed simp

lemma write_partition_bytes:
  "write_partition e buf = buf @ WriteU64 (en_next_seq e) [] @ WriteU32 (word_of_nat (length (en_books e))) [] @
     concat (map (\<lambda>sb. write_book sb []) (en_books e))"
  unfolding write_partition_def fold_write_book
  using u32.put_append [of _ "WriteU64 (en_next_seq e) buf"] u64.put_append [of _ buf] by simp

lemma fold_write_partition: "fold write_partition es buf = buf @ concat (map (\<lambda>e. write_partition e []) es)"
proof (induction es arbitrary: buf)
  case (Cons e es)
  have "write_partition e buf = buf @ write_partition e []" by (simp add: write_partition_bytes)
  with Cons show ?case by simp
qed simp

lemma unat_u32: "n < 2 ^ 32 \<Longrightarrow> unat (word_of_nat n :: u32) = n"
  by (simp add: unsigned_of_nat take_bit_nat_eq_self)

lemma resting_count: "naive_inv b \<Longrightarrow> length (naive_AllRestingOrders b) = naive_TotalOrderCount b"
  by (simp add: naive_observers(7,8))

lemma load_symbols_run:
  assumes "p < length (pe_partitions pe)" "\<forall>sb \<in> set books. book_fits sb \<and> naive_inv (snd sb)"
  shows "load_symbols (length books) p (reader_at pre (concat (map (\<lambda>sb. write_book sb []) books) @ rest)) pe =
    Inr (reader_at (pre @ concat (map (\<lambda>sb. write_book sb []) books)) rest, fold (restore_book p) books pe)"
  using assms
proof (induction books arbitrary: pre pe)
  case (Cons sb books)
  let ?os = "naive_AllRestingOrders (snd sb)"
  have n: "unat (word_of_nat (length ?os) :: u32) = length ?os"
    using Cons.prems(2) by (intro unat_u32) (simp add: resting_count)
  have reg: "partitioned_RegisterSymbolOnPartition (fst sb) p pe =
      Some (partitioned_set p (engine_RegisterSymbol (fst sb) (pe_partitions pe ! p))
        (pe\<lparr>pe_router := router_Pin (fst sb) p (pe_router pe)\<rparr>))"
    using Cons.prems(1) by (simp add: partitioned_RegisterSymbolOnPartition_def partitioned_Partition_def Let_def)
  show ?case
    using Cons.prems Cons.IH [of "restore_book p sb pe"]
    by (simp add: write_book_bytes reg load_orders_run n partitioned_set_twice partitioned_set_nth
        restore_book_def restore_engine_def)
qed simp

lemma restore_book_length [simp]: "length (pe_partitions (restore_book p sb pe)) = length (pe_partitions pe)"
  by (simp add: restore_book_def)

lemma fold_restore_book_length [simp]:
  "length (pe_partitions (fold (restore_book p) books pe)) = length (pe_partitions pe)"
  by (induction books arbitrary: pe) simp_all

lemma restore_partition_length [simp]: "length (pe_partitions (restore_partition p e pe)) = length (pe_partitions pe)"
  by (simp add: restore_partition_def Let_def)

abbreviation partition_fits :: "engine \<Rightarrow> bool" where
  "partition_fits e \<equiv> length (en_books e) < 2 ^ 32 \<and> (\<forall>sb \<in> set (en_books e). book_fits sb)"

lemma load_partitions_run:
  assumes "p + length es \<le> length (pe_partitions pe)" "\<forall>e \<in> set es. partition_fits e \<and> engine_inv e"
  shows "load_partitions (length es) p (reader_at pre (concat (map (\<lambda>e. write_partition e []) es) @ rest)) pe =
    Inr (restore_partitions p es pe)"
  using assms
proof (induction es arbitrary: pre p pe)
  case (Cons e es)
  have n: "unat (word_of_nat (length (en_books e)) :: u32) = length (en_books e)"
    using Cons.prems(2) by (intro unat_u32) simp
  have books: "\<forall>sb \<in> set (en_books e). book_fits sb \<and> naive_inv (snd sb)"
    using Cons.prems(2) by (auto simp: engine_inv_def)
  have p: "p < length (pe_partitions pe)" using Cons.prems(1) by simp
  show ?case
    using Cons.prems Cons.IH [of "Suc p" "restore_partition p e pe"]
    by (simp add: write_partition_bytes n load_symbols_run [OF p books] partitioned_Partition_def
        restore_partition_def Let_def)
qed simp

section \<open>What the restored partitions hold\<close>

lemma alist_update_twice: "AList.update k v (AList.update k w al) = AList.update k v al"
  by (induction al) auto

lemma fold_RestoreOrder:
  assumes "engine_FindBook symb e = Some b" "engine_inv e"
  shows "fold (engine_RestoreOrder symb) os e = engine_set_book symb (fold naive_RestoreOrder os b) e"
  using assms(1)
proof (induction os rule: rev_induct)
  case Nil
  then show ?case
    using assms(2) by (auto simp: engine_set_book_def engine_FindBook_def engine_inv_def update_triv)
next
  case (snoc x os)
  then show ?case by (simp add: engine_RestoreOrder_def) (simp add: engine_set_book_def alist_update_twice)
qed

lemma restore_engine_abs:
  assumes inv: "engine_inv e" and new: "engine_FindBook (fst sb) e = None"
    and b: "naive_inv (snd sb)" "nb_symbol_id (snd sb) = fst sb"
  shows "engine_inv (restore_engine sb e)"
    and "engine_abs (restore_engine sb e) = (fst (engine_abs e), (snd (engine_abs e))(fst sb \<mapsto> naive_abs (snd sb)))"
    and "en_partition_index (restore_engine sb e) = en_partition_index e"
proof -
  let ?e = "engine_RegisterSymbol (fst sb) e" and ?b = "fold naive_RestoreOrder (naive_AllRestingOrders (snd sb)) (naive_new (fst sb))"
  have reg: "?e = engine_set_book (fst sb) (naive_new (fst sb)) e"
    using new by (simp add: engine_RegisterSymbol_def engine_FindBook_def engine_set_book_def)
  have find: "engine_FindBook (fst sb) ?e = Some (naive_new (fst sb))" by (simp add: reg)
  have all: "naive_inv ?b" "naive_abs ?b = naive_abs (snd sb)"
    using restore_all_orders [OF b(1) refl] b(2) by simp_all
  have e': "restore_engine sb e = engine_set_book (fst sb) ?b e"
    unfolding restore_engine_def fold_RestoreOrder [OF find engine_inv_register [OF inv]]
    by (simp add: reg) (simp add: engine_set_book_def alist_update_twice)
  have "nb_symbol_id ?b = fst sb" using arg_cong [OF all(2), of sb_symbol_id] b(2) by simp
  then show "engine_inv (restore_engine sb e)" unfolding e' by (intro engine_inv_set [OF inv all(1)])
  show "engine_abs (restore_engine sb e) = (fst (engine_abs e), (snd (engine_abs e))(fst sb \<mapsto> naive_abs (snd sb)))"
    by (auto simp: e' engine_abs_def all(2) fun_eq_iff)
  show "en_partition_index (restore_engine sb e) = en_partition_index e" by (simp add: e')
qed

lemma fold_restore_book:
  assumes "p < length (pe_partitions pe)"
  shows "fold (restore_book p) books pe =
    partitioned_set p (fold restore_engine books (pe_partitions pe ! p))
      (pe\<lparr>pe_router := fold (\<lambda>sb. router_Pin (fst sb) p) books (pe_router pe)\<rparr>)"
  using assms
proof (induction books arbitrary: pe)
  case Nil
  then show ?case by (simp add: partitioned_set_def)
next
  case (Cons sb books)
  then show ?case
    by (simp add: restore_book_def partitioned_set_nth) (simp add: partitioned_set_def)
qed

lemma fold_restore_engine:
  assumes "engine_inv e" "distinct (map fst books)" "\<forall>sb \<in> set books. naive_inv (snd sb) \<and> nb_symbol_id (snd sb) = fst sb"
    "\<forall>sb \<in> set books. engine_FindBook (fst sb) e = None"
  shows "engine_inv (fold restore_engine books e) \<and>
    engine_abs (fold restore_engine books e) =
      (en_next_seq e, \<lambda>s. case map_of books s of Some b \<Rightarrow> Some (naive_abs b) | None \<Rightarrow> snd (engine_abs e) s) \<and>
    en_partition_index (fold restore_engine books e) = en_partition_index e"
  using assms
proof (induction books arbitrary: e)
  case Nil
  then show ?case by (simp add: engine_abs_def)
next
  case (Cons sb books)
  let ?e = "restore_engine sb e"
  have r: "engine_inv ?e" "engine_abs ?e = (fst (engine_abs e), (snd (engine_abs e))(fst sb \<mapsto> naive_abs (snd sb)))"
    "en_partition_index ?e = en_partition_index e"
    using restore_engine_abs [of e sb] Cons.prems by simp_all
  have seq: "en_next_seq ?e = en_next_seq e" using arg_cong [OF r(2), of fst] by (simp add: engine_abs_def)
  have "engine_FindBook (fst y) ?e = None" if "y \<in> set books" for y
  proof -
    have "fst y \<noteq> fst sb" using Cons.prems(2) that by (metis distinct.simps(2) image_eqI list.set_map list.simps(9))
    then show ?thesis
      using arg_cong [OF r(2), of "\<lambda>x. snd x (fst y)"] Cons.prems(4) that by (simp add: engine_abs_def)
  qed
  with Cons.IH [OF r(1)] Cons.prems have "engine_inv (fold restore_engine books ?e) \<and>
      engine_abs (fold restore_engine books ?e) =
        (en_next_seq ?e, \<lambda>s. case map_of books s of Some b \<Rightarrow> Some (naive_abs b) | None \<Rightarrow> snd (engine_abs ?e) s) \<and>
      en_partition_index (fold restore_engine books ?e) = en_partition_index ?e" by simp
  moreover have "map_of books (fst sb) = None" using Cons.prems(2) by (simp add: map_of_eq_None_iff)
  ultimately show ?case
    using r(2,3) seq by (auto simp: fun_eq_iff map_of_Cons_code split: option.split)
qed

lemma restore_partition_result:
  assumes p: "p < length (pe_partitions pe)" "pe_partitions pe ! p = engine_new p" and inv: "engine_inv e"
  shows "\<exists>e'. restore_partition p e pe = partitioned_set p e'
      (pe\<lparr>pe_router := fold (\<lambda>sb. router_Pin (fst sb) p) (en_books e) (pe_router pe)\<rparr>) \<and>
    engine_inv e' \<and> engine_abs e' = engine_abs e \<and> en_partition_index e' = p"
proof -
  let ?e = "fold restore_engine (en_books e) (engine_new p)"
  have "engine_inv ?e \<and> engine_abs ?e = (en_next_seq (engine_new p),
      \<lambda>s. case map_of (en_books e) s of Some b \<Rightarrow> Some (naive_abs b) | None \<Rightarrow> snd (engine_abs (engine_new p)) s) \<and>
      en_partition_index ?e = en_partition_index (engine_new p)"
    by (rule fold_restore_engine [OF engine_inv_new])
      (use inv in \<open>auto simp: engine_inv_def engine_new_def engine_FindBook_def\<close>)
  then have e: "engine_inv ?e" "snd (engine_abs ?e) = snd (engine_abs e)" "en_partition_index ?e = p"
    by (auto simp: engine_abs_def engine_new_def engine_FindBook_def fun_eq_iff split: option.split)
  have "engine_abs (engine_SetNextSequenceNumber (en_next_seq e) ?e) = engine_abs e"
    using e(2) by (simp add: engine_abs_def engine_SetNextSequenceNumber_def fun_eq_iff)
  moreover have "restore_partition p e pe = partitioned_set p (engine_SetNextSequenceNumber (en_next_seq e) ?e)
      (pe\<lparr>pe_router := fold (\<lambda>sb. router_Pin (fst sb) p) (en_books e) (pe_router pe)\<rparr>)"
    using p by (simp add: restore_partition_def Let_def fold_restore_book partitioned_set_twice partitioned_set_nth)
  ultimately show ?thesis
    using e by (intro exI [of _ "engine_SetNextSequenceNumber (en_next_seq e) ?e"])
      (simp add: engine_SetNextSequenceNumber_def)
qed

fun pin_all :: "nat \<Rightarrow> engine list \<Rightarrow> symbol_router \<Rightarrow> symbol_router" where
  "pin_all p [] r = r"
| "pin_all p (e # es) r = pin_all (Suc p) es (fold (\<lambda>sb. router_Pin (fst sb) p) (en_books e) r)"

lemma fold_Pin:
  "map_of (sr_overrides (fold (\<lambda>sb. router_Pin (fst sb) p) books r)) s =
     (if s \<in> fst ` set books then Some p else map_of (sr_overrides r) s)"
  "sr_partition_count (fold (\<lambda>sb. router_Pin (fst sb) p) books r) = sr_partition_count r"
  by (induction books arbitrary: r) (auto simp: router_Pin_def update_conv')

lemma pin_all_count [simp]: "sr_partition_count (pin_all p es r) = sr_partition_count r"
  by (induction es arbitrary: p r) (simp_all add: fold_Pin)

lemma owns_iff: "engine_OwnsSymbol s e \<longleftrightarrow> s \<in> fst ` set (en_books e)"
  by (simp add: engine_OwnsSymbol_def map_of_eq_None_iff)

lemma pin_all_none:
  "\<forall>e \<in> set es. \<not> engine_OwnsSymbol s e \<Longrightarrow> map_of (sr_overrides (pin_all p es r)) s = map_of (sr_overrides r) s"
  by (induction es arbitrary: p r) (simp_all add: fold_Pin owns_iff)

lemma pin_all_owner:
  assumes "i < length es" "engine_OwnsSymbol s (es ! i)" "\<forall>j < length es. engine_OwnsSymbol s (es ! j) \<longrightarrow> j = i"
  shows "map_of (sr_overrides (pin_all p es r)) s = Some (p + i)"
  using assms
proof (induction es arbitrary: p r i)
  case (Cons e es)
  show ?case
  proof (cases i)
    case 0
    then have "\<forall>e \<in> set es. \<not> engine_OwnsSymbol s e"
      using Cons.prems(3) by (metis Suc_mono in_set_conv_nth length_Cons nat.distinct(1) nth_Cons_Suc)
    with 0 Cons.prems(2) show ?thesis by (simp add: pin_all_none fold_Pin) (simp add: owns_iff)
  next
    case (Suc k)
    then show ?thesis
      using Cons.IH [of k "Suc p"] Cons.prems by (metis Suc_less_eq add_Suc_shift length_Cons nat.inject nth_Cons_Suc pin_all.simps(2))
  qed
qed simp

lemma restore_partitions_result:
  assumes "p + length es = length (pe_partitions pe)" "\<forall>i < length es. pe_partitions pe ! (p + i) = engine_new (p + i)"
    "\<forall>e \<in> set es. engine_inv e"
  shows "length (pe_partitions (restore_partitions p es pe)) = length (pe_partitions pe) \<and>
    pe_router (restore_partitions p es pe) = pin_all p es (pe_router pe) \<and>
    (\<forall>i < p. pe_partitions (restore_partitions p es pe) ! i = pe_partitions pe ! i) \<and>
    (\<forall>i < length es. engine_inv (pe_partitions (restore_partitions p es pe) ! (p + i)) \<and>
       engine_abs (pe_partitions (restore_partitions p es pe) ! (p + i)) = engine_abs (es ! i) \<and>
       en_partition_index (pe_partitions (restore_partitions p es pe) ! (p + i)) = p + i)"
  using assms
proof (induction es arbitrary: p pe)
  case (Cons e es)
  have p: "p < length (pe_partitions pe)" "pe_partitions pe ! p = engine_new p" "engine_inv e"
    using Cons.prems(1,3) Cons.prems(2) [rule_format, of 0] by simp_all
  from restore_partition_result [OF p] obtain e' where
    r: "restore_partition p e pe = partitioned_set p e'
      (pe\<lparr>pe_router := fold (\<lambda>sb. router_Pin (fst sb) p) (en_books e) (pe_router pe)\<rparr>)"
    and e': "engine_inv e'" "engine_abs e' = engine_abs e" "en_partition_index e' = p" by blast
  let ?pe = "restore_partition p e pe"
  have nth: "pe_partitions ?pe ! j = (if j = p then e' else pe_partitions pe ! j)" for j
    using p(1) by (simp add: r partitioned_set_nth)
  have len: "length (pe_partitions ?pe) = length (pe_partitions pe)" by simp
  have "pe_partitions ?pe ! (Suc p + i) = engine_new (Suc p + i)" if "i < length es" for i
    using Cons.prems(2) [rule_format, of "Suc i"] that nth [of "Suc p + i"] by simp
  with Cons.IH [of "Suc p" ?pe] Cons.prems(1,3) have IH:
    "length (pe_partitions (restore_partitions (Suc p) es ?pe)) = length (pe_partitions ?pe)"
    "pe_router (restore_partitions (Suc p) es ?pe) = pin_all (Suc p) es (pe_router ?pe)"
    "\<And>i. i < Suc p \<Longrightarrow> pe_partitions (restore_partitions (Suc p) es ?pe) ! i = pe_partitions ?pe ! i"
    "\<And>i. i < length es \<Longrightarrow> engine_inv (pe_partitions (restore_partitions (Suc p) es ?pe) ! (Suc p + i)) \<and>
       engine_abs (pe_partitions (restore_partitions (Suc p) es ?pe) ! (Suc p + i)) = engine_abs (es ! i) \<and>
       en_partition_index (pe_partitions (restore_partitions (Suc p) es ?pe) ! (Suc p + i)) = Suc p + i"
    by simp_all
  have "engine_inv (pe_partitions (restore_partitions p (e # es) pe) ! (p + i)) \<and>
       engine_abs (pe_partitions (restore_partitions p (e # es) pe) ! (p + i)) = engine_abs ((e # es) ! i) \<and>
       en_partition_index (pe_partitions (restore_partitions p (e # es) pe) ! (p + i)) = p + i" if "i < length (e # es)" for i
    using that IH(3) [of p] IH(4) [of "i - 1"] nth [of p] e' by (cases i) simp_all
  with IH(1-3) len show ?case by (simp add: nth) (simp add: r)
qed simp

section \<open>Routing of a restored system\<close>

text \<open>A pin comes with a registration, so the router only overrides the hash for registered symbols.\<close>

definition pins_owned :: "partitioned_engine \<Rightarrow> bool" where
  "pins_owned pe \<longleftrightarrow> (\<forall>symb p. map_of (sr_overrides (pe_router pe)) symb = Some p \<longrightarrow> pe_owner pe symb p)"

lemma pe_owner_set:
  assumes "pe_owner pe symb i" "p < length (pe_partitions pe)"
    "\<And>symb. engine_OwnsSymbol symb (pe_partitions pe ! p) \<Longrightarrow> engine_OwnsSymbol symb e"
  shows "pe_owner (partitioned_set p e pe) symb i"
  using assms by (auto simp: pe_owner_def partitioned_set_nth)

lemma owns_abs: "engine_OwnsSymbol symb e \<longleftrightarrow> snd (engine_abs e) symb \<noteq> None"
  by (simp add: engine_OwnsSymbol_def engine_abs_def engine_FindBook_def)

lemma partitioned_reachable_pins: "partitioned_reachable n pe \<Longrightarrow> pins_owned pe"
proof (induction rule: partitioned_reachable.induct)
  case (start n)
  then show ?case by (simp add: pins_owned_def partitioned_new_def router_new_def)
next
  case (register n pe symb pe')
  have inv: "partitioned_inv n pe" by (rule partitioned_reachable_inv [OF register.hyps(1)])
  obtain p where "p < n"
    "partitioned_RegisterSymbol symb pe = Some (partitioned_set p (engine_RegisterSymbol symb (pe_partitions pe ! p)) pe)"
    by (rule partitioned_register_total [OF inv])
  with register partitioned_invD(2) [OF inv] show ?case
    by (auto simp: pins_owned_def engine_Owns_register intro!: pe_owner_set)
next
  case (pin n pe p symb pe')
  have len: "length (pe_partitions pe) = n" using partitioned_invD(2) [OF partitioned_reachable_inv [OF pin.hyps(1)]] .
  let ?pe = "pe\<lparr>pe_router := router_Pin symb p (pe_router pe)\<rparr>"
  have pe': "pe' = partitioned_set p (engine_RegisterSymbol symb (pe_partitions pe ! p)) ?pe"
    using pin.hyps(2,4) len by (simp add: partitioned_RegisterSymbolOnPartition_def partitioned_Partition_def)
  have "pe_owner pe' s i" if "map_of (sr_overrides (pe_router pe')) s = Some i" for s i
  proof (cases "s = symb")
    case True
    with that show ?thesis
      using pin.hyps(2) len by (simp add: pe' router_Pin_def update_conv' pe_owner_def partitioned_set_nth engine_Owns_register)
  next
    case False
    with that have "pe_owner pe s i" using pin.IH by (simp add: pe' router_Pin_def update_conv' pins_owned_def)
    then have "pe_owner ?pe s i" by (simp add: pe_owner_def)
    then show ?thesis unfolding pe' using pin.hyps(2) len by (intro pe_owner_set) (simp_all add: engine_Owns_register)
  qed
  then show ?case by (simp add: pins_owned_def)
next
  case (dispatch n pe cmd out seq out' pe')
  have inv: "partitioned_inv n pe" by (rule partitioned_reachable_inv [OF dispatch.hyps(1)])
  obtain p where p: "router_PartitionFor (SymbolOf cmd) (pe_router pe) = Some p" "p < n"
    by (rule router_routes [OF partitioned_invD(1) [OF inv]])
  let ?e = "pe_partitions pe ! p"
  obtain evs e' where e': "\<And>out. engine_Process cmd ?e out = Some (en_next_seq ?e, out @ evs, e')"
    "\<And>symb. engine_OwnsSymbol symb e' = engine_OwnsSymbol symb ?e"
    using process_step_appends [OF partitioned_invD(3) [OF inv p(2)], of cmd] by blast
  have "pe' = partitioned_set p e' pe"
    using dispatch.hyps(2) p partitioned_invD(2) [OF inv]
    by (simp add: partitioned_Dispatch_def partitioned_Partition_def e'(1))
  with dispatch.IH e'(2) p(2) partitioned_invD(2) [OF inv] show ?case
    by (auto simp: pins_owned_def intro!: pe_owner_set)
qed

lemma restored_system:
  assumes inv: "partitioned_inv n pe" and pins: "pins_owned pe"
    and pe': "pe' = restore_partitions 0 (pe_partitions pe) (partitioned_new n)"
  shows "partitioned_inv n pe' \<and> pins_owned pe' \<and>
    (\<forall>i < n. engine_abs (pe_partitions pe' ! i) = engine_abs (pe_partitions pe ! i)) \<and>
    (\<forall>symb. router_PartitionFor symb (pe_router pe') = router_PartitionFor symb (pe_router pe))"
proof -
  note D = partitioned_invD [OF inv]
  have "\<forall>e \<in> set (pe_partitions pe). engine_inv e" using D(2,3) by (metis in_set_conv_nth)
  then have r: "length (pe_partitions pe') = n" "pe_router pe' = pin_all 0 (pe_partitions pe) (router_new n)"
    and part: "\<And>i. i < n \<Longrightarrow> engine_inv (pe_partitions pe' ! i) \<and>
      engine_abs (pe_partitions pe' ! i) = engine_abs (pe_partitions pe ! i) \<and> en_partition_index (pe_partitions pe' ! i) = i"
    using restore_partitions_result [of 0 "pe_partitions pe" "partitioned_new n"] D(2) pe'
    by (simp_all add: partitioned_new_def)
  have own: "pe_owner pe' symb i \<longleftrightarrow> pe_owner pe symb i" for symb i
    using part [of i] r(1) D(2) by (cases "i < n") (simp_all add: pe_owner_def owns_abs)
  have over: "map_of (sr_overrides (pe_router pe')) symb = Some i" if "pe_owner pe symb i" for symb i
    unfolding r(2) using pin_all_owner [of i "pe_partitions pe" symb 0] that D(2,5)
    by (metis add_0 option.inject pe_owner_def)
  have none: "map_of (sr_overrides (pe_router pe')) symb = None" if "\<And>i. \<not> pe_owner pe symb i" for symb
  proof -
    have "\<forall>e \<in> set (pe_partitions pe). \<not> engine_OwnsSymbol symb e" using that by (metis in_set_conv_nth pe_owner_def)
    then show ?thesis unfolding r(2) by (simp add: pin_all_none router_new_def)
  qed
  have route: "router_PartitionFor symb (pe_router pe') = router_PartitionFor symb (pe_router pe)" for symb
  proof (cases "\<exists>i. pe_owner pe symb i")
    case True
    then obtain i where i: "pe_owner pe symb i" by blast
    then have "router_PartitionFor symb (pe_router pe) = Some i" using D(5) D(2) by (auto simp: pe_owner_def)
    with over [OF i] show ?thesis by (simp add: router_PartitionFor_def)
  next
    case False
    then have "map_of (sr_overrides (pe_router pe)) symb = None"
      using pins unfolding pins_owned_def by (metis not_None_eq)
    moreover have "sr_partition_count (pe_router pe') = sr_partition_count (pe_router pe)"
      using D(1) unfolding r(2) by (simp add: router_ok_def router_new_def)
    ultimately show ?thesis using none [of symb] False by (simp add: router_PartitionFor_def)
  qed
  have pins': "pins_owned pe'" unfolding pins_owned_def own using over none by (metis option.discI option.inject)
  have "router_ok n (pe_router pe')"
    using D(1) pins' r by (auto simp: router_ok_def router_new_def pins_owned_def pe_owner_def)
  then have "partitioned_inv n pe'"
    using r(1) part D(2) D(5) unfolding partitioned_inv_def own route by (auto simp: pe_owner_def)
  with pins' part route show ?thesis by blast
qed

lemma load_header:
  "LoadSnapshot (Some (kMagic @ WriteU8 kVersion [] @ WriteU32 c [] @ xs)) =
     load_partitions (unat c) 0 (reader_at (kMagic @ WriteU8 kVersion [] @ WriteU32 c []) xs) (partitioned_new (unat c))"
proof -
  have magic: "read_magic es (reader_at pre (es @ ys)) = Some (reader_at (pre @ es) ys)" for es pre ys
  proof (induction es arbitrary: pre)
    case (Cons e es)
    have "ReadU8 (reader_at pre (WriteU8 e [] @ es @ ys)) = Some (e, reader_at (pre @ WriteU8 e []) (es @ ys))" by simp
    with Cons [of "pre @ [e]"] show ?case by (simp add: WriteU8_def)
  qed simp
  show ?thesis by (simp add: LoadSnapshot_def reader_new_at magic)
qed

lemma load_snapshot_bytes:
  assumes inv: "partitioned_inv n pe" and n: "n < 2 ^ 32" and fits: "\<forall>e \<in> set (pe_partitions pe). partition_fits e"
  shows "LoadSnapshot (Some (snapshot_bytes pe)) = Inr (restore_partitions 0 (pe_partitions pe) (partitioned_new n))"
proof -
  note D = partitioned_invD [OF inv]
  have "fold WriteU8 kMagic [] = kMagic" by (simp add: kMagic_def WriteU8_def)
  then have "snapshot_bytes pe = kMagic @ WriteU8 kVersion [] @ WriteU32 (word_of_nat n) [] @
      concat (map (\<lambda>e. write_partition e []) (pe_partitions pe))"
    unfolding snapshot_bytes_def Let_def fold_write_partition partitioned_PartitionCount_def D(2)
    using u32.put_append [of _ "WriteU8 kVersion kMagic"] u8.put_append [of _ kMagic] by simp
  moreover have "\<forall>e \<in> set (pe_partitions pe). partition_fits e \<and> engine_inv e"
    using fits D(2,3) by (metis in_set_conv_nth)
  moreover have "length (pe_partitions (partitioned_new n)) = n" by (simp add: partitioned_new_def)
  ultimately show ?thesis
    using load_partitions_run [of 0 "pe_partitions pe" "partitioned_new n" _ "[]"] D(2)
    by (simp add: load_header unat_u32 [OF n])
qed

section \<open>Systems that behave alike\<close>

text \<open>Two systems with the same routing and the same abstract partitions.\<close>

definition same_system :: "nat \<Rightarrow> partitioned_engine \<Rightarrow> partitioned_engine \<Rightarrow> bool" where
  "same_system n pe pe' \<longleftrightarrow> partitioned_inv n pe \<and> partitioned_inv n pe' \<and>
     (\<forall>i < n. engine_abs (pe_partitions pe' ! i) = engine_abs (pe_partitions pe ! i)) \<and>
     (\<forall>symb. router_PartitionFor symb (pe_router pe') = router_PartitionFor symb (pe_router pe))"

lemma same_system_dispatch:
  assumes same: "same_system n pe pe'"
  obtains p seq evs pe1 pe1' where "router_PartitionFor (SymbolOf cmd) (pe_router pe) = Some p"
    "router_PartitionFor (SymbolOf cmd) (pe_router pe') = Some p"
    "partitioned_Dispatch cmd pe [] = Some (seq, evs, pe1)" "partitioned_Dispatch cmd pe' [] = Some (seq, evs, pe1')"
    "same_system n pe1 pe1'"
proof -
  have inv: "partitioned_inv n pe" "partitioned_inv n pe'" using same by (simp_all add: same_system_def)
  obtain p where p: "router_PartitionFor (SymbolOf cmd) (pe_router pe) = Some p" "p < n"
    by (rule router_routes [OF partitioned_invD(1) [OF inv(1)]])
  then have p': "router_PartitionFor (SymbolOf cmd) (pe_router pe') = Some p" using same by (simp add: same_system_def)
  let ?e = "pe_partitions pe ! p" and ?e' = "pe_partitions pe' ! p"
  have eq: "engine_abs ?e' = engine_abs ?e" using same p(2) by (simp add: same_system_def)
  then have seq: "en_next_seq ?e' = en_next_seq ?e" using arg_cong [OF eq, of fst] by (simp add: engine_abs_def)
  obtain s1 evs e1 where d: "engine_Process cmd ?e [] = Some (s1, evs, e1)"
    "partitioned_Dispatch cmd pe [] = Some (s1, [] @ evs, partitioned_set p e1 pe)" "partitioned_inv n (partitioned_set p e1 pe)"
    by (rule partitioned_dispatch_total [OF inv(1) p(1)])
  obtain s1' evs' e1' where d': "engine_Process cmd ?e' [] = Some (s1', evs', e1')"
    "partitioned_Dispatch cmd pe' [] = Some (s1', [] @ evs', partitioned_set p e1' pe')" "partitioned_inv n (partitioned_set p e1' pe')"
    by (rule partitioned_dispatch_total [OF inv(2) p'])
  have r: "s1 = en_next_seq ?e" "evs = fst (spec_dispatch cmd (engine_abs ?e))" "engine_abs e1 = snd (spec_dispatch cmd (engine_abs ?e))"
    using engine_Process_refines [OF partitioned_invD(3) [OF inv(1) p(2)], of cmd "[]"] d(1) by auto
  have r': "s1' = en_next_seq ?e'" "evs' = fst (spec_dispatch cmd (engine_abs ?e'))" "engine_abs e1' = snd (spec_dispatch cmd (engine_abs ?e'))"
    using engine_Process_refines [OF partitioned_invD(3) [OF inv(2) p(2)], of cmd "[]"] d'(1) by auto
  have len: "p < length (pe_partitions pe)" "p < length (pe_partitions pe')"
    using partitioned_invD(2) [OF inv(1)] partitioned_invD(2) [OF inv(2)] p(2) by simp_all
  have "same_system n (partitioned_set p e1 pe) (partitioned_set p e1' pe')"
    using same d(3) d'(3) r(3) r'(3) eq
    by (simp add: same_system_def partitioned_set_nth [OF len(1)] partitioned_set_nth [OF len(2)])
  with that [OF p(1) p', of s1 evs] d(2) d'(2) r r' eq seq show thesis by simp
qed

lemma same_system_run:
  assumes "same_system n pe pe'"
  shows "\<exists>log pe1 pe1'. partitioned_run cmds pe = Some (log, pe1) \<and> partitioned_run cmds pe' = Some (log, pe1') \<and>
    same_system n pe1 pe1'"
  using assms
proof (induction cmds arbitrary: pe pe')
  case (Cons cmd cmds)
  obtain p seq evs pe1 pe1' where d: "router_PartitionFor (SymbolOf cmd) (pe_router pe) = Some p"
    "router_PartitionFor (SymbolOf cmd) (pe_router pe') = Some p"
    "partitioned_Dispatch cmd pe [] = Some (seq, evs, pe1)" "partitioned_Dispatch cmd pe' [] = Some (seq, evs, pe1')"
    "same_system n pe1 pe1'" by (rule same_system_dispatch [OF Cons.prems])
  from Cons.IH [OF d(5)] d show ?case by auto
qed simp

section \<open>Properties\<close>

text \<open>A running system for the examples: two partitions with resting orders.\<close>

definition ex_running :: partitioned_engine where
  "ex_running = snd (the (partitioned_run ex_cmds ex_partitioned))"

lemma partitioned_reachable_run:
  assumes "partitioned_reachable n pe" "partitioned_run cmds pe = Some (log, pe')"
  shows "partitioned_reachable n pe'"
  using assms
proof (induction cmds arbitrary: pe log)
  case (Cons cmd cmds)
  then obtain seq evs pe1 log1 where "partitioned_Dispatch cmd pe [] = Some (seq, evs, pe1)" "partitioned_run cmds pe1 = Some (log1, pe')"
    by (auto simp: bind_eq_Some_conv)
  with Cons.IH [of pe1] partitioned_reachable.dispatch [OF Cons.prems(1)] show ?case by blast
qed simp

lemma ex_running_reachable: "partitioned_reachable 2 ex_running"
proof -
  obtain log pe where r: "partitioned_run ex_cmds ex_partitioned = Some (log, pe)"
    using partitioned_run_independent [OF partitioned_reachable_inv [OF ex_partitioned_reachable], of ex_cmds] by blast
  from partitioned_reachable_run [OF ex_partitioned_reachable r] r show ?thesis by (simp add: ex_running_def)
qed

lemma ex_running_orders:
  "map (\<lambda>e. map (naive_TotalOrderCount \<circ> snd) (en_books e)) (pe_partitions ex_running) = [[1], [1]]"
  by code_simp

lemma ex_running_fits: "\<forall>e \<in> set (pe_partitions ex_running). partition_fits e"
proof
  fix e assume "e \<in> set (pe_partitions ex_running)"
  then have "map (naive_TotalOrderCount \<circ> snd) (en_books e) \<in> {[1]}"
    using arg_cong [OF ex_running_orders, of set] by auto
  then show "partition_fits e" by (auto simp: map_eq_Cons_conv)
qed

text \<open>
  C31. Snapshot round trip: loading a snapshot of a system gives a consistent system with as many
  partitions, in which every partition has the same symbols, the same resting orders with the
  same priorities and the same next sequence number, and which routes every symbol, registered
  or not, to the same partition. The numbers of partitions, symbols and orders are written as
  32-bit counts and must fit.
\<close>

theorem snapshot_roundtrip:
  assumes "partitioned_reachable n pe" "n < 2 ^ 32" "\<forall>e \<in> set (pe_partitions pe). partition_fits e"
  shows "\<exists>pe'. LoadSnapshot (Some (snapshot_bytes pe)) = Inr pe' \<and> partitioned_inv n pe' \<and>
    (\<forall>i < n. engine_abs (pe_partitions pe' ! i) = engine_abs (pe_partitions pe ! i)) \<and>
    (\<forall>symb. router_PartitionFor symb (pe_router pe') = router_PartitionFor symb (pe_router pe))"
  using load_snapshot_bytes [OF partitioned_reachable_inv [OF assms(1)] assms(2,3)]
    restored_system [OF partitioned_reachable_inv [OF assms(1)] partitioned_reachable_pins [OF assms(1)] refl] by blast

theorem snapshot_roundtrip_witness:
  "\<exists>pe'. LoadSnapshot (Some (snapshot_bytes ex_running)) = Inr pe' \<and> partitioned_inv 2 pe' \<and>
     engine_abs (pe_partitions pe' ! 1) = engine_abs (pe_partitions ex_running ! 1)"
  using snapshot_roundtrip [OF ex_running_reachable _ ex_running_fits] by auto

definition same_shape :: "partitioned_engine \<Rightarrow> partitioned_engine \<Rightarrow> bool" where
  "same_shape pe pe' \<longleftrightarrow> length (pe_partitions pe') = length (pe_partitions pe) \<and>
     sr_partition_count (pe_router pe') = sr_partition_count (pe_router pe)"

lemma same_shape_trans: "same_shape pe pe1 \<Longrightarrow> same_shape pe1 pe2 \<Longrightarrow> same_shape pe pe2"
  by (simp add: same_shape_def)

lemma same_shape_set [simp]: "same_shape pe (partitioned_set p e pe)" "same_shape pe pe"
  by (simp_all add: same_shape_def)

text \<open>A loop is safe when it does not get out of range and keeps the shape of the system.\<close>

definition load_safe :: "partitioned_engine \<Rightarrow> snapshot_error + partitioned_engine \<Rightarrow> bool" where
  "load_safe pe res \<longleftrightarrow> (case res of Inl err \<Rightarrow> err \<noteq> Undefined | Inr pe' \<Rightarrow> same_shape pe pe')"

lemma load_safe_trans: "same_shape pe pe1 \<Longrightarrow> load_safe pe1 res \<Longrightarrow> load_safe pe res"
  by (auto simp: load_safe_def split: sum.splits intro: same_shape_trans)

lemma load_orders_safe:
  assumes "p < length (pe_partitions pe)"
  shows "load_safe pe (map_sum (\<lambda>err. err) snd (load_orders k symb p r pe))"
  using assms
proof (induction k arbitrary: r pe)
  case (Suc k)
  have "load_safe pe (map_sum (\<lambda>err. err) snd (load_orders k symb p r' (partitioned_set p e pe)))" for r' e
    by (rule load_safe_trans [OF same_shape_set(1) Suc.IH]) (use Suc.prems in simp)
  then show ?case
    using Suc.prems by (auto simp: partitioned_Partition_def load_safe_def split: option.splits)
qed (simp add: load_safe_def)

lemma load_symbols_safe:
  assumes "p < length (pe_partitions pe)"
  shows "load_safe pe (map_sum (\<lambda>err. err) snd (load_symbols k p r pe))"
  using assms
proof (induction k arbitrary: r pe)
  case (Suc k)
  show ?case
  proof (cases "do { (symb, r) \<leftarrow> ReadU32 r; (order_count, r) \<leftarrow> ReadU32 r; Some (symb, order_count, r) }")
    case (Some h)
    then obtain symb c r1 where h: "h = (symb, c, r1)" by (metis prod_cases3)
    obtain pe1 where pe1: "partitioned_RegisterSymbolOnPartition symb p pe = Some pe1" "same_shape pe pe1"
      using Suc.prems
      by (simp add: partitioned_RegisterSymbolOnPartition_def partitioned_Partition_def Let_def same_shape_def router_Pin_def)
    with Suc.prems have p1: "p < length (pe_partitions pe1)" by (simp add: same_shape_def)
    note safe = load_safe_trans [OF pe1(2) load_orders_safe [OF p1, of "unat c" symb r1]]
    show ?thesis
    proof (cases "load_orders (unat c) symb p r1 pe1")
      case (Inr x)
      with safe have sh: "same_shape pe (snd x)" by (simp add: load_safe_def)
      with Suc.prems have "load_safe (snd x) (map_sum (\<lambda>err. err) snd (load_symbols k p (fst x) (snd x)))"
        by (intro Suc.IH) (simp add: same_shape_def)
      from load_safe_trans [OF sh this] Some h pe1(1) Inr show ?thesis by (simp add: case_prod_beta)
    qed (use safe Some h pe1(1) in \<open>simp add: load_safe_def\<close>)
  qed (simp add: load_safe_def)
qed (simp add: load_safe_def)

lemma load_partitions_safe:
  assumes "p + k \<le> length (pe_partitions pe)"
  shows "load_safe pe (load_partitions k p r pe)"
  using assms
proof (induction k arbitrary: p r pe)
  case (Suc k)
  have p: "p < length (pe_partitions pe)" using Suc.prems by simp
  show ?case
  proof (cases "do { (next_seq, r) \<leftarrow> ReadU64 r; (symbol_count, r) \<leftarrow> ReadU32 r; Some (next_seq, symbol_count, r) }")
    case (Some h)
    then obtain seq c r1 where h: "h = (seq, c, r1)" by (metis prod_cases3)
    note safe = load_symbols_safe [OF p, of "unat c" r1]
    show ?thesis
    proof (cases "load_symbols (unat c) p r1 pe")
      case (Inr x)
      let ?pe = "partitioned_set p (engine_SetNextSequenceNumber seq (pe_partitions (snd x) ! p)) (snd x)"
      from Inr safe have sh: "same_shape pe (snd x)" by (simp add: load_safe_def)
      have "load_safe ?pe (load_partitions k (Suc p) (fst x) ?pe)"
        using Suc.prems sh by (intro Suc.IH) (simp add: same_shape_def)
      from load_safe_trans [OF same_shape_trans [OF sh same_shape_set(1)] this] Some h Inr p sh show ?thesis
        by (simp add: case_prod_beta partitioned_Partition_def same_shape_def)
    qed (use safe Some h in \<open>simp add: load_safe_def\<close>)
  qed (simp add: load_safe_def)
qed (simp add: load_safe_def)

text \<open>
  Loading never leaves the vector of partitions, whatever the bytes of the file: every
  malformed file ends in one of the reported errors, and a loaded system has the number of
  partitions its header declares.
\<close>

lemma load_never_out_of_range:
  "case LoadSnapshot file of
     Inl err \<Rightarrow> err \<noteq> Undefined
   | Inr pe \<Rightarrow> sr_partition_count (pe_router pe) = partitioned_PartitionCount pe"
proof -
  have part: "case load_partitions k 0 r (partitioned_new k) of
      Inl err \<Rightarrow> err \<noteq> Undefined | Inr pe \<Rightarrow> sr_partition_count (pe_router pe) = partitioned_PartitionCount pe" for k r
  proof -
    have "load_safe (partitioned_new k) (load_partitions k 0 r (partitioned_new k))"
      by (rule load_partitions_safe) (simp add: partitioned_new_def)
    then show ?thesis
      by (cases "load_partitions k 0 r (partitioned_new k)")
        (auto simp: load_safe_def same_shape_def partitioned_PartitionCount_def, simp add: partitioned_new_def router_new_def)
  qed
  show ?thesis using part by (auto simp: LoadSnapshot_def split: option.split)
qed

end
