(* ===== verification/Server_Invariant.thy ===== *)
theory Server_Invariant
  imports Gateway_Server
begin

text \<open>
  The invariant of the server of \<open>Gateway_Server\<close> under every interleaving of its threads, part by
  part: engine, journal, publisher, sessions, listener and snapshot. Each part has lemmas for the
  steps that touch it; \<open>server_reachable_inv\<close> puts them together.
\<close>

section \<open>Invariant\<close>

abbreviation log_cmds :: "(nat \<times> command \<times> event list) list \<Rightarrow> command list" where
  "log_cmds L \<equiv> map (fst \<circ> snd) L"

definition session_cmds :: "nat \<Rightarrow> (nat \<times> command \<times> event list) list \<Rightarrow> command list" where
  "session_cmds i L = log_cmds (filter (\<lambda>x. fst x = i) L)"

definition session_events :: "nat \<Rightarrow> (nat \<times> command \<times> event list) list \<Rightarrow> event list" where
  "session_events i L = concat (map (snd \<circ> snd) (filter (\<lambda>x. fst x = i) L))"

text \<open>What the main thread has in hand: a popped command, one already offered to the journal, events to send.\<close>

fun popped_cmd :: "main_pc \<Rightarrow> nat \<Rightarrow> command list" where
  "popped_cmd (MAppend j cmd rest) i = (if j = i then [cmd] else [])"
| "popped_cmd (MDispatch j cmd rest) i = (if j = i then [cmd] else [])"
| "popped_cmd pc i = []"

fun offered_cmd :: "main_pc \<Rightarrow> command list" where
  "offered_cmd (MDispatch j cmd rest) = [cmd]"
| "offered_cmd pc = []"

fun pending_events :: "main_pc \<Rightarrow> nat \<Rightarrow> event list" where
  "pending_events (MPublish j events rest) i = (if j = i then events else [])"
| "pending_events (MReply j e events rest) i = (if j = i then e # events else [])"
| "pending_events pc i = []"

fun pc_sessions :: "main_pc \<Rightarrow> nat set" where
  "pc_sessions (MPoll rest) = set rest"
| "pc_sessions (MAppend j cmd rest) = insert j (set rest)"
| "pc_sessions (MDispatch j cmd rest) = insert j (set rest)"
| "pc_sessions (MPublish j events rest) = insert j (set rest)"
| "pc_sessions (MReply j e events rest) = insert j (set rest)"
| "pc_sessions pc = {}"

definition engine_part :: "nat \<Rightarrow> partitioned_engine \<Rightarrow> (nat \<times> command \<times> event list) list \<Rightarrow> partitioned_engine \<Rightarrow> bool" where
  "engine_part n pe0 L pe \<longleftrightarrow> partitioned_reachable n pe \<and>
     (\<exists>plog. partitioned_run (log_cmds L) pe0 = Some (plog, pe) \<and> map snd plog = map (snd \<circ> snd) L)"

definition journal_part where
  "journal_part deliver w0 pc cmds J lost w \<longleftrightarrow>
     worker_history deliver w0 J lost w \<and> (wk_running w \<or> pc \<in> {MJoinJournal, MExit}) \<and>
     subseq J (cmds @ offered_cmd pc) \<and> length J + lost = length (cmds @ offered_cmd pc) \<and>
     (pc = MExit \<longrightarrow> wk_pc w = Finished)"

definition market_part where
  "market_part w0 pc w \<longleftrightarrow>
     (\<exists>xs k. worker_history (\<lambda>e sink. Some sink) w0 xs k w) \<and>
     (wk_running w \<or> pc \<in> {MJoinMarket, MStopJournal, MJoinJournal, MExit})"

definition session_part :: "command \<Rightarrow> main_pc \<Rightarrow> (nat \<times> command \<times> event list) list \<Rightarrow> nat \<Rightarrow> session \<Rightarrow> bool" where
  "session_part d pc L i s \<longleftrightarrow>
     (\<exists>sock sid s0. GatewaySession_new d sock sid 4096 4096 = Inr s0 \<and> session_reachable s0 s) \<and>
     gs_popped s = session_cmds i L @ popped_cmd pc i \<and>
     (\<exists>out. subseq (gs_offered s) (map EncodeEvent out) \<and> out @ pending_events pc i = session_events i L)"

definition sessions_part :: "command \<Rightarrow> main_pc \<Rightarrow> (nat \<times> command \<times> event list) list \<Rightarrow> session list \<Rightarrow> bool" where
  "sessions_part d pc L ss \<longleftrightarrow>
     (\<forall>i < length ss. session_part d pc L i (ss ! i)) \<and> fst ` set L \<subseteq> {..<length ss} \<and> pc_sessions pc \<subseteq> {..<length ss}"

definition gateway_part :: "tcp_gateway \<Rightarrow> kernel \<Rightarrow> bool" where
  "gateway_part g K \<longleftrightarrow> ts_fd (tl_socket (tg_listener g)) < 0 \<or> ts_fd (tl_socket (tg_listener g)) \<in> k_open K"

definition snapshot_part :: "main_pc \<Rightarrow> partitioned_engine \<Rightarrow> bytes option \<Rightarrow> bool" where
  "snapshot_part pc pe data \<longleftrightarrow>
     (pc \<in> {MStopGateway, MCloseListener, MJoinGateway, MStopMarket, MJoinMarket, MStopJournal, MJoinJournal, MExit} \<longrightarrow>
      data = Some (snapshot_bytes pe))"

definition server_inv ::
  "command \<Rightarrow> (command \<Rightarrow> int list) \<Rightarrow> (command \<Rightarrow> bool) \<Rightarrow> nat \<Rightarrow> server \<Rightarrow> server \<Rightarrow> bool" where
  "server_inv d answers fsync_ok n sv0 sv \<longleftrightarrow>
     sv_writer sv = sv_writer sv0 \<and>
     engine_part n (sv_engine sv0) (sv_log sv) (sv_engine sv) \<and>
     journal_part (journal_deliver (sv_writer sv0) answers fsync_ok) (sv_journal sv0) (sv_main sv) (log_cmds (sv_log sv))
       (sv_journaled sv) (sv_lost sv) (sv_journal sv) \<and>
     market_part (sv_market sv0) (sv_main sv) (sv_market sv) \<and>
     sessions_part d (sv_main sv) (sv_log sv) (sv_sessions sv) \<and>
     gateway_part (sv_gateway sv) (sv_kernel sv) \<and>
     snapshot_part (sv_main sv) (sv_engine sv) (sv_snapshot sv)"

text \<open>The parts under the steps that touch them.\<close>

lemma session_log_snoc [simp]:
  "session_cmds i (L @ [(j, cmd, evs)]) = session_cmds i L @ (if j = i then [cmd] else [])"
  "session_events i (L @ [(j, cmd, evs)]) = session_events i L @ (if j = i then evs else [])"
  by (simp_all add: session_cmds_def session_events_def)

lemma partitioned_run_snoc:
  assumes "partitioned_run cmds pe = Some (log, pe1)" "partitioned_Dispatch cmd pe1 [] = Some (seq, evs, pe2)"
  shows "\<exists>p. partitioned_run (cmds @ [cmd]) pe = Some (log @ [(p, evs)], pe2)"
  using assms
proof (induction cmds arbitrary: pe log)
  case Nil
  then show ?case by (auto simp: partitioned_Dispatch_def bind_eq_Some_conv)
next
  case (Cons c cmds)
  then show ?case by (fastforce simp: bind_eq_Some_conv)
qed

lemma engine_part_dispatch:
  assumes "engine_part n pe0 L pe" "partitioned_Dispatch cmd pe [] = Some (seq, evs, pe')"
  shows "engine_part n pe0 (L @ [(i, cmd, evs)]) pe'"
  using assms partitioned_run_snoc [of "log_cmds L" pe0 _ pe cmd seq evs pe'] partitioned_reachable.dispatch [of n pe cmd "[]" seq evs pe']
  by (fastforce simp: engine_part_def)

lemma dispatch_defined:
  assumes "engine_part n pe0 L pe"
  shows "\<exists>seq evs pe'. partitioned_Dispatch cmd pe [] = Some (seq, evs, pe')"
proof -
  have inv: "partitioned_inv n pe" using assms partitioned_reachable_inv by (simp add: engine_part_def)
  obtain p where "router_PartitionFor (SymbolOf cmd) (pe_router pe) = Some p"
    by (rule router_routes [OF partitioned_invD(1) [OF inv]])
  from partitioned_dispatch_total [OF inv this, of "[]"] show ?thesis by blast
qed

lemma worker_append_running: "worker_TryAppend x w = Some (ok, w') \<Longrightarrow> wk_running w' = wk_running w"
  by (auto simp: worker_TryAppend_def bind_eq_Some_conv)

lemma worker_run_running:
  "worker_Run_step deliver w = Some w' \<Longrightarrow> wk_running w' = wk_running w \<and> (wk_pc w = Finished \<longrightarrow> w' = w)"
  by (auto simp: worker_Run_step_def worker_pop_def bind_eq_Some_conv split: worker_pc.splits option.splits if_splits)

lemma worker_append_defined:
  assumes "fresh_worker w0" "worker_history deliver w0 xs k w"
  shows "\<exists>ok w'. worker_TryAppend x w = Some (ok, w')"
proof -
  have "spsc_inv (wk_queue w)" using worker_history_inv [OF assms] by (simp add: worker_inv_def)
  from spsc.push_law [OF this, of x] show ?thesis by (auto simp: worker_TryAppend_def)
qed

lemma journal_part_append:
  assumes part: "journal_part deliver w0 (MAppend i cmd rest) cmds J lost w" and app: "worker_TryAppend cmd w = Some (ok, w')"
  shows "journal_part deliver w0 (MDispatch i cmd rest) cmds (if ok then J @ [cmd] else J) (if ok then lost else Suc lost) w'"
proof -
  have h: "worker_history deliver w0 J lost w" "wk_running w" "subseq J cmds" "length J + lost = length cmds"
    using part by (simp_all add: journal_part_def)
  from worker_history.append [OF h(1,2) app] worker_append_running [OF app] h show ?thesis
    by (cases ok) (auto simp: journal_part_def intro: subseq_order.order_trans [OF h(3)])
qed

lemma journal_part_dispatch:
  "journal_part deliver w0 (MDispatch i cmd rest) cmds J lost w \<Longrightarrow>
   journal_part deliver w0 (MPublish i evs rest) (cmds @ [cmd]) J lost w"
  by (simp add: journal_part_def)

lemma journal_part_quiet:
  "journal_part deliver w0 pc cmds J lost w \<Longrightarrow> offered_cmd pc = [] \<Longrightarrow> offered_cmd pc' = [] \<Longrightarrow>
   pc \<notin> {MJoinJournal, MExit} \<Longrightarrow> pc' \<noteq> MExit \<Longrightarrow> journal_part deliver w0 pc' cmds J lost w"
  by (simp add: journal_part_def)

lemma journal_part_stop:
  "journal_part deliver w0 MStopJournal cmds J lost w \<Longrightarrow> journal_part deliver w0 MJoinJournal cmds J lost (worker_Stop w)"
  by (simp add: journal_part_def worker_history.stop)

lemma journal_part_exit:
  "journal_part deliver w0 MJoinJournal cmds J lost w \<Longrightarrow> wk_pc w = Finished \<Longrightarrow> journal_part deliver w0 MExit cmds J lost w"
  by (simp add: journal_part_def)

lemma journal_part_run:
  "journal_part deliver w0 pc cmds J lost w \<Longrightarrow> worker_Run_step deliver w = Some w' \<Longrightarrow> journal_part deliver w0 pc cmds J lost w'"
  using worker_run_running [of deliver w w'] by (auto simp: journal_part_def intro: worker_history.run)

lemma market_part_quiet:
  "market_part w0 pc w \<Longrightarrow> pc \<notin> {MJoinMarket, MStopJournal, MJoinJournal, MExit} \<or>
     pc' \<in> {MJoinMarket, MStopJournal, MJoinJournal, MExit} \<Longrightarrow> market_part w0 pc' w"
  by (auto simp: market_part_def)

lemma market_part_publish:
  assumes part: "market_part w0 (MPublish i es rest) w" and app: "MarketDataPublisher_Publish e w = Some (ok, w')"
  shows "market_part w0 (MReply i e es' rest) w'"
proof -
  obtain xs k where h: "worker_history (\<lambda>e sink. Some sink) w0 xs k w" "wk_running w" using part by (auto simp: market_part_def)
  from app have app': "worker_TryAppend e w = Some (ok, w')" by (simp add: Publish_is_append)
  from worker_history.append [OF h app'] worker_append_running [OF app'] h(2) show ?thesis by (auto simp: market_part_def)
qed

lemma market_part_stop: "market_part w0 pc w \<Longrightarrow> market_part w0 MJoinMarket (worker_Stop w)"
  by (auto simp: market_part_def intro: worker_history.stop)

lemma market_part_run:
  "market_part w0 pc w \<Longrightarrow> worker_Run_step (\<lambda>e sink. Some sink) w = Some w' \<Longrightarrow> market_part w0 pc w'"
  using worker_run_running [of "\<lambda>e sink. Some sink" w w'] by (auto simp: market_part_def intro: worker_history.run)

text \<open>A session under its own threads, and the vector of sessions under a change of one.\<close>

lemma session_part_thread:
  assumes "session_part d pc L i s" "ReaderLoop_step recv s = Some s' \<or> WriterLoop_step answer s = Some s'"
  shows "session_part d pc L i s'"
proof -
  have "gs_popped s' = gs_popped s" "gs_offered s' = gs_offered s"
    using assms(2) reader_step_frame [of recv s s'] writer_step_frame [of answer s s'] by auto
  moreover have "session_reachable s0 s'" if "session_reachable s0 s" for s0
    using assms(2) that by (auto intro: session_reachable.reader session_reachable.writer)
  ultimately show ?thesis using assms(1) unfolding session_part_def by metis
qed

lemma sessions_part_update:
  assumes "sessions_part d pc L ss" "i < length ss" "session_part d pc' L' i s"
    and "\<And>j. j < length ss \<Longrightarrow> j \<noteq> i \<Longrightarrow> session_part d pc L j (ss ! j) \<Longrightarrow> session_part d pc' L' j (ss ! j)"
    and "fst ` set L' \<subseteq> insert i (fst ` set L)" "pc_sessions pc' \<subseteq> insert i (pc_sessions pc)"
  shows "sessions_part d pc' L' (ss[i := s])"
  using assms by (fastforce simp: sessions_part_def nth_list_update)

lemma sessions_part_quiet:
  assumes "sessions_part d pc L ss" "popped_cmd pc' = popped_cmd pc" "pending_events pc' = pending_events pc"
    "pc_sessions pc' \<subseteq> {..<length ss}"
  shows "sessions_part d pc' L ss"
  using assms by (auto simp: sessions_part_def session_part_def)

lemma session_index_new:
  assumes "fst ` set L \<subseteq> {..<k}" "pc_sessions pc \<subseteq> {..<k}"
  shows "session_cmds k L = []" "session_events k L = []" "popped_cmd pc k = []" "pending_events pc k = []"
proof -
  have "filter (\<lambda>x. fst x = k) L = []" using assms(1) by (auto simp: filter_empty_conv)
  then show "session_cmds k L = []" "session_events k L = []" by (simp_all add: session_cmds_def session_events_def)
  show "popped_cmd pc k = []" "pending_events pc k = []" using assms(2) by (cases pc; auto)+
qed

lemma sessions_part_new:
  assumes "sessions_part d pc L ss" "GatewaySession_new d sock sid 4096 4096 = Inr s0"
  shows "sessions_part d pc L (ss @ [session_Start s0])"
proof -
  note new = session_index_new [of L "length ss" pc]
  have "gs_popped s0 = [] \<and> gs_offered s0 = []" using assms(2) by (auto simp: GatewaySession_new_def split: sum.splits)
  then have "session_part d pc L (length ss) (session_Start s0)"
    using assms new unfolding session_part_def sessions_part_def by (auto simp: session_Start_def intro: session_reachable.start [unfolded session_Start_def])
  with assms(1) show ?thesis by (auto simp: sessions_part_def nth_append less_Suc_eq)
qed

lemma session_part_pop:
  assumes part: "session_part d (MPoll (i # rest)) L i s" and pop: "session_TryPopInbound s = Some (out, s')"
  shows "session_part d (case out of None \<Rightarrow> MPoll rest | Some cmd \<Rightarrow> MAppend i cmd rest) L i s'"
proof -
  have "gs_popped s' = gs_popped s @ (case out of None \<Rightarrow> [] | Some c \<Rightarrow> [c])" "gs_offered s' = gs_offered s"
    using pop by (auto simp: session_TryPopInbound_def bind_eq_Some_conv)
  moreover have "session_reachable s0 s'" if "session_reachable s0 s" for s0
    by (rule session_reachable.engine_pop [OF that pop])
  ultimately show ?thesis using part unfolding session_part_def by (cases out) auto
qed

lemma session_part_reply:
  assumes part: "session_part d (MReply i e es rest) L i s" and push: "session_TryPushOutbound (EncodeEvent e) s = Some (ok, s')"
  shows "session_part d (MPublish i es rest) L i s'"
proof -
  have s': "gs_popped s' = gs_popped s" "gs_offered s' = (if ok then gs_offered s @ [EncodeEvent e] else gs_offered s)"
    using push by (auto simp: session_TryPushOutbound_def bind_eq_Some_conv)
  from part obtain out where out: "subseq (gs_offered s) (map EncodeEvent out)" "out @ e # es = session_events i L"
    by (auto simp: session_part_def)
  have "subseq (gs_offered s') (map EncodeEvent (out @ [e]))"
    using out(1) by (auto simp: s'(2) intro: subseq_order.order_trans [OF out(1)])
  moreover have "(out @ [e]) @ es = session_events i L" using out(2) by simp
  moreover have "session_reachable s0 s'" if "session_reachable s0 s" for s0
    by (rule session_reachable.engine_push [OF that push])
  moreover have "gs_popped s' = session_cmds i L @ popped_cmd (MPublish i es rest) i" "pending_events (MPublish i es rest) i = es"
    using part s'(1) by (simp_all add: session_part_def)
  ultimately show ?thesis using part unfolding session_part_def by metis
qed

lemma session_part_dispatch:
  "session_part d (MDispatch i cmd rest) L j s \<Longrightarrow> session_part d (MPublish i evs rest) (L @ [(i, cmd, evs)]) j s"
  unfolding session_part_def by auto

lemma sessions_part_dispatch:
  "sessions_part d (MDispatch i cmd rest) L ss \<Longrightarrow> sessions_part d (MPublish i evs rest) (L @ [(i, cmd, evs)]) ss"
  unfolding sessions_part_def using session_part_dispatch by auto

lemma session_part_other:
  "session_part d pc L j s \<Longrightarrow> popped_cmd pc' j = popped_cmd pc j \<Longrightarrow> pending_events pc' j = pending_events pc j \<Longrightarrow>
   session_part d pc' L j s"
  by (simp add: session_part_def)

lemma sessions_part_pop:
  assumes part: "sessions_part d (MPoll (i # rest)) L ss" and pop: "session_TryPopInbound (ss ! i) = Some (out, s')"
  shows "sessions_part d (case out of None \<Rightarrow> MPoll rest | Some cmd \<Rightarrow> MAppend i cmd rest) L (ss[i := s'])"
proof (rule sessions_part_update [OF part])
  show i: "i < length ss" using part by (simp add: sessions_part_def)
  show "session_part d (case out of None \<Rightarrow> MPoll rest | Some cmd \<Rightarrow> MAppend i cmd rest) L i s'"
    using part i by (intro session_part_pop [OF _ pop]) (simp add: sessions_part_def)
qed (auto split: option.splits intro: session_part_other)

lemma sessions_part_reply:
  assumes part: "sessions_part d (MReply i e es rest) L ss" and push: "session_TryPushOutbound (EncodeEvent e) (ss ! i) = Some (ok, s')"
  shows "sessions_part d (MPublish i es rest) L (ss[i := s'])"
proof (rule sessions_part_update [OF part])
  show i: "i < length ss" using part by (simp add: sessions_part_def)
  show "session_part d (MPublish i es rest) L i s'"
    using part i by (intro session_part_reply [OF _ push]) (simp add: sessions_part_def)
qed (auto intro: session_part_other)

lemma session_queues_defined:
  assumes "session_part d pc L i s"
  shows "\<exists>out s'. session_TryPopInbound s = Some (out, s')" "\<exists>ok s'. session_TryPushOutbound body s = Some (ok, s')"
proof -
  have "reader_inv s \<and> writer_inv s" using assms session_reachable_inv by (auto simp: session_part_def)
  then have "spsc_inv (gs_inbound s)" "spsc_inv (gs_outbound s)" by (simp_all add: reader_inv_def writer_inv_def)
  from spsc.pop_law [OF this(1)] spsc.push_law [OF this(2), of body]
  show "\<exists>out s'. session_TryPopInbound s = Some (out, s')" "\<exists>ok s'. session_TryPushOutbound body s = Some (ok, s')"
    by (auto simp: session_TryPopInbound_def session_TryPushOutbound_def)
qed

lemma gateway_part_close:
  assumes "gateway_part g K"
  shows "\<exists>g' K'. gateway_Stop_close g K = Some (g', K') \<and> gateway_part g' K'"
  using assms by (auto simp: gateway_part_def gateway_Stop_close_def listener_Close_def socket_Close_def os_close_def)

lemma gateway_part_accept:
  assumes "gateway_part g K" "AcceptLoop_step d answer g K = Some (new, g', K')"
  shows "gateway_part g' K'"
  using assms
  by (auto simp: gateway_part_def AcceptLoop_step_def listener_Accept_def Let_def kernel_simps
      split: accept_pc.splits if_splits sum.splits)

lemma WriteSnapshot_data: "WriteSnapshot open_ok write_ok pe = Inr data \<Longrightarrow> data = snapshot_bytes pe"
  by (auto simp: WriteSnapshot_def split: if_splits)

section \<open>Preservation\<close>

lemma server_invD:
  assumes "server_inv d answers fsync_ok n sv0 sv"
  shows "sv_writer sv = sv_writer sv0" "engine_part n (sv_engine sv0) (sv_log sv) (sv_engine sv)"
    "journal_part (journal_deliver (sv_writer sv0) answers fsync_ok) (sv_journal sv0) (sv_main sv) (log_cmds (sv_log sv))
       (sv_journaled sv) (sv_lost sv) (sv_journal sv)"
    "market_part (sv_market sv0) (sv_main sv) (sv_market sv)" "sessions_part d (sv_main sv) (sv_log sv) (sv_sessions sv)"
    "gateway_part (sv_gateway sv) (sv_kernel sv)" "snapshot_part (sv_main sv) (sv_engine sv) (sv_snapshot sv)"
  using assms by (simp_all add: server_inv_def)

text \<open>A state in which the main thread is before the calls that stop the workers.\<close>

definition serving :: "main_pc \<Rightarrow> bool" where
  "serving pc \<longleftrightarrow> pc \<notin> {MStopGateway, MCloseListener, MJoinGateway, MStopMarket, MJoinMarket, MStopJournal, MJoinJournal, MExit}"

lemma serving_simps [simp]:
  "serving MLoop" "serving (MPoll idx)" "serving (MAppend i cmd idx)" "serving (MDispatch i cmd idx)" "serving (MPublish i es idx)"
  "serving (MReply i e es idx)" "serving MSnapshot" "serving MAborted"
  by (simp_all add: serving_def)

lemma serving_snapshot: "serving pc \<Longrightarrow> snapshot_part pc pe data"
  by (simp add: serving_def snapshot_part_def)

lemma serving_market: "market_part w0 pc w \<Longrightarrow> serving pc \<Longrightarrow> market_part w0 pc' w"
  by (rule market_part_quiet) (auto simp: serving_def)

lemma serving_journal:
  "journal_part deliver w0 pc cmds J lost w \<Longrightarrow> serving pc \<Longrightarrow> serving pc' \<Longrightarrow> offered_cmd pc = [] \<Longrightarrow> offered_cmd pc' = [] \<Longrightarrow>
   journal_part deliver w0 pc' cmds J lost w"
  by (rule journal_part_quiet) (auto simp: serving_def)

lemma server_inv_pc:
  assumes inv: "server_inv d answers fsync_ok n sv0 sv"
    and "offered_cmd (sv_main sv) = []" "offered_cmd pc' = []" "popped_cmd pc' = popped_cmd (sv_main sv)"
      "pending_events pc' = pending_events (sv_main sv)" "pc_sessions pc' \<subseteq> {..<length (sv_sessions sv)}"
    and "sv_main sv \<notin> {MJoinJournal, MExit}" "pc' \<noteq> MExit"
    and "sv_main sv \<notin> {MJoinMarket, MStopJournal, MJoinJournal, MExit} \<or> pc' \<in> {MJoinMarket, MStopJournal, MJoinJournal, MExit}"
    and "snapshot_part pc' (sv_engine sv) (sv_snapshot sv)"
  shows "server_inv d answers fsync_ok n sv0 (sv\<lparr>sv_main := pc'\<rparr>)"
  using server_invD [OF inv] assms(10) journal_part_quiet [OF server_invD(3) [OF inv] assms(2,3,7,8)]
    market_part_quiet [OF server_invD(4) [OF inv] assms(9)] sessions_part_quiet [OF server_invD(5) [OF inv] assms(4-6)]
  unfolding server_inv_def by simp

lemma main_poll_inv:
  assumes inv: "server_inv d answers fsync_ok n sv0 sv" and step: "main_step open_ok write_ok sv = Some sv'"
    and pc: "sv_main sv = MPoll (i # rest)"
  shows "server_inv d answers fsync_ok n sv0 sv'"
proof -
  note I = server_invD [OF inv, unfolded pc]
  from step pc obtain out s where pop: "session_TryPopInbound (sv_sessions sv ! i) = Some (out, s)"
    and sv': "sv' = sv\<lparr>sv_sessions := (sv_sessions sv)[i := s],
      sv_main := (case out of None \<Rightarrow> MPoll rest | Some cmd \<Rightarrow> MAppend i cmd rest)\<rparr>"
    by (auto simp: main_step_def bind_eq_Some_conv split: if_splits)
  let ?pc = "case out of None \<Rightarrow> MPoll rest | Some cmd \<Rightarrow> MAppend i cmd rest"
  have q: "offered_cmd ?pc = []" "serving ?pc" by (simp_all split: option.split)
  show ?thesis
    using I(1,2,6) sessions_part_pop [OF I(5) pop] serving_journal [OF I(3) _ q(2) _ q(1)] serving_market [OF I(4), of ?pc]
      serving_snapshot [OF q(2), of "sv_engine sv" "sv_snapshot sv"]
    unfolding server_inv_def sv' by simp
qed

lemma main_append_inv:
  assumes inv: "server_inv d answers fsync_ok n sv0 sv" and step: "main_step open_ok write_ok sv = Some sv'"
    and pc: "sv_main sv = MAppend i cmd rest"
  shows "server_inv d answers fsync_ok n sv0 sv'"
proof -
  note I = server_invD [OF inv, unfolded pc]
  from step pc obtain ok w where app: "worker_TryAppend cmd (sv_journal sv) = Some (ok, w)"
    and sv': "sv' = sv\<lparr>sv_journal := w, sv_journaled := (if ok then sv_journaled sv @ [cmd] else sv_journaled sv),
      sv_lost := (if ok then sv_lost sv else Suc (sv_lost sv)), sv_main := MDispatch i cmd rest\<rparr>"
    by (auto simp: main_step_def bind_eq_Some_conv)
  have s: "sessions_part d (MDispatch i cmd rest) (sv_log sv) (sv_sessions sv)"
    using I(5) by (intro sessions_part_quiet [OF I(5)]) (auto simp: fun_eq_iff sessions_part_def)
  show ?thesis
    using I(1,2,6) s journal_part_append [OF I(3) app] serving_market [OF I(4), of "MDispatch i cmd rest"]
      serving_snapshot [of "MDispatch i cmd rest" "sv_engine sv" "sv_snapshot sv"]
    unfolding server_inv_def sv' by (cases ok) simp_all
qed

lemma main_dispatch_inv:
  assumes inv: "server_inv d answers fsync_ok n sv0 sv" and step: "main_step open_ok write_ok sv = Some sv'"
    and pc: "sv_main sv = MDispatch i cmd rest"
  shows "server_inv d answers fsync_ok n sv0 sv'"
proof -
  note I = server_invD [OF inv, unfolded pc]
  from step pc obtain seq evs pe where run: "partitioned_Dispatch cmd (sv_engine sv) [] = Some (seq, evs, pe)"
    and sv': "sv' = sv\<lparr>sv_engine := pe, sv_log := sv_log sv @ [(i, cmd, evs)], sv_main := MPublish i evs rest\<rparr>"
    by (auto simp: main_step_def bind_eq_Some_conv)
  show ?thesis
    using I(1,6) engine_part_dispatch [OF I(2) run, of i] journal_part_dispatch [OF I(3), of evs] sessions_part_dispatch [OF I(5), of evs]
      serving_market [OF I(4), of "MPublish i evs rest"] serving_snapshot [of "MPublish i evs rest" pe "sv_snapshot sv"]
    unfolding server_inv_def sv' by simp
qed

lemma main_publish_inv:
  assumes inv: "server_inv d answers fsync_ok n sv0 sv" and step: "main_step open_ok write_ok sv = Some sv'"
    and pc: "sv_main sv = MPublish i (e # es) rest"
  shows "server_inv d answers fsync_ok n sv0 sv'"
proof -
  note I = server_invD [OF inv, unfolded pc]
  from step pc obtain ok w where app: "MarketDataPublisher_Publish e (sv_market sv) = Some (ok, w)"
    and sv': "sv' = sv\<lparr>sv_market := w, sv_main := MReply i e es rest\<rparr>" by (auto simp: main_step_def bind_eq_Some_conv)
  have s: "sessions_part d (MReply i e es rest) (sv_log sv) (sv_sessions sv)"
    using I(5) by (intro sessions_part_quiet [OF I(5)]) (auto simp: fun_eq_iff sessions_part_def)
  show ?thesis
    using I(1,2,6) s serving_journal [OF I(3), of "MReply i e es rest"] market_part_publish [OF I(4) app, of es]
      serving_snapshot [of "MReply i e es rest" "sv_engine sv" "sv_snapshot sv"]
    unfolding server_inv_def sv' by simp
qed

lemma main_reply_inv:
  assumes inv: "server_inv d answers fsync_ok n sv0 sv" and step: "main_step open_ok write_ok sv = Some sv'"
    and pc: "sv_main sv = MReply i e es rest"
  shows "server_inv d answers fsync_ok n sv0 sv'"
proof -
  note I = server_invD [OF inv, unfolded pc]
  from step pc obtain ok s where push: "session_TryPushOutbound (EncodeEvent e) (sv_sessions sv ! i) = Some (ok, s)"
    and sv': "sv' = sv\<lparr>sv_sessions := (sv_sessions sv)[i := s], sv_main := MPublish i es rest\<rparr>"
    by (auto simp: main_step_def bind_eq_Some_conv split: if_splits)
  show ?thesis
    using I(1,2,6) serving_journal [OF I(3), of "MPublish i es rest"] sessions_part_reply [OF I(5) push]
      serving_market [OF I(4), of "MPublish i es rest"] serving_snapshot [of "MPublish i es rest" "sv_engine sv" "sv_snapshot sv"]
    unfolding server_inv_def sv' by simp
qed

text \<open>The calls after the loop.\<close>

lemma main_snapshot_inv:
  assumes inv: "server_inv d answers fsync_ok n sv0 sv" and step: "main_step open_ok write_ok sv = Some sv'"
    and pc: "sv_main sv = MSnapshot"
  shows "server_inv d answers fsync_ok n sv0 sv'"
proof (cases "WriteSnapshot open_ok write_ok (sv_engine sv)")
  case (Inl err)
  with pc step have sv': "sv' = sv\<lparr>sv_main := MAborted\<rparr>" by (simp add: main_step_def)
  show ?thesis unfolding sv' by (rule server_inv_pc [OF inv]) (simp_all add: pc snapshot_part_def fun_eq_iff)
next
  case (Inr data)
  let ?sv = "sv\<lparr>sv_snapshot := Some data\<rparr>"
  have sv': "sv' = ?sv\<lparr>sv_main := MStopGateway\<rparr>" using pc step Inr by (simp add: main_step_def)
  have "server_inv d answers fsync_ok n sv0 ?sv"
    using server_invD [OF inv] serving_snapshot [of MSnapshot] unfolding server_inv_def by (simp add: pc)
  then show ?thesis unfolding sv'
    by (rule server_inv_pc) (simp_all add: pc snapshot_part_def fun_eq_iff WriteSnapshot_data [OF Inr])
qed

lemma stopping_pc:
  assumes "\<not> serving pc"
  shows "offered_cmd pc = []" "popped_cmd pc = (\<lambda>_. [])" "pending_events pc = (\<lambda>_. [])" "pc_sessions pc = {}"
  using assms by (cases pc; simp add: fun_eq_iff)+

lemma server_inv_gateway:
  assumes inv: "server_inv d answers fsync_ok n sv0 sv" and "gateway_part g K"
  shows "server_inv d answers fsync_ok n sv0 (sv\<lparr>sv_gateway := g, sv_kernel := K\<rparr>)"
  using server_invD [OF inv] assms(2) unfolding server_inv_def by simp

lemma main_gateway_inv:
  assumes inv: "server_inv d answers fsync_ok n sv0 sv" and step: "main_step open_ok write_ok sv = Some sv'"
    and pc: "sv_main sv \<in> {MStopGateway, MCloseListener, MJoinGateway}"
  shows "server_inv d answers fsync_ok n sv0 sv'"
proof -
  have next_pc: "server_inv d answers fsync_ok n sv0 (sv\<lparr>sv_gateway := g, sv_kernel := K\<rparr>\<lparr>sv_main := pc'\<rparr>)"
    if "gateway_part g K" "pc' \<in> {MCloseListener, MJoinGateway, MStopMarket}" for g K pc'
  proof -
    have "\<not> serving (sv_main sv)" "\<not> serving pc'" using pc that(2) by (auto simp: serving_def)
    note quiet = stopping_pc [OF this(1)] stopping_pc [OF this(2)]
    have "sv_main sv \<notin> {MJoinMarket, MStopJournal, MJoinJournal, MExit}" "pc' \<noteq> MExit" using pc that(2) by auto
    moreover have "snapshot_part pc' (sv_engine sv) (sv_snapshot sv)" using server_invD(7) [OF inv] pc by (auto simp: snapshot_part_def)
    ultimately show ?thesis by (intro server_inv_pc [OF server_inv_gateway [OF inv that(1)]]) (simp_all add: quiet)
  qed
  consider "sv_main sv = MStopGateway" | "sv_main sv = MCloseListener" | "sv_main sv = MJoinGateway" "tg_pc (sv_gateway sv) = ADone"
    | "sv' = sv"
    using pc step by (auto simp: main_step_def split: if_splits)
  then show ?thesis
  proof cases
    case 1
    have "gateway_part (sv_gateway sv\<lparr>tg_stopped := True\<rparr>) (sv_kernel sv)" using server_invD(6) [OF inv] by (simp add: gateway_part_def)
    from next_pc [OF this, of "sv_main sv'"] 1 step show ?thesis
      by (cases "tg_stopped (sv_gateway sv)") (auto simp: main_step_def gateway_Stop_flag_def)
  next
    case 2
    from gateway_part_close [OF server_invD(6) [OF inv]] obtain g K where
      "gateway_Stop_close (sv_gateway sv) (sv_kernel sv) = Some (g, K)" "gateway_part g K" by blast
    with next_pc [of g K MJoinGateway] 2 step show ?thesis by (simp add: main_step_def)
  next
    case 3
    with next_pc [OF server_invD(6) [OF inv], of MStopMarket] step show ?thesis by (simp add: main_step_def)
  next
    case 4
    with inv show ?thesis by simp
  qed
qed

lemma main_workers_inv:
  assumes inv: "server_inv d answers fsync_ok n sv0 sv" and step: "main_step open_ok write_ok sv = Some sv'"
    and pc: "sv_main sv \<in> {MStopMarket, MJoinMarket, MStopJournal, MJoinJournal}"
  shows "server_inv d answers fsync_ok n sv0 sv'"
proof -
  note I = server_invD [OF inv]
  have sess: "sessions_part d pc' (sv_log sv) (sv_sessions sv)" if "pc' \<in> {MJoinMarket, MStopJournal, MJoinJournal, MExit}" for pc'
    by (rule sessions_part_quiet [OF I(5)]) (use pc that in \<open>auto simp: fun_eq_iff\<close>)
  have snap: "snapshot_part pc' (sv_engine sv) (sv_snapshot sv)" for pc' using I(7) pc by (auto simp: snapshot_part_def)
  consider "sv_main sv = MStopMarket" | "sv_main sv = MJoinMarket" "wk_pc (sv_market sv) = Finished" | "sv_main sv = MStopJournal"
    | "sv_main sv = MJoinJournal" "wk_pc (sv_journal sv) = Finished" | "sv' = sv"
    using pc step by (auto simp: main_step_def split: if_splits)
  then show ?thesis
  proof cases
    case 1
    then have sv': "sv' = sv\<lparr>sv_market := worker_Stop (sv_market sv), sv_main := MJoinMarket\<rparr>" using step by (simp add: main_step_def)
    have "journal_part (journal_deliver (sv_writer sv0) answers fsync_ok) (sv_journal sv0) MJoinMarket (log_cmds (sv_log sv))
       (sv_journaled sv) (sv_lost sv) (sv_journal sv)" by (rule journal_part_quiet [OF I(3)]) (simp_all add: 1)
    then show ?thesis using I(1,2,6) sess [of MJoinMarket] snap [of MJoinMarket] market_part_stop [OF I(4)]
      unfolding server_inv_def sv' by simp
  next
    case 2
    then have sv': "sv' = sv\<lparr>sv_main := MStopJournal\<rparr>" using step by (simp add: main_step_def)
    show ?thesis unfolding sv' by (rule server_inv_pc [OF inv]) (simp_all add: 2 fun_eq_iff snap)
  next
    case 3
    then have sv': "sv' = sv\<lparr>sv_journal := worker_Stop (sv_journal sv), sv_main := MJoinJournal\<rparr>" using step by (simp add: main_step_def)
    show ?thesis
      using I(1,2,6) sess [of MJoinJournal] snap [of MJoinJournal] journal_part_stop [OF I(3) [unfolded 3]]
        market_part_quiet [OF I(4), of MJoinJournal]
      unfolding server_inv_def sv' by simp
  next
    case 4
    then have sv': "sv' = sv\<lparr>sv_main := MExit\<rparr>" using step by (simp add: main_step_def)
    show ?thesis
      using I(1,2,6) sess [of MExit] snap [of MExit] journal_part_exit [OF I(3) [unfolded 4(1)] 4(2)] market_part_quiet [OF I(4), of MExit]
      unfolding server_inv_def sv' by simp
  next
    case 5
    with inv show ?thesis by simp
  qed
qed

lemma main_step_inv:
  assumes inv: "server_inv d answers fsync_ok n sv0 sv" and step: "main_step open_ok write_ok sv = Some sv'"
  shows "server_inv d answers fsync_ok n sv0 sv'"
proof (cases "sv_main sv")
  case MLoop
  then obtain pc where sv': "sv' = sv\<lparr>sv_main := pc\<rparr>" "pc = MSnapshot \<or> pc = MPoll [0..<length (sv_sessions sv)]"
    using step by (auto simp: main_step_def split: if_splits)
  show ?thesis unfolding sv'(1) by (rule server_inv_pc [OF inv]) (use MLoop sv'(2) in \<open>auto simp: fun_eq_iff snapshot_part_def\<close>)
next
  case (MPoll idx)
  show ?thesis
  proof (cases idx)
    case Nil
    then have sv': "sv' = sv\<lparr>sv_main := MLoop\<rparr>" using step MPoll by (simp add: main_step_def)
    show ?thesis unfolding sv' by (rule server_inv_pc [OF inv]) (simp_all add: MPoll fun_eq_iff snapshot_part_def)
  next
    case (Cons i rest)
    with MPoll show ?thesis using main_poll_inv [OF inv step] by simp
  qed
next
  case (MAppend i cmd rest)
  then show ?thesis by (rule main_append_inv [OF inv step])
next
  case (MDispatch i cmd rest)
  then show ?thesis by (rule main_dispatch_inv [OF inv step])
next
  case (MPublish i es rest)
  show ?thesis
  proof (cases es)
    case Nil
    then have sv': "sv' = sv\<lparr>sv_main := MPoll rest\<rparr>" using step MPublish by (simp add: main_step_def)
    have "pc_sessions (MPoll rest) \<subseteq> {..<length (sv_sessions sv)}" using server_invD(5) [OF inv] by (simp add: MPublish sessions_part_def)
    then show ?thesis unfolding sv' using Nil
      by (intro server_inv_pc [OF inv]) (simp_all add: MPublish fun_eq_iff snapshot_part_def)
  next
    case (Cons e es')
    with MPublish show ?thesis using main_publish_inv [OF inv step] by simp
  qed
next
  case (MReply i e es rest)
  then show ?thesis by (rule main_reply_inv [OF inv step])
next
  case MSnapshot
  then show ?thesis by (rule main_snapshot_inv [OF inv step])
qed (use step inv main_gateway_inv [OF inv step] main_workers_inv [OF inv step] in \<open>simp_all add: main_step_def\<close>)

text \<open>The other threads.\<close>

lemma server_inv_worker:
  assumes inv: "server_inv d answers fsync_ok n sv0 sv"
  shows "worker_Run_step (journal_deliver (sv_writer sv) answers fsync_ok) (sv_journal sv) = Some w \<Longrightarrow>
      server_inv d answers fsync_ok n sv0 (sv\<lparr>sv_journal := w\<rparr>)"
    and "MarketDataPublisher_Run_step (\<lambda>e sink. Some sink) (sv_market sv) = Some w' \<Longrightarrow>
      server_inv d answers fsync_ok n sv0 (sv\<lparr>sv_market := w'\<rparr>)"
proof -
  note I = server_invD [OF inv]
  assume "worker_Run_step (journal_deliver (sv_writer sv) answers fsync_ok) (sv_journal sv) = Some w"
  with journal_part_run [OF I(3), of w] I show "server_inv d answers fsync_ok n sv0 (sv\<lparr>sv_journal := w\<rparr>)"
    unfolding server_inv_def by simp
next
  note I = server_invD [OF inv]
  assume "MarketDataPublisher_Run_step (\<lambda>e sink. Some sink) (sv_market sv) = Some w'"
  with market_part_run [OF I(4), of w'] I show "server_inv d answers fsync_ok n sv0 (sv\<lparr>sv_market := w'\<rparr>)"
    unfolding server_inv_def MarketDataPublisher_Run_step_def by simp
qed

lemma server_inv_accept:
  assumes inv: "server_inv d answers fsync_ok n sv0 sv" and acc: "server_accept d answer sv = Some sv'"
  shows "server_inv d answers fsync_ok n sv0 sv'"
proof -
  note I = server_invD [OF inv]
  from acc obtain new g K where step: "AcceptLoop_step d answer (sv_gateway sv) (sv_kernel sv) = Some (new, g, K)"
    and sv': "sv' = sv\<lparr>sv_gateway := g, sv_kernel := K,
      sv_sessions := (case new of None \<Rightarrow> sv_sessions sv | Some s \<Rightarrow> sv_sessions sv @ [s])\<rparr>"
    by (auto simp: server_accept_def bind_eq_Some_conv)
  have "sessions_part d (sv_main sv) (sv_log sv) (sv_sessions sv')"
  proof (cases new)
    case None
    with I(5) show ?thesis by (simp add: sv')
  next
    case (Some s)
    obtain s0 where s0: "GatewaySession_new d \<lparr>ts_fd = answer\<rparr> (tg_next_session_id (sv_gateway sv)) 4096 4096 = Inr s0" "s = session_Start s0"
      by (rule AcceptLoop_hands_over [OF step [unfolded Some]])
    from sessions_part_new [OF I(5) s0(1)] show ?thesis by (simp add: sv' Some s0(2))
  qed
  with I gateway_part_accept [OF I(6) step] show ?thesis unfolding server_inv_def by (simp add: sv')
qed

lemma server_inv_session:
  assumes inv: "server_inv d answers fsync_ok n sv0 sv" and i: "i < length (sv_sessions sv)"
    and step: "ReaderLoop_step recv (sv_sessions sv ! i) = Some s \<or> WriterLoop_step answer (sv_sessions sv ! i) = Some s"
  shows "server_inv d answers fsync_ok n sv0 (sv\<lparr>sv_sessions := (sv_sessions sv)[i := s]\<rparr>)"
proof -
  note I = server_invD [OF inv]
  have "session_part d (sv_main sv) (sv_log sv) i (sv_sessions sv ! i)" using I(5) i by (simp add: sessions_part_def)
  from session_part_thread [OF this step] have "sessions_part d (sv_main sv) (sv_log sv) ((sv_sessions sv)[i := s])"
    by (intro sessions_part_update [OF I(5) i]) auto
  with I show ?thesis unfolding server_inv_def by simp
qed

lemma server_step_inv:
  assumes "server_step d answers fsync_ok sv sv'" "server_inv d answers fsync_ok n sv0 sv"
  shows "server_inv d answers fsync_ok n sv0 sv'"
  using assms
proof cases
  case (main open_ok write_ok)
  then show ?thesis by (rule main_step_inv [OF assms(2)])
next
  case signal
  with assms(2) show ?thesis by (simp add: server_inv_def HandleSignal_def)
next
  case (journal w)
  with server_inv_worker(1) [OF assms(2)] show ?thesis by simp
next
  case (market w)
  with server_inv_worker(2) [OF assms(2)] show ?thesis by simp
next
  case (accept answer)
  then show ?thesis by (rule server_inv_accept [OF assms(2)])
next
  case (reader i recv s)
  with server_inv_session [OF assms(2), of i] show ?thesis by blast
next
  case (writer i answer s)
  with server_inv_session [OF assms(2), of i] show ?thesis by blast
qed

text \<open>The state that a successful startup leaves.\<close>

lemma listener_socket_open:
  assumes "TcpListener_new ans port backlog K = Some (Inr l, K')"
  shows "ts_fd (tl_socket l) \<in> k_open K'"
  using assms by (auto simp: TcpListener_new_def Let_def kernel_simps os_opened_def os_setsockopt_def bind_eq_Some_conv TcpSocket_of_def
      split: if_splits option.splits)

lemma server_start_parts:
  assumes "server_start d dev open_ok file ans K args = Some (Inr sv)"
  obtains pe jw journal market g K' where
    "register_symbols 1 (sa_num_symbols args) (partitioned_new (unat (sa_num_partitions args))) = Some pe"
    "AsyncJournalWriter_new d 65536 True open_ok file = Inr (jw, journal)" "MarketDataPublisher_started dev 65536 () = Inr market"
    "TcpGateway_new ans (sa_port args) K = Some (Inr g, K')"
    "sv = \<lparr>sv_engine = pe, sv_writer = jw, sv_journal = journal, sv_market = market, sv_gateway = gateway_Start g,
       sv_sessions = [], sv_kernel = K', sv_shutdown = False, sv_snapshot = None, sv_main = MLoop, sv_log = [],
       sv_journaled = [], sv_lost = 0\<rparr>"
proof -
  from assms obtain pe where pe: "register_symbols 1 (sa_num_symbols args) (partitioned_new (unat (sa_num_partitions args))) = Some pe"
    by (auto simp: server_start_def bind_eq_Some_conv)
  with assms obtain jw journal where j: "AsyncJournalWriter_new d 65536 True open_ok file = Inr (jw, journal)"
    by (cases "AsyncJournalWriter_new d 65536 True open_ok file") (auto simp: server_start_def)
  with assms pe obtain market where m: "MarketDataPublisher_started dev 65536 () = Inr market"
    by (cases "MarketDataPublisher_started dev 65536 ()") (auto simp: server_start_def)
  from assms pe j m obtain res K' where "TcpGateway_new ans (sa_port args) K = Some (res, K')"
    by (auto simp: server_start_def bind_eq_Some_conv)
  with that [OF pe j m] assms pe j m show thesis by (cases res) (auto simp: server_start_def)
qed

lemma gateway_new_part:
  assumes "TcpGateway_new ans port K = Some (Inr g, K')"
  shows "gateway_part (gateway_Start g) K'"
proof -
  from assms obtain res where res: "TcpListener_new ans port 16 K = Some (res, K')" by (auto simp: TcpGateway_new_def bind_eq_Some_conv)
  then obtain l where "res = Inr l" "tg_listener g = l" using assms by (cases res) (auto simp: TcpGateway_new_def)
  with res listener_socket_open show ?thesis by (auto simp: gateway_part_def gateway_Start_def)
qed

lemma worker_new_fresh:
  "AsyncJournalWriter_new d cap fsync open_ok file = Inr (jw, w) \<Longrightarrow> fresh_worker w"
  "MarketDataPublisher_started dev cap sink = Inr w' \<Longrightarrow> fresh_worker w'"
  by (auto simp: AsyncJournalWriter_new_def MarketDataPublisher_started_def fresh_worker_def dest: spsc_new_ring split: sum.splits)

lemma server_start_inv:
  assumes start: "server_start d dev open_ok file ans K args = Some (Inr sv0)" and parts: "sa_num_partitions args \<noteq> 0"
  shows "server_inv d answers fsync_ok (unat (sa_num_partitions args)) sv0 sv0"
    and "fresh_worker (sv_journal sv0)" "fresh_worker (sv_market sv0)"
proof (atomize (full), rule server_start_parts [OF start])
  fix pe jw journal market g K'
  let ?n = "unat (sa_num_partitions args)"
  assume reg: "register_symbols 1 (sa_num_symbols args) (partitioned_new ?n) = Some pe"
    and new: "AsyncJournalWriter_new d 65536 True open_ok file = Inr (jw, journal)" "MarketDataPublisher_started dev 65536 () = Inr market"
    "TcpGateway_new ans (sa_port args) K = Some (Inr g, K')"
    and sv: "sv0 = \<lparr>sv_engine = pe, sv_writer = jw, sv_journal = journal, sv_market = market, sv_gateway = gateway_Start g,
       sv_sessions = [], sv_kernel = K', sv_shutdown = False, sv_snapshot = None, sv_main = MLoop, sv_log = [],
       sv_journaled = [], sv_lost = 0\<rparr>"
  have "partitioned_reachable ?n (partitioned_new ?n)" using parts by (intro partitioned_reachable.start) (simp add: unat_gt_0)
  from register_symbols_all [OF this register_symbols_wraps [OF reg], of 1] reg have "partitioned_reachable ?n pe" by simp
  moreover note gateway_new_part [OF new(3)]
  moreover note worker_new_fresh(1) [OF new(1)] worker_new_fresh(2) [OF new(2)]
  moreover from this have "market_part market MLoop market" "wk_running journal"
    by (auto simp: market_part_def fresh_worker_def intro: worker_history.start)
  ultimately show "server_inv d answers fsync_ok ?n sv0 sv0 \<and> fresh_worker (sv_journal sv0) \<and> fresh_worker (sv_market sv0)"
    by (simp add: sv server_inv_def engine_part_def journal_part_def sessions_part_def snapshot_part_def worker_history.start)
qed

lemma server_reachable_inv:
  assumes "server_reachable d answers fsync_ok sv0 sv" "server_start d dev open_ok file ans K args = Some (Inr sv0)"
    "sa_num_partitions args \<noteq> 0"
  shows "server_inv d answers fsync_ok (unat (sa_num_partitions args)) sv0 sv"
  using assms(1) by induction (use server_start_inv(1) [OF assms(2,3)] server_step_inv in blast)+

end
