(* ===== verification/Server_Properties.thy ===== *)
theory Server_Properties
  imports Server_Invariant
begin

text \<open>
  What the invariant of \<open>Server_Invariant\<close> gives for the server: its threads are never undefined,
  every session is served in order and gets the reports of its own commands, the journal can be
  replayed after a crash at any moment, and a server that has ended leaves a complete journal and
  snapshot.
\<close>

section \<open>Every thread can go on\<close>

lemma main_step_defined:
  assumes inv: "server_inv d answers fsync_ok n sv0 sv" and fresh: "fresh_worker (sv_journal sv0)" "fresh_worker (sv_market sv0)"
  shows "main_step open_ok write_ok sv \<noteq> None"
proof -
  note I = server_invD [OF inv]
  have sess: "\<exists>out s. session_TryPopInbound (sv_sessions sv ! i) = Some (out, s)"
    "\<exists>ok s. session_TryPushOutbound body (sv_sessions sv ! i) = Some (ok, s)" if "i < length (sv_sessions sv)" for i body
    using session_queues_defined [of d "sv_main sv" "sv_log sv" i "sv_sessions sv ! i"] I(5) that by (simp_all add: sessions_part_def)
  have here: "pc_sessions (sv_main sv) \<subseteq> {..<length (sv_sessions sv)}" using I(5) by (simp add: sessions_part_def)
  have app: "\<exists>ok w. worker_TryAppend cmd (sv_journal sv) = Some (ok, w)" for cmd
    using worker_append_defined [OF fresh(1)] I(3) by (auto simp: journal_part_def)
  have pub: "\<exists>ok w. MarketDataPublisher_Publish e (sv_market sv) = Some (ok, w)" for e
    unfolding Publish_is_append using worker_append_defined [OF fresh(2)] I(4) unfolding market_part_def by blast
  show ?thesis
  proof (cases "sv_main sv")
    case (MPoll idx)
    with here sess(1) [of "hd idx"] show ?thesis by (cases idx) (auto simp: main_step_def)
  next
    case (MAppend i cmd rest)
    with app [of cmd] show ?thesis by (auto simp: main_step_def)
  next
    case (MDispatch i cmd rest)
    with dispatch_defined [OF I(2), of cmd] show ?thesis by (auto simp: main_step_def)
  next
    case (MPublish i es rest)
    with pub [of "hd es"] show ?thesis by (cases es) (auto simp: main_step_def)
  next
    case (MReply i e es rest)
    with here sess(2) [of i "EncodeEvent e"] show ?thesis by (auto simp: main_step_def)
  next
    case MCloseListener
    with gateway_part_close [OF I(6)] show ?thesis by (auto simp: main_step_def)
  qed (simp_all add: main_step_def split: sum.split prod.split)
qed

section \<open>Sessions\<close>

lemma subseq_map_split:
  assumes "subseq ys (map f xs)"
  shows "\<exists>zs. ys = map f zs \<and> subseq zs xs"
  using assms
proof (induction xs arbitrary: ys)
  case (Cons x xs)
  then consider "subseq ys (map f xs)" | ys' where "ys = f x # ys'" "subseq ys' (map f xs)"
    by (cases ys) (auto split: if_splits)
  then show ?case
  proof cases
    case 1
    with Cons.IH show ?thesis by blast
  next
    case 2
    with Cons.IH [of ys'] obtain zs where "ys = map f (x # zs)" "subseq (x # zs) (x # xs)" by auto
    then show ?thesis by blast
  qed
qed (auto dest: list_emb_Nil2)

lemma session_reports:
  assumes part: "session_part d pc L i s" and chunks: "concat chunks = gs_sent s"
  shows "\<exists>out. fst (fd_receive chunks fd_new) = map EncodeEvent out \<and> subseq out (session_events i L)"
proof -
  from part obtain out where out: "subseq (gs_offered s) (map EncodeEvent out)" "out @ pending_events pc i = session_events i L"
    by (auto simp: session_part_def)
  from part session_reachable_inv have "writer_inv s" by (auto simp: session_part_def)
  then obtain bodies j rest where w: "wire_ok (gs_sent s) (gs_offered s) bodies (part_of j rest) rest"
    using writer_wire_stops by (metis writer_inv_def writer_wire_simps(5))
  obtain zs where zs: "gs_offered s = map EncodeEvent zs" "subseq zs out" using subseq_map_split [OF out(1)] by blast
  from session_frames_sent [OF w _ chunks] zs(1) event_frame_fits obtain m where
    "fst (fd_receive chunks fd_new) = map EncodeEvent (take m zs)" by (auto simp: take_map)
  moreover have "subseq (take m zs) (session_events i L)"
    using zs(2) unfolding out(2) [symmetric]
    by (meson prefix_imp_subseq take_is_prefix subseq_order.order_trans subseq_rev_drop_many prefixI)
  ultimately show ?thesis by blast
qed

text \<open>
  C12. The server serves its sessions, for every interleaving of all its threads and whatever the
  operating system answers: the engine has processed exactly the logged commands, one after the
  other; those of a session are its commands in the order in which it sent them, none
  skipped and none twice (an undecodable one is not a command); what a client reassembles from the
  bytes sent to it are reports of its own commands, in order, of which some may be missing (a full
  queue drops them). The main thread is never undefined.
\<close>

theorem server_serves_sessions:
  assumes "server_start d dev open_ok file ans K args = Some (Inr sv0)" "sa_num_partitions args \<noteq> 0"
    and "server_reachable d answers fsync_ok sv0 sv"
  shows "(\<exists>log. partitioned_run (log_cmds (sv_log sv)) (sv_engine sv0) = Some (log, sv_engine sv) \<and>
      map snd log = map (snd \<circ> snd) (sv_log sv)) \<and>
    (\<forall>i < length (sv_sessions sv).
       prefix (session_cmds i (sv_log sv)) (commands_of (fst (parse_frames (gs_received (sv_sessions sv ! i))))) \<and>
       (\<forall>chunks. concat chunks = gs_sent (sv_sessions sv ! i) \<longrightarrow>
          (\<exists>out. fst (fd_receive chunks fd_new) = map EncodeEvent out \<and> subseq out (session_events i (sv_log sv))))) \<and>
    main_step snapshot_opens snapshot_written sv \<noteq> None"
proof -
  have inv: "server_inv d answers fsync_ok (unat (sa_num_partitions args)) sv0 sv" by (rule server_reachable_inv [OF assms(3,1,2)])
  note I = server_invD [OF inv]
  have served: "prefix (session_cmds i (sv_log sv)) (commands_of (fst (parse_frames (gs_received (sv_sessions sv ! i)))))"
    if "session_part d (sv_main sv) (sv_log sv) i (sv_sessions sv ! i)" for i
  proof -
    from that session_reachable_inv have "reader_inv (sv_sessions sv ! i)" by (auto simp: session_part_def)
    from session_handed_over [OF this] that show ?thesis by (metis append_assoc prefixI session_part_def)
  qed
  have "\<forall>i < length (sv_sessions sv). session_part d (sv_main sv) (sv_log sv) i (sv_sessions sv ! i)"
    using I(5) by (simp add: sessions_part_def)
  with served session_reports I(2) main_step_defined [OF inv server_start_inv(2,3) [OF assms(1,2)]] show ?thesis
    unfolding engine_part_def by blast
qed

section \<open>The journal of a running server\<close>

lemma partitioned_run_append:
  "partitioned_run (xs @ ys) pe =
     do { (log, pe1) \<leftarrow> partitioned_run xs pe; (log', pe2) \<leftarrow> partitioned_run ys pe1; Some (log @ log', pe2) }"
  by (induction xs arbitrary: pe) (auto split: bind_splits)

lemma partitioned_run_length: "partitioned_run cmds pe = Some (log, pe') \<Longrightarrow> length log = length cmds"
  by (induction cmds arbitrary: pe log) (auto simp: bind_eq_Some_conv)

text \<open>Replaying an initial part of a run gives a state of that run, from which the rest leads to its end.\<close>

lemma replay_prefix:
  assumes "partitioned_run (xs @ ys) pe = Some (log, pe')"
  shows "\<exists>pe1 rest. partitioned_run xs pe = Some (take (length xs) log, pe1) \<and> partitioned_run ys pe1 = Some (rest, pe')"
proof -
  from assms obtain l1 pe1 l2 where r: "partitioned_run xs pe = Some (l1, pe1)" "partitioned_run ys pe1 = Some (l2, pe')" "log = l1 @ l2"
    by (auto simp: partitioned_run_append bind_eq_Some_conv)
  with partitioned_run_length [OF r(1)] show ?thesis by simp
qed

lemma server_journal_file:
  assumes start: "server_start d dev open_ok None ans K args = Some (Inr sv0)"
    and inv: "server_inv d answers fsync_ok n sv0 sv"
  obtains old where "jf_bytes (wk_sink (sv_journal sv)) = journal_of old" "prefix old (sv_journaled sv)"
    "wk_dropped (sv_journal sv) = word_of_nat (sv_lost sv)" "sv_main sv = MExit \<longrightarrow> old = sv_journaled sv"
proof (rule server_start_parts [OF start])
  fix pe jw journal market g K'
  assume new: "AsyncJournalWriter_new d 65536 True open_ok None = Inr (jw, journal)"
    and sv: "sv0 = \<lparr>sv_engine = pe, sv_writer = jw, sv_journal = journal, sv_market = market, sv_gateway = gateway_Start g,
       sv_sessions = [], sv_kernel = K', sv_shutdown = False, sv_snapshot = None, sv_main = MLoop, sv_log = [],
       sv_journaled = [], sv_lost = 0\<rparr>"
  from new have "open_ok" by (auto simp: AsyncJournalWriter_new_def JournalWriter_open_def split: sum.splits if_splits)
  with new have new': "AsyncJournalWriter_new d 65536 True True None = Inr (sv_writer sv0, sv_journal sv0)" by (simp add: sv)
  have hist: "worker_history (journal_deliver (sv_writer sv0) answers fsync_ok) (sv_journal sv0) (sv_journaled sv) (sv_lost sv) (sv_journal sv)"
    and fin: "sv_main sv = MExit \<longrightarrow> wk_pc (sv_journal sv) = Finished"
    using server_invD(3) [OF inv] by (simp_all add: journal_part_def)
  obtain old where "jf_bytes (wk_sink (sv_journal sv)) = journal_of old" "sv_journaled sv = old @ spsc_contents (wk_queue (sv_journal sv))"
    "wk_dropped (sv_journal sv) = word_of_nat (sv_lost sv)"
    "wk_pc (sv_journal sv) = Finished \<longrightarrow> spsc_contents (wk_queue (sv_journal sv)) = []"
    by (rule async_journal_prefix [OF new' hist])
  with that [of old] fin show thesis by simp
qed

lemma read_whole_journal: "ReadJournal (Some (journal_of cmds)) = Inr cmds"
  using ReadJournal_prefix [of "length (journal_of cmds)" cmds] complete_all [of cmds "length (journal_of cmds)"] by simp

text \<open>What a list of commands that the journal yields does to the engine as it was at startup.\<close>

definition recovers :: "server \<Rightarrow> server \<Rightarrow> command list \<Rightarrow> bool" where
  "recovers sv0 sv cmds \<longleftrightarrow>
     (\<exists>log pe. partitioned_run cmds (sv_engine sv0) = Some (log, pe) \<and>
        (if length cmds \<le> length (sv_log sv) then
           cmds = take (length cmds) (log_cmds (sv_log sv)) \<and>
           map snd log = map (snd \<circ> snd) (take (length cmds) (sv_log sv)) \<and>
           (\<exists>rest. partitioned_run (drop (length cmds) (log_cmds (sv_log sv))) pe = Some (rest, sv_engine sv))
         else
           \<exists>cmd seq events. offered_cmd (sv_main sv) = [cmd] \<and> cmds = log_cmds (sv_log sv) @ [cmd] \<and>
             partitioned_Dispatch cmd (sv_engine sv) [] = Some (seq, events, pe)))"

lemma recovers_prefix:
  assumes part: "engine_part n (sv_engine sv0) (sv_log sv) (sv_engine sv)"
    and pre: "prefix cmds (log_cmds (sv_log sv) @ offered_cmd (sv_main sv))"
  shows "recovers sv0 sv cmds"
proof -
  let ?L = "log_cmds (sv_log sv)"
  obtain log where run: "partitioned_run ?L (sv_engine sv0) = Some (log, sv_engine sv)" "map snd log = map (snd \<circ> snd) (sv_log sv)"
    using part by (auto simp: engine_part_def)
  show ?thesis
  proof (cases "length cmds \<le> length (sv_log sv)")
    case True
    with pre have "prefix cmds ?L" by (auto simp: prefix_def append_eq_append_conv2)
    then obtain ys where ys: "?L = cmds @ ys" by (auto simp: prefix_def)
    from replay_prefix [OF run(1) [unfolded ys]] obtain pe rest where
      r: "partitioned_run cmds (sv_engine sv0) = Some (take (length cmds) log, pe)" "partitioned_run ys pe = Some (rest, sv_engine sv)" by blast
    have "map snd (take (length cmds) log) = map (snd \<circ> snd) (take (length cmds) (sv_log sv))" using run(2) by (simp add: take_map [symmetric])
    moreover have "cmds = take (length cmds) ?L" "ys = drop (length cmds) ?L" using ys by simp_all
    ultimately show ?thesis using r True unfolding recovers_def by (metis (no_types, lifting))
  next
    case False
    obtain cmd where off: "offered_cmd (sv_main sv) = [cmd]" using False pre prefix_length_le [OF pre] by (cases "sv_main sv") auto
    from pre off obtain zs where zs: "?L @ [cmd] = cmds @ zs" by (auto simp: prefix_def)
    from arg_cong [OF this, of length] False have "zs = []" by (cases zs) auto
    with zs have cmds: "cmds = ?L @ [cmd]" by simp
    obtain seq events pe where "partitioned_Dispatch cmd (sv_engine sv) [] = Some (seq, events, pe)" using dispatch_defined [OF part] by blast
    with partitioned_run_snoc [OF run(1) this] off cmds False show ?thesis unfolding recovers_def by auto
  qed
qed

lemma journal_part_lossless:
  "journal_part deliver w0 pc cmds J 0 w \<Longrightarrow> J = cmds @ offered_cmd pc"
  by (auto simp: journal_part_def intro: subseq_same_length)


section \<open>Shutting down\<close>

lemma server_reachable_trans:
  assumes "server_reachable d answers fsync_ok sv1 sv2" "server_reachable d answers fsync_ok sv0 sv1"
  shows "server_reachable d answers fsync_ok sv0 sv2"
  using assms by induction (auto intro: server_reachable.step)

lemma server_reachable_main:
  "server_reachable d answers fsync_ok sv0 sv \<Longrightarrow> main_step open_ok write_ok sv = Some sv' \<Longrightarrow> server_reachable d answers fsync_ok sv0 sv'"
  by (rule server_reachable.step [OF _ server_step.main])

text \<open>
  What is on disk when the server has ended: the journal holds every command that it accepted, and
  the snapshot the engine after all processed commands.
\<close>

lemma server_exit_files:
  assumes start: "server_start d dev open_ok None ans K args = Some (Inr sv0)"
    and inv: "server_inv d answers fsync_ok n sv0 sv" and pc: "sv_main sv = MExit"
  shows "ReadJournal (Some (jf_bytes (wk_sink (sv_journal sv)))) = Inr (sv_journaled sv)"
    "sv_lost sv = 0 \<Longrightarrow> sv_journaled sv = log_cmds (sv_log sv)"
    "sv_snapshot sv = Some (snapshot_bytes (sv_engine sv))"
    "n < 2 ^ 32 \<Longrightarrow> \<forall>e \<in> set (pe_partitions (sv_engine sv)). partition_fits e \<Longrightarrow>
       \<exists>pe. LoadSnapshot (sv_snapshot sv) = Inr pe \<and> same_system n (sv_engine sv) pe"
proof -
  note I = server_invD [OF inv]
  show "ReadJournal (Some (jf_bytes (wk_sink (sv_journal sv)))) = Inr (sv_journaled sv)"
    by (rule server_journal_file [OF start inv]) (use pc in \<open>simp add: read_whole_journal\<close>)
  show "sv_journaled sv = log_cmds (sv_log sv)" if "sv_lost sv = 0"
    using journal_part_lossless [of _ _ "sv_main sv"] I(3) that pc by fastforce
  show snap: "sv_snapshot sv = Some (snapshot_bytes (sv_engine sv))" using I(7) pc by (simp add: snapshot_part_def)
  have pe: "partitioned_reachable n (sv_engine sv)" using I(2) by (simp add: engine_part_def)
  show "\<exists>pe. LoadSnapshot (sv_snapshot sv) = Inr pe \<and> same_system n (sv_engine sv) pe"
    if "n < 2 ^ 32" "\<forall>e \<in> set (pe_partitions (sv_engine sv)). partition_fits e"
    using load_snapshot_bytes [OF partitioned_reachable_inv [OF pe] that] partitioned_reachable_inv [OF pe]
      restored_system [OF partitioned_reachable_inv [OF pe] partitioned_reachable_pins [OF pe] refl]
    unfolding same_system_def snap by blast
qed

section \<open>An example\<close>

definition ex_listener :: listener_answers where
  "ex_listener = \<lparr>la_socket = 3, la_bind = (\<lambda>_. 0), la_getsockname = Some 9000, la_listen = (\<lambda>_. 0)\<rparr>"

definition ex_server_args :: server_args where
  "ex_server_args = \<lparr>sa_port = 9000, sa_num_partitions = 2, sa_num_symbols = 3, sa_journal_path = ''journal''\<rparr>"

definition ex_report :: event where
  "ex_report = TradeEvent \<lparr>t_sequence_number = 1, t_timestamp = 0, t_symbol_id = 1, t_aggressor_order_id = 2, t_resting_order_id = 1,
     t_aggressor_trader_id = 7, t_resting_trader_id = 7, t_aggressor_side = Buy, t_price = Price 100, t_quantity = 5\<rparr>"

definition ex_start :: "(server_error + server) option" where
  "ex_start = server_start ex_cancel ex_report True None ex_listener \<lparr>k_open = {}, k_options = []\<rparr> ex_server_args"

abbreviation ex_writes :: "command \<Rightarrow> int list" where
  "ex_writes \<equiv> \<lambda>_. replicate 60 1"

abbreviation ex_reachable :: "server \<Rightarrow> server \<Rightarrow> bool" where
  "ex_reachable \<equiv> server_reachable ex_cancel ex_writes (\<lambda>_. True)"

lemma ex_started:
  obtains sv0 where "ex_start = Some (Inr sv0)" "sv_main sv0 = MLoop" "sv_sessions sv0 = []" "sv_log sv0 = []" "sv_lost sv0 = 0"
    "sv_shutdown sv0 = False" "tg_pc (sv_gateway sv0) = ALoop" "tg_stopped (sv_gateway sv0) = False" "ts_fd (tl_socket (tg_listener (sv_gateway sv0))) = 3"
    "spsc_contents (wk_queue (sv_journal sv0)) = []" "spsc_capacity (wk_queue (sv_journal sv0)) = 65536"
proof -
  obtain pe where pe: "register_symbols 1 3 (partitioned_new 2) = Some pe"
    using register_symbols_all [OF partitioned_reachable.start, of 2 3 1] by auto
  obtain qj where qj: "spsc_new ex_cancel 65536 = Inr qj" by (simp add: spsc_new_def)
  obtain qm where qm: "spsc_new ex_report 65536 = Inr qm" by (simp add: spsc_new_def)
  obtain sv0 where sv0: "ex_start = Some (Inr sv0)"
    by (simp add: ex_start_def server_start_def ex_server_args_def pe AsyncJournalWriter_new_def qj JournalWriter_open_def
        MarketDataPublisher_started_def qm TcpGateway_new_def TcpListener_new_def ex_listener_def Let_def)
  show thesis
    by (rule that [OF sv0]; use sv0 spsc_new_ring [OF qj] in
      \<open>auto simp: ex_start_def server_start_def ex_server_args_def pe AsyncJournalWriter_new_def qj JournalWriter_open_def
        MarketDataPublisher_started_def qm TcpGateway_new_def TcpListener_new_def ex_listener_def Let_def gateway_Start_def TcpSocket_of_def\<close>)
qed

text \<open>A client connects and sends an order; the server reads, journals and processes it.\<close>

lemma ex_session_command:
  assumes new: "GatewaySession_new d \<lparr>ts_fd = 5\<rparr> sid 4096 4096 = Inr s0"
  obtains s1 s2 s3 where "ReaderLoop_step (Some (record_of ex_new_order)) (session_Start s0) = Some s1" "ReaderLoop_step None s1 = Some s2"
    "ReaderLoop_step None s2 = Some s3" "spsc_inv (gs_inbound s3)" "spsc_contents (gs_inbound s3) = [ex_new_order]"
proof -
  obtain qi where qi: "spsc_new d 4096 = Inr qi" "gs_inbound s0 = qi" "gs_decoder s0 = fd_new" "gs_stopping s0 = False" "ts_fd (gs_socket s0) = 5"
    using new by (auto simp: GatewaySession_new_def split: sum.splits)
  have ring: "spsc_inv qi" "spsc_contents qi = []" "spsc_capacity qi = 4096" using spsc_new_ring [OF qi(1)] by simp_all
  obtain q where q: "spsc_TryPush ex_new_order qi = Some (True, q)" "spsc_inv q" "spsc_contents q = [ex_new_order]"
    using spsc_TryPush_fifo [OF ring(1), of ex_new_order] ring(2,3) by auto
  have "fst (fd_TryExtractFrame (fd_Feed (record_of ex_new_order) fd_new)) = Frame (EncodeCommand ex_new_order)" by code_simp
  then obtain dec where dec: "fd_TryExtractFrame (fd_Feed (record_of ex_new_order) fd_new) = (Frame (EncodeCommand ex_new_order), dec)"
    by (metis prod.collapse)
  have recv: "case socket_Recv (Some (record_of ex_new_order)) \<lparr>ts_fd = 5\<rparr> of (n, buf) \<Rightarrow> 0 < n \<and> take (nat n) buf = record_of ex_new_order"
    by code_simp
  obtain n buf where rb: "socket_Recv (Some (record_of ex_new_order)) (gs_socket s0) = (n, buf)" "0 < n" "take (nat n) buf = record_of ex_new_order"
    using recv qi(5) by (cases "gs_socket s0") (auto split: prod.splits)
  let ?s1 = "(session_Start s0)\<lparr>gs_decoder := fd_Feed (record_of ex_new_order) fd_new, gs_received := gs_received s0 @ record_of ex_new_order, gs_reader := RExtract\<rparr>"
  let ?s2 = "?s1\<lparr>gs_decoder := dec, gs_reader := RPush ex_new_order\<rparr>"
  let ?s3 = "?s2\<lparr>gs_inbound := q, gs_reader := RExtract\<rparr>"
  show thesis
  proof (rule that [of ?s1 ?s2 ?s3])
    show "ReaderLoop_step (Some (record_of ex_new_order)) (session_Start s0) = Some ?s1"
      using rb qi by (simp add: ReaderLoop_step_def session_Start_def Let_def)
    show "ReaderLoop_step None ?s1 = Some ?s2" by (simp add: ReaderLoop_step_def dec)
    show "ReaderLoop_step None ?s2 = Some ?s3" using q(1) qi(2) by (simp add: ReaderLoop_step_def session_Start_def)
  qed (use q in simp_all)
qed

lemma ex_partitions: "sa_num_partitions ex_server_args \<noteq> 0"
  by (simp add: ex_server_args_def)

lemma ex_waiting:
  obtains sv0 sv s where "ex_start = Some (Inr sv0)" "ex_reachable sv0 sv" "sv_main sv = MLoop" "sv_sessions sv = [s]" "sv_log sv = []"
    "sv_lost sv = 0" "\<not> sv_shutdown sv" "gs_popped s = []" "spsc_contents (gs_inbound s) = [ex_new_order]"
    "spsc_contents (wk_queue (sv_journal sv)) = []" "spsc_capacity (wk_queue (sv_journal sv)) = 65536"
proof (rule ex_started)
  fix sv0
  assume sv0: "ex_start = Some (Inr sv0)" "sv_main sv0 = MLoop" "sv_sessions sv0 = []" "sv_log sv0 = []" "sv_lost sv0 = 0"
    "sv_shutdown sv0 = False" "tg_pc (sv_gateway sv0) = ALoop" "tg_stopped (sv_gateway sv0) = False"
    "ts_fd (tl_socket (tg_listener (sv_gateway sv0))) = 3"
    "spsc_contents (wk_queue (sv_journal sv0)) = []" "spsc_capacity (wk_queue (sv_journal sv0)) = 65536"
  let ?R = "ex_reachable sv0"
  obtain s0 where s0: "GatewaySession_new ex_cancel \<lparr>ts_fd = 5\<rparr> (tg_next_session_id (sv_gateway sv0)) 4096 4096 = Inr s0"
    using session_capacities by blast
  have "\<exists>g K. AcceptLoop_step ex_cancel 5 (sv_gateway sv0) (sv_kernel sv0) = Some (Some (session_Start s0), g, K)"
    using sv0(7-9) s0
    by (simp add: AcceptLoop_step_def listener_Accept_def Let_def socket_valid_def TcpSocket_of_def)
  then obtain g K where acc: "server_accept ex_cancel 5 sv0 = Some (sv0\<lparr>sv_gateway := g, sv_kernel := K, sv_sessions := [session_Start s0]\<rparr>)"
    using sv0(3) by (auto simp: server_accept_def)
  let ?sv = "\<lambda>s. sv0\<lparr>sv_gateway := g, sv_kernel := K, sv_sessions := [s]\<rparr>"
  have r1: "?R (?sv (session_Start s0))" by (rule server_reachable.step [OF server_reachable.start server_step.accept [OF acc]])
  have read: "?R (?sv s')" if "?R (?sv s)" "ReaderLoop_step recv s = Some s'" for s s' recv
    using server_reachable.step [OF that(1) server_step.reader [of 0 "?sv s" recv s']] that(2) by simp
  obtain s1 s2 s3 where steps: "ReaderLoop_step (Some (record_of ex_new_order)) (session_Start s0) = Some s1"
    "ReaderLoop_step None s1 = Some s2" "ReaderLoop_step None s2 = Some s3"
    and s3: "spsc_inv (gs_inbound s3)" "spsc_contents (gs_inbound s3) = [ex_new_order]" by (rule ex_session_command [OF s0])
  have "?R (?sv s3)" by (rule read [OF read [OF read [OF r1 steps(1)] steps(2)] steps(3)])
  moreover have "gs_popped s0 = []" using s0 by (auto simp: GatewaySession_new_def split: sum.splits)
  then have "gs_popped s3 = []" using steps[THEN reader_step_frame(7)] by (simp add: session_Start_def)
  ultimately show thesis using that [OF sv0(1), of "?sv s3" s3] sv0 s3 by simp
qed

lemma ex_served:
  obtains sv0 sv events where "ex_start = Some (Inr sv0)" "ex_reachable sv0 sv" "sv_log sv = [(0, ex_new_order, events)]" "sv_lost sv = 0"
    "length (sv_sessions sv) = 1" "sv_main sv = MPublish 0 events []"
proof (rule ex_waiting)
  fix sv0 sv s
  assume sv: "ex_start = Some (Inr sv0)" "ex_reachable sv0 sv" "sv_main sv = MLoop" "sv_sessions sv = [s]" "sv_log sv = []"
    "sv_lost sv = 0" "\<not> sv_shutdown sv" "spsc_contents (gs_inbound s) = [ex_new_order]"
    "spsc_contents (wk_queue (sv_journal sv)) = []" "spsc_capacity (wk_queue (sv_journal sv)) = 65536"
  let ?R = "ex_reachable sv0"
  note start = sv(1) [unfolded ex_start_def]
  note I = server_invD [OF server_reachable_inv [OF sv(2) start ex_partitions]]
  have r1: "?R (sv\<lparr>sv_main := MPoll [0]\<rparr>)"
    by (rule server_reachable_main [OF sv(2), of True True]) (simp add: main_step_def sv)
  have part: "session_part ex_cancel (sv_main sv) (sv_log sv) 0 s" using I(5) by (simp add: sessions_part_def sv(4))
  then have "spsc_inv (gs_inbound s)" using session_reachable_inv by (auto simp: session_part_def reader_inv_def)
  from spsc.pop_law [OF this] obtain s' where pop: "session_TryPopInbound s = Some (Some ex_new_order, s')"
    by (auto simp: session_TryPopInbound_def sv(8))
  have r2: "?R (sv\<lparr>sv_sessions := [s'], sv_main := MAppend 0 ex_new_order []\<rparr>)"
    by (rule server_reachable_main [OF r1, of True True]) (simp add: main_step_def sv(4) pop)
  have "spsc_inv (wk_queue (sv_journal sv))"
    using I(3) worker_history_inv [OF server_start_inv(2) [OF start ex_partitions]] by (auto simp: journal_part_def worker_inv_def)
  from spsc_TryPush_fifo [OF this, of ex_new_order] sv(9,10) obtain w where w: "worker_TryAppend ex_new_order (sv_journal sv) = Some (True, w)"
    by (auto simp: worker_TryAppend_def)
  have r3: "?R (sv\<lparr>sv_sessions := [s'], sv_journal := w, sv_journaled := sv_journaled sv @ [ex_new_order], sv_main := MDispatch 0 ex_new_order []\<rparr>)"
    by (rule server_reachable_main [OF r2, of True True]) (simp add: main_step_def w sv(6))
  obtain seq events pe where run: "partitioned_Dispatch ex_new_order (sv_engine sv) [] = Some (seq, events, pe)"
    using dispatch_defined [OF I(2)] by blast
  have "?R (sv\<lparr>sv_sessions := [s'], sv_journal := w, sv_journaled := sv_journaled sv @ [ex_new_order], sv_engine := pe,
      sv_log := [(0, ex_new_order, events)], sv_main := MPublish 0 events []\<rparr>)"
    by (rule server_reachable_main [OF r3, of True True]) (simp add: main_step_def run sv(5))
  from that [OF sv(1) this] sv(6) show thesis by simp
qed

theorem server_serves_sessions_witness:
  "\<exists>sv0 sv. ex_start = Some (Inr sv0) \<and> ex_reachable sv0 sv \<and> length (sv_sessions sv) = 1 \<and> session_cmds 0 (sv_log sv) = [ex_new_order] \<and>
     prefix [ex_new_order] (commands_of (fst (parse_frames (gs_received (sv_sessions sv ! 0))))) \<and> main_step True True sv \<noteq> None"
proof (rule ex_served)
  fix sv0 sv events
  assume s: "ex_start = Some (Inr sv0)" "ex_reachable sv0 sv" "sv_log sv = [(0, ex_new_order, events)]" "length (sv_sessions sv) = 1"
  have cmds: "session_cmds 0 (sv_log sv) = [ex_new_order]" by (simp add: s(3) session_cmds_def)
  note served = server_serves_sessions [OF s(1) [unfolded ex_start_def] ex_partitions s(2), of True True]
  then have "prefix (session_cmds 0 (sv_log sv)) (commands_of (fst (parse_frames (gs_received (sv_sessions sv ! 0)))))"
    using s(4) by (metis zero_less_one)
  with s cmds served show ?thesis by (intro exI [of _ sv0] exI [of _ sv]) simp
qed


end
