(* ===== verification/Fair_Runs.thy ===== *)
theory Fair_Runs
  imports Main
begin

text \<open>
  Infinite runs of labelled step relations and weak fairness, and the rule by which the liveness
  properties of the server are proved: a rank in a well-founded order that no step increases and
  that the step of a helpful thread decreases.
\<close>

text \<open>A run, with the label of every step; the labels in \<open>F\<close> occur again and again.\<close>

definition fair_run :: "('l \<Rightarrow> 's \<Rightarrow> 's \<Rightarrow> bool) \<Rightarrow> 'l set \<Rightarrow> (nat \<Rightarrow> 'l) \<Rightarrow> (nat \<Rightarrow> 's) \<Rightarrow> bool" where
  "fair_run step F ls \<sigma> \<longleftrightarrow> (\<forall>i. step (ls i) (\<sigma> i) (\<sigma> (Suc i))) \<and> (\<forall>l \<in> F. \<forall>i. \<exists>j \<ge> i. ls j = l)"

lemma fair_run_step: "fair_run step F ls \<sigma> \<Longrightarrow> step (ls i) (\<sigma> i) (\<sigma> (Suc i))"
  by (simp add: fair_run_def)

lemma fair_run_mono: "fair_run step F ls \<sigma> \<Longrightarrow> G \<subseteq> F \<Longrightarrow> fair_run step G ls \<sigma>"
  by (auto simp: fair_run_def)

lemma fair_run_again:
  assumes "fair_run step F ls \<sigma>" "l \<in> F"
  obtains k where "ls (i + k) = l"
proof -
  from assms obtain j where "j \<ge> i" "ls j = l" unfolding fair_run_def by blast
  with that [of "j - i"] show thesis by simp
qed

lemma fair_run_suffix:
  assumes "fair_run step F ls \<sigma>"
  shows "fair_run step F (\<lambda>k. ls (m + k)) (\<lambda>k. \<sigma> (m + k))"
proof -
  have "\<exists>j \<ge> i. ls (m + j) = l" if l: "l \<in> F" for l i
  proof -
    obtain k where "ls ((m + i) + k) = l" by (rule fair_run_again [OF assms l])
    then show ?thesis by (intro exI [of _ "i + k"]) (simp add: add.assoc)
  qed
  moreover have "step (ls (m + i)) (\<sigma> (m + i)) (\<sigma> (m + Suc i))" for i using fair_run_step [OF assms, of "m + i"] by simp
  ultimately show ?thesis unfolding fair_run_def by blast
qed

text \<open>
  Labels that are taken in turn: a function that makes the step of a label gives a fair run, as
  long as it makes a step in every state of an invariant.
\<close>

primrec round_robin :: "('l \<Rightarrow> 's \<Rightarrow> 's) \<Rightarrow> (nat \<Rightarrow> 'l) \<Rightarrow> 's \<Rightarrow> nat \<Rightarrow> 's" where
  "round_robin f ls s 0 = s"
| "round_robin f ls s (Suc i) = f (ls i) (round_robin f ls s i)"

definition in_turn :: "'l list \<Rightarrow> nat \<Rightarrow> 'l" where
  "in_turn xs i = xs ! (i mod length xs)"

lemma in_turn_again:
  assumes "l \<in> set xs"
  shows "\<exists>j \<ge> i. in_turn xs j = l"
proof -
  from assms obtain k where k: "k < length xs" "xs ! k = l" by (auto simp: in_set_conv_nth)
  then have "in_turn xs (i * length xs + k) = l" by (simp add: in_turn_def)
  moreover have "i \<le> i * length xs" using k(1) by (cases "length xs") auto
  then have "i \<le> i * length xs + k" by (rule trans_le_add1)
  ultimately show ?thesis by blast
qed

lemma round_robin_fair:
  assumes inv: "I s" and xs: "xs \<noteq> []" and step: "\<And>l s. l \<in> set xs \<Longrightarrow> I s \<Longrightarrow> step l s (f l s) \<and> I (f l s)"
  shows "fair_run step (set xs) (in_turn xs) (round_robin f (in_turn xs) s)"
proof -
  have turn: "in_turn xs i \<in> set xs" for i using xs by (simp add: in_turn_def)
  have I: "I (round_robin f (in_turn xs) s i)" for i by (induction i) (use inv step turn in auto)
  have "step (in_turn xs i) (round_robin f (in_turn xs) s i) (round_robin f (in_turn xs) s (Suc i))" for i
    using step [OF turn I] by simp
  moreover have "\<forall>l \<in> set xs. \<forall>i. \<exists>j \<ge> i. in_turn xs j = l" by (intro ballI allI in_turn_again)
  ultimately show ?thesis unfolding fair_run_def by (intro conjI allI)
qed

section \<open>Progress\<close>

locale fair_progress =
  fixes step :: "'l \<Rightarrow> 's \<Rightarrow> 's \<Rightarrow> bool" and fair :: "'l set"
    and inv :: "'s \<Rightarrow> bool" and goal :: "'s \<Rightarrow> bool"
    and helpful :: "'s \<Rightarrow> 'l" and rank :: "'s \<Rightarrow> 'r" and below :: "('r \<times> 'r) set"
  assumes below_wf: "wf below"
    and helpful_fair: "helpful s \<in> fair"
    and inv_step: "inv s \<Longrightarrow> step l s s' \<Longrightarrow> inv s'"
    and rank_step: "inv s \<Longrightarrow> \<not> goal s \<Longrightarrow> step l s s' \<Longrightarrow>
      goal s' \<or> (rank s', rank s) \<in> below \<or> rank s' = rank s \<and> helpful s' = helpful s"
    and rank_helpful: "inv s \<Longrightarrow> \<not> goal s \<Longrightarrow> step (helpful s) s s' \<Longrightarrow> goal s' \<or> (rank s', rank s) \<in> below"
begin

lemma run_inv:
  assumes "fair_run step fair ls \<sigma>" "inv (\<sigma> 0)"
  shows "inv (\<sigma> i)"
  by (induction i) (use assms inv_step fair_run_step in blast)+

text \<open>Within the time to the next step of the helpful thread the goal is reached or the rank goes down.\<close>

lemma rank_goes_down:
  assumes run: "fair_run step fair ls \<sigma>" and inv0: "inv (\<sigma> 0)" and turn: "ls (i + k) = helpful (\<sigma> i)"
  shows "\<exists>j \<ge> i. goal (\<sigma> j) \<or> (rank (\<sigma> j), rank (\<sigma> i)) \<in> below"
  using turn
proof (induction k arbitrary: i)
  case 0
  with rank_helpful [of "\<sigma> i" "\<sigma> (Suc i)"] run_inv [OF run inv0, of i] fair_run_step [OF run, of i] show ?case
    by (metis add_0_right le_Suc_eq order_refl)
next
  case (Suc k)
  consider "goal (\<sigma> i)" | "goal (\<sigma> (Suc i))" | "(rank (\<sigma> (Suc i)), rank (\<sigma> i)) \<in> below"
    | "rank (\<sigma> (Suc i)) = rank (\<sigma> i)" "helpful (\<sigma> (Suc i)) = helpful (\<sigma> i)"
    using rank_step [OF run_inv [OF run inv0] _ fair_run_step [OF run], of i] by blast
  then show ?case
  proof cases
    case 4
    with Suc.IH [of "Suc i"] Suc.prems obtain j where "j \<ge> Suc i" "goal (\<sigma> j) \<or> (rank (\<sigma> j), rank (\<sigma> i)) \<in> below" by auto
    then show ?thesis by (intro exI [of _ j]) auto
  qed (use le_Suc_eq in blast)+
qed

lemma goal_reached:
  assumes run: "fair_run step fair ls \<sigma>" and inv0: "inv (\<sigma> 0)"
  shows "\<exists>j \<ge> i. goal (\<sigma> j)"
proof (induction "rank (\<sigma> i)" arbitrary: i rule: wf_induct_rule [OF below_wf])
  case 1
  obtain k where "ls (i + k) = helpful (\<sigma> i)" by (rule fair_run_again [OF run helpful_fair])
  from rank_goes_down [OF run inv0 this] obtain j where j: "j \<ge> i" "goal (\<sigma> j) \<or> (rank (\<sigma> j), rank (\<sigma> i)) \<in> below" by blast
  with "1.hyps" [of j] show ?case using order_trans by blast
qed

end

end
