(* ===== verification/Server_Liveness.thy ===== *)
theory Server_Liveness
  imports Server_Properties Fair_Runs
begin

text \<open>
  Liveness of the server under weak fairness: every thread that can go on is scheduled again and
  again. A command that waits in the queue of a session is processed, and a signal ends the
  server. Both are instances of the rule \<open>fair_progress\<close>.
\<close>

section \<open>Scheduling\<close>

datatype server_thread = TMain | TSignal | TJournal | TMarket | TAccept | TReader nat | TWriter nat

fun thread_step ::
  "command \<Rightarrow> (command \<Rightarrow> int list) \<Rightarrow> (command \<Rightarrow> bool) \<Rightarrow> server_thread \<Rightarrow> server \<Rightarrow> server \<Rightarrow> bool" where
  "thread_step d answers fsync_ok TMain sv sv' \<longleftrightarrow> (\<exists>open_ok write_ok. main_step open_ok write_ok sv = Some sv')"
| "thread_step d answers fsync_ok TSignal sv sv' \<longleftrightarrow> sv' = HandleSignal sv"
| "thread_step d answers fsync_ok TJournal sv sv' \<longleftrightarrow>
     (\<exists>w. worker_Run_step (journal_deliver (sv_writer sv) answers fsync_ok) (sv_journal sv) = Some w \<and> sv' = sv\<lparr>sv_journal := w\<rparr>)"
| "thread_step d answers fsync_ok TMarket sv sv' \<longleftrightarrow>
     (\<exists>w. MarketDataPublisher_Run_step (\<lambda>e sink. Some sink) (sv_market sv) = Some w \<and> sv' = sv\<lparr>sv_market := w\<rparr>)"
| "thread_step d answers fsync_ok TAccept sv sv' \<longleftrightarrow> (\<exists>answer. server_accept d answer sv = Some sv')"
| "thread_step d answers fsync_ok (TReader i) sv sv' \<longleftrightarrow>
     (\<exists>recv s. i < length (sv_sessions sv) \<and> ReaderLoop_step recv (sv_sessions sv ! i) = Some s \<and>
        sv' = sv\<lparr>sv_sessions := (sv_sessions sv)[i := s]\<rparr>)"
| "thread_step d answers fsync_ok (TWriter i) sv sv' \<longleftrightarrow>
     (\<exists>answer s. i < length (sv_sessions sv) \<and> WriterLoop_step answer (sv_sessions sv ! i) = Some s \<and>
        sv' = sv\<lparr>sv_sessions := (sv_sessions sv)[i := s]\<rparr>)"

lemma thread_server_step: "thread_step d answers fsync_ok t sv sv' \<Longrightarrow> server_step d answers fsync_ok sv sv'"
  by (cases t) (auto intro: server_step.intros)

lemma server_step_thread: "server_step d answers fsync_ok sv sv' \<Longrightarrow> \<exists>t. thread_step d answers fsync_ok t sv sv'"
proof (induction rule: server_step.induct)
  case (main open_ok write_ok sv sv')
  then show ?case by (intro exI [of _ TMain]) auto
next
  case (signal sv)
  then show ?case by (intro exI [of _ TSignal]) simp
next
  case (journal sv w)
  then show ?case by (intro exI [of _ TJournal]) simp
next
  case (market sv w)
  then show ?case by (intro exI [of _ TMarket]) simp
next
  case (accept answer sv sv')
  then show ?case by (intro exI [of _ TAccept]) auto
next
  case (reader i sv recv s)
  then show ?case by (intro exI [of _ "TReader i"]) auto
next
  case (writer i sv answer s)
  then show ?case by (intro exI [of _ "TWriter i"]) auto
qed

text \<open>What the steps of the other threads leave alone.\<close>

lemma other_thread_frame:
  assumes "thread_step d answers fsync_ok t sv sv'" "t \<noteq> TMain"
  shows "sv_main sv' = sv_main sv" "sv_log sv' = sv_log sv" "sv_shutdown sv \<Longrightarrow> sv_shutdown sv'"
    "length (sv_sessions sv) \<le> length (sv_sessions sv')"
    "t \<noteq> TJournal \<Longrightarrow> sv_journal sv' = sv_journal sv" "t \<noteq> TMarket \<Longrightarrow> sv_market sv' = sv_market sv"
    "t \<noteq> TAccept \<Longrightarrow> sv_gateway sv' = sv_gateway sv"
  using assms by (cases t; auto simp: HandleSignal_def server_accept_def bind_eq_Some_conv split: option.splits)+

section \<open>The main thread\<close>

fun main_work :: "main_pc \<Rightarrow> nat \<times> nat \<times> nat" where
  "main_work (MPoll rest) = (length rest, 0, 0)"
| "main_work (MAppend i cmd rest) = (length rest, 3, 0)"
| "main_work (MDispatch i cmd rest) = (length rest, 2, 0)"
| "main_work (MPublish i es rest) = (length rest, 1, 2 * length es)"
| "main_work (MReply i e es rest) = (length rest, 1, 2 * length es + 1)"
| "main_work pc = (0, 0, 0)"

definition in_loop :: "main_pc \<Rightarrow> bool" where
  "in_loop pc \<longleftrightarrow> serving pc \<and> pc \<notin> {MLoop, MSnapshot, MAborted}"

abbreviation work_less :: "((nat \<times> nat \<times> nat) \<times> (nat \<times> nat \<times> nat)) set" where
  "work_less \<equiv> less_than <*lex*> less_than <*lex*> less_than"

lemma main_step_works:
  assumes "in_loop (sv_main sv)" "main_step open_ok write_ok sv = Some sv'"
  shows "(in_loop (sv_main sv') \<and> (main_work (sv_main sv'), main_work (sv_main sv)) \<in> work_less \<or> sv_main sv' = MLoop) \<and>
    sv_shutdown sv' = sv_shutdown sv"
proof (cases "sv_main sv")
  case (MPoll idx)
  with assms(2) show ?thesis
    by (cases idx) (auto simp: main_step_def in_loop_def bind_eq_Some_conv split: if_splits option.splits)
next
  case (MPublish i es rest)
  with assms(2) show ?thesis by (cases es) (auto simp: main_step_def in_loop_def bind_eq_Some_conv)
qed (use assms in \<open>auto simp: main_step_def in_loop_def serving_def bind_eq_Some_conv split: if_splits\<close>)

lemma main_keeps_flag:
  assumes "main_step open_ok write_ok sv = Some sv'"
  shows "sv_shutdown sv' = sv_shutdown sv"
proof (cases "sv_main sv")
  case (MPoll idx)
  with assms show ?thesis by (cases idx) (auto simp: main_step_def bind_eq_Some_conv split: if_splits)
next
  case (MPublish i es rest)
  with assms show ?thesis by (cases es) (auto simp: main_step_def bind_eq_Some_conv)
next
  case MSnapshot
  with assms show ?thesis by (auto simp: main_step_def split: sum.splits)
qed (use assms in \<open>auto simp: main_step_def bind_eq_Some_conv gateway_Stop_flag_def split: if_splits\<close>)

section \<open>Shutting down\<close>

text \<open>What the calls after the loop have stopped already.\<close>

definition stop_part :: "server \<Rightarrow> bool" where
  "stop_part sv \<longleftrightarrow> tg_pc (sv_gateway sv) \<noteq> ANew \<and>
     (sv_main sv \<in> {MCloseListener, MJoinGateway} \<longrightarrow> tg_stopped (sv_gateway sv)) \<and>
     (sv_main sv = MJoinMarket \<longrightarrow> \<not> wk_running (sv_market sv)) \<and>
     (sv_main sv = MJoinJournal \<longrightarrow> \<not> wk_running (sv_journal sv)) \<and>
     (\<not> in_loop (sv_main sv) \<and> sv_main sv \<noteq> MLoop \<longrightarrow> sv_shutdown sv)"

lemma in_loop_simps [simp]:
  "in_loop (MPoll idx)" "in_loop (MAppend i cmd idx)" "in_loop (MDispatch i cmd idx)" "in_loop (MPublish i es idx)"
  "in_loop (MReply i e es idx)" "\<not> in_loop MLoop" "\<not> in_loop MSnapshot" "\<not> in_loop MAborted" "\<not> in_loop MStopGateway"
  "\<not> in_loop MCloseListener" "\<not> in_loop MJoinGateway" "\<not> in_loop MStopMarket" "\<not> in_loop MJoinMarket"
  "\<not> in_loop MStopJournal" "\<not> in_loop MJoinJournal" "\<not> in_loop MExit"
  by (simp_all add: in_loop_def serving_def)

lemma stop_part_main:
  assumes "stop_part sv" "main_step open_ok write_ok sv = Some sv'"
  shows "stop_part sv'"
proof (cases "sv_main sv")
  case (MPoll idx)
  with assms show ?thesis by (cases idx) (auto simp: stop_part_def main_step_def bind_eq_Some_conv split: if_splits option.splits)
next
  case (MPublish i es rest)
  with assms show ?thesis by (cases es) (auto simp: stop_part_def main_step_def bind_eq_Some_conv)
next
  case MSnapshot
  with assms show ?thesis by (auto simp: stop_part_def main_step_def split: sum.splits)
qed (use assms in \<open>auto simp: stop_part_def main_step_def bind_eq_Some_conv gateway_Stop_flag_def gateway_Stop_close_def worker_Stop_def
      split: if_splits\<close>)

lemma accept_frame:
  assumes "server_accept d answer sv = Some sv'"
  shows "tg_stopped (sv_gateway sv') = tg_stopped (sv_gateway sv)" "tg_pc (sv_gateway sv) \<noteq> ANew \<Longrightarrow> tg_pc (sv_gateway sv') \<noteq> ANew"
    "tg_pc (sv_gateway sv) = ADone \<Longrightarrow> tg_pc (sv_gateway sv') = ADone"
    "tg_stopped (sv_gateway sv) \<Longrightarrow> tg_pc (sv_gateway sv) \<noteq> ANew \<Longrightarrow> tg_pc (sv_gateway sv') = ADone"
  using assms
  by (auto simp: server_accept_def AcceptLoop_step_def bind_eq_Some_conv split: accept_pc.splits if_splits prod.splits sum.splits)

lemma stop_part_step:
  assumes part: "stop_part sv" and step: "thread_step d answers fsync_ok t sv sv'"
  shows "stop_part sv'"
proof (cases "t = TMain")
  case True
  with assms stop_part_main show ?thesis by auto
next
  case False
  note frame = other_thread_frame [OF step False]
  have "tg_stopped (sv_gateway sv') = tg_stopped (sv_gateway sv)" "tg_pc (sv_gateway sv') \<noteq> ANew"
    using part step frame(7) accept_frame by (cases "t = TAccept"; auto simp: stop_part_def)+
  moreover have "wk_running (sv_market sv') = wk_running (sv_market sv)" "wk_running (sv_journal sv') = wk_running (sv_journal sv)"
    using step False worker_run_running by (cases t; auto simp: MarketDataPublisher_Run_step_def HandleSignal_def server_accept_def bind_eq_Some_conv)+
  ultimately show ?thesis using part frame(1,3) by (simp add: stop_part_def)
qed

text \<open>A stopped worker gets closer to its end with each of its steps.\<close>

definition worker_work :: "('a, 's) worker \<Rightarrow> nat" where
  "worker_work w =
     (case wk_pc w of
        Looping \<Rightarrow> Suc (Suc (length (spsc_contents (wk_queue w))))
      | Draining \<Rightarrow> Suc (length (spsc_contents (wk_queue w)))
      | Finished \<Rightarrow> 0)"

lemma worker_step_works:
  assumes inv: "spsc_inv (wk_queue w)" and stopped: "\<not> wk_running w" "wk_pc w \<noteq> Finished" and step: "worker_Run_step deliver w = Some w'"
  shows "worker_work w' < worker_work w"
proof (cases "wk_pc w")
  case Looping
  with stopped step show ?thesis by (auto simp: worker_Run_step_def worker_work_def)
next
  case Draining
  then obtain popped w1 where pop: "worker_pop deliver w = Some (popped, w1)" and w': "w' = (if popped then w1 else w1\<lparr>wk_pc := Finished\<rparr>)"
    using step by (auto simp: worker_Run_step_def bind_eq_Some_conv)
  show ?thesis
  proof (rule spsc.pop_cases [OF inv])
    fix q
    assume "spsc_TryPop (wk_queue w) = Some (None, q)"
    with pop w' Draining show ?thesis by (auto simp: worker_pop_def worker_work_def)
  next
    fix x q
    assume "spsc_TryPop (wk_queue w) = Some (Some x, q)" "spsc_contents (wk_queue w) = x # spsc_contents q"
    with pop w' Draining show ?thesis by (auto simp: worker_pop_def worker_work_def bind_eq_Some_conv)
  qed
qed (use stopped in simp)

text \<open>The rank: how far the main thread is from its end, then what the thread it waits for has left to do.\<close>

definition shutdown_rank :: "server \<Rightarrow> nat \<times> nat \<times> nat \<times> nat" where
  "shutdown_rank sv =
     (case sv_main sv of
        MLoop \<Rightarrow> (11, 0, 0, 0)
      | MSnapshot \<Rightarrow> (10, 0, 0, 0)
      | MStopGateway \<Rightarrow> (9, 0, 0, 0)
      | MCloseListener \<Rightarrow> (8, 0, 0, 0)
      | MJoinGateway \<Rightarrow> (7, if tg_pc (sv_gateway sv) = ADone then 0 else 1, 0, 0)
      | MStopMarket \<Rightarrow> (6, 0, 0, 0)
      | MJoinMarket \<Rightarrow> (5, worker_work (sv_market sv), 0, 0)
      | MStopJournal \<Rightarrow> (4, 0, 0, 0)
      | MJoinJournal \<Rightarrow> (3, worker_work (sv_journal sv), 0, 0)
      | MExit \<Rightarrow> (0, 0, 0, 0)
      | MAborted \<Rightarrow> (0, 0, 0, 0)
      | pc \<Rightarrow> (12, main_work pc))"

definition shutdown_helpful :: "server \<Rightarrow> server_thread" where
  "shutdown_helpful sv =
     (case sv_main sv of
        MJoinGateway \<Rightarrow> if tg_pc (sv_gateway sv) = ADone then TMain else TAccept
      | MJoinMarket \<Rightarrow> if wk_pc (sv_market sv) = Finished then TMain else TMarket
      | MJoinJournal \<Rightarrow> if wk_pc (sv_journal sv) = Finished then TMain else TJournal
      | _ \<Rightarrow> TMain)"

definition shutdown_inv where
  "shutdown_inv d answers fsync_ok n sv0 sv \<longleftrightarrow>
     server_inv d answers fsync_ok n sv0 sv \<and> fresh_worker (sv_journal sv0) \<and> fresh_worker (sv_market sv0) \<and>
     stop_part sv \<and> sv_shutdown sv"

definition ended :: "server \<Rightarrow> bool" where
  "ended sv \<longleftrightarrow> sv_main sv \<in> {MExit, MAborted}"

abbreviation rank_less :: "((nat \<times> nat \<times> nat \<times> nat) \<times> (nat \<times> nat \<times> nat \<times> nat)) set" where
  "rank_less \<equiv> less_than <*lex*> work_less"

lemma shutdown_rank_loop: "in_loop (sv_main sv) \<Longrightarrow> shutdown_rank sv = (12, main_work (sv_main sv))"
  by (cases "sv_main sv") (simp_all add: shutdown_rank_def)

lemma shutdown_main:
  assumes step: "main_step open_ok write_ok sv = Some sv'" and flag: "sv_shutdown sv" and live: "\<not> ended sv"
  shows "ended sv' \<or> (shutdown_rank sv', shutdown_rank sv) \<in> rank_less \<or> sv' = sv \<and> shutdown_helpful sv \<noteq> TMain"
proof (cases "in_loop (sv_main sv)")
  case True
  from main_step_works [OF True step] consider "sv_main sv' = MLoop"
    | "in_loop (sv_main sv')" "(main_work (sv_main sv'), main_work (sv_main sv)) \<in> work_less" by blast
  then show ?thesis
  proof cases
    case 1
    then have "shutdown_rank sv' = (11, 0, 0, 0)" by (simp add: shutdown_rank_def)
    then show ?thesis by (simp add: shutdown_rank_loop [OF True])
  next
    case 2
    then show ?thesis by (simp add: shutdown_rank_loop True)
  qed
next
  case False
  with step flag live show ?thesis
    by (cases "sv_main sv")
      (auto simp: main_step_def shutdown_rank_def shutdown_helpful_def ended_def gateway_Stop_flag_def worker_work_def bind_eq_Some_conv
        split: sum.splits if_splits)
qed

lemma shutdown_other:
  assumes inv: "shutdown_inv d answers fsync_ok n sv0 sv" and step: "thread_step d answers fsync_ok t sv sv'" and t: "t \<noteq> TMain"
    and live: "\<not> ended sv"
  shows "(shutdown_rank sv', shutdown_rank sv) \<in> rank_less \<or>
    shutdown_rank sv' = shutdown_rank sv \<and> shutdown_helpful sv' = shutdown_helpful sv \<and> t \<noteq> shutdown_helpful sv"
proof -
  note frame = other_thread_frame [OF step t]
  have stop: "stop_part sv" using inv by (simp add: shutdown_inv_def)
  have inv': "server_inv d answers fsync_ok n sv0 sv" and fresh: "fresh_worker (sv_journal sv0)" "fresh_worker (sv_market sv0)"
    using inv by (simp_all add: shutdown_inv_def)
  have queues: "spsc_inv (wk_queue (sv_journal sv))" "spsc_inv (wk_queue (sv_market sv))"
    using worker_history_inv [OF fresh(1)] worker_history_inv [OF fresh(2)] server_invD(3,4) [OF inv']
    by (auto simp: journal_part_def market_part_def worker_inv_def)
  consider (gateway) "sv_main sv = MJoinGateway" "t = TAccept" | (market) "sv_main sv = MJoinMarket" "t = TMarket"
    | (journal) "sv_main sv = MJoinJournal" "t = TJournal"
    | (quiet) "\<not> (sv_main sv = MJoinGateway \<and> t = TAccept)" "\<not> (sv_main sv = MJoinMarket \<and> t = TMarket)"
        "\<not> (sv_main sv = MJoinJournal \<and> t = TJournal)" by blast
  then show ?thesis
  proof cases
    case gateway
    then obtain answer where acc: "server_accept d answer sv = Some sv'" using step by auto
    have "tg_pc (sv_gateway sv') = ADone" using accept_frame(4) [OF acc] stop gateway by (simp add: stop_part_def)
    then show ?thesis using gateway frame(1) by (auto simp: shutdown_rank_def shutdown_helpful_def)
  next
    case market
    then obtain w where w: "worker_Run_step (\<lambda>e sink. Some sink) (sv_market sv) = Some w" "sv' = sv\<lparr>sv_market := w\<rparr>"
      using step by (auto simp: MarketDataPublisher_Run_step_def)
    have "\<not> wk_running (sv_market sv)" using stop market by (simp add: stop_part_def)
    with worker_step_works [OF queues(2) _ _ w(1)] worker_run_running [OF w(1)] market w(2) show ?thesis
      by (cases "wk_pc (sv_market sv) = Finished") (auto simp: shutdown_rank_def shutdown_helpful_def)
  next
    case journal
    then obtain w where w: "worker_Run_step (journal_deliver (sv_writer sv) answers fsync_ok) (sv_journal sv) = Some w" "sv' = sv\<lparr>sv_journal := w\<rparr>"
      using step by auto
    have "\<not> wk_running (sv_journal sv)" using stop journal by (simp add: stop_part_def)
    with worker_step_works [OF queues(1) _ _ w(1)] worker_run_running [OF w(1)] journal w(2) show ?thesis
      by (cases "wk_pc (sv_journal sv) = Finished") (auto simp: shutdown_rank_def shutdown_helpful_def)
  next
    case quiet
    with frame t show ?thesis by (cases "sv_main sv") (auto simp: shutdown_rank_def shutdown_helpful_def)
  qed
qed

interpretation shutdown:
  fair_progress "thread_step d answers fsync_ok" "{TMain, TJournal, TMarket, TAccept}" "shutdown_inv d answers fsync_ok n sv0" ended
    shutdown_helpful shutdown_rank rank_less for d answers fsync_ok n sv0
proof
  show "wf rank_less" by (intro wf_lex_prod wf_less_than)
  show "shutdown_helpful sv \<in> {TMain, TJournal, TMarket, TAccept}" for sv
    by (simp add: shutdown_helpful_def split: main_pc.split)
  show "shutdown_inv d answers fsync_ok n sv0 sv'" if "shutdown_inv d answers fsync_ok n sv0 sv" "thread_step d answers fsync_ok t sv sv'" for sv sv' t
  proof -
    have "sv_shutdown sv'"
    proof (cases "t = TMain")
      case True
      with that main_keeps_flag show ?thesis by (auto simp: shutdown_inv_def)
    next
      case False
      with that other_thread_frame(3) show ?thesis by (auto simp: shutdown_inv_def)
    qed
    with that stop_part_step server_step_inv [OF thread_server_step] show ?thesis unfolding shutdown_inv_def by blast
  qed
  show "ended sv' \<or> (shutdown_rank sv', shutdown_rank sv) \<in> rank_less \<or>
      shutdown_rank sv' = shutdown_rank sv \<and> shutdown_helpful sv' = shutdown_helpful sv"
    if "shutdown_inv d answers fsync_ok n sv0 sv" "\<not> ended sv" "thread_step d answers fsync_ok t sv sv'" for sv sv' t
  proof (cases "t = TMain")
    case True
    with that shutdown_main show ?thesis by (auto simp: shutdown_inv_def)
  next
    case False
    from shutdown_other [OF that(1,3) False that(2)] show ?thesis by blast
  qed
  show "ended sv' \<or> (shutdown_rank sv', shutdown_rank sv) \<in> rank_less"
    if "shutdown_inv d answers fsync_ok n sv0 sv" "\<not> ended sv" "thread_step d answers fsync_ok (shutdown_helpful sv) sv sv'" for sv sv'
  proof (cases "shutdown_helpful sv = TMain")
    case True
    with that shutdown_main show ?thesis by (auto simp: shutdown_inv_def)
  next
    case False
    from shutdown_other [OF that(1,3) False that(2)] show ?thesis by blast
  qed
qed

lemma reachable_stop_part:
  assumes "server_reachable d answers fsync_ok sv0 sv" "server_start d dev open_ok file ans K args = Some (Inr sv0)"
  shows "stop_part sv"
  using assms(1)
proof induction
  case start
  show ?case by (rule server_start_parts [OF assms(2)]) (simp add: gateway_Start_def stop_part_def)
next
  case (step sv sv')
  with server_step_thread stop_part_step show ?case by blast
qed

lemma run_reachable:
  assumes "fair_run (thread_step d answers fsync_ok) F ls \<sigma>" "server_reachable d answers fsync_ok sv0 (\<sigma> 0)"
  shows "server_reachable d answers fsync_ok sv0 (\<sigma> i)"
  by (induction i) (use assms fair_run_step [OF assms(1)] thread_server_step server_reachable.step in blast)+

text \<open>Fair runs from every reachable state, when the operating system lets the journal's writes succeed.\<close>

definition run_thread :: "command \<Rightarrow> (command \<Rightarrow> int list) \<Rightarrow> (command \<Rightarrow> bool) \<Rightarrow> server_thread \<Rightarrow> server \<Rightarrow> server" where
  "run_thread d answers fsync_ok t sv =
     (case t of
        TMain \<Rightarrow> the (main_step True True sv)
      | TJournal \<Rightarrow> sv\<lparr>sv_journal := the (worker_Run_step (journal_deliver (sv_writer sv) answers fsync_ok) (sv_journal sv))\<rparr>
      | TMarket \<Rightarrow> sv\<lparr>sv_market := the (MarketDataPublisher_Run_step (\<lambda>e sink. Some sink) (sv_market sv))\<rparr>
      | TAccept \<Rightarrow> the (server_accept d (- 1) sv)
      | _ \<Rightarrow> sv)"

abbreviation program_threads :: "server_thread set" where
  "program_threads \<equiv> {TMain, TJournal, TMarket, TAccept}"

lemma worker_step_defined:
  assumes "spsc_inv (wk_queue w)" "\<And>x s. deliver x s \<noteq> None"
  shows "worker_Run_step deliver w \<noteq> None"
proof -
  have "\<exists>out q. spsc_TryPop (wk_queue w) = Some (out, q)" using spsc.pop_law [OF assms(1)] by blast
  then obtain out q where pop: "spsc_TryPop (wk_queue w) = Some (out, q)" by blast
  have "worker_pop deliver w \<noteq> None"
  proof (cases out)
    case (Some x)
    with pop assms(2) [of x "wk_sink w"] show ?thesis by (auto simp: worker_pop_def)
  qed (use pop in \<open>simp add: worker_pop_def\<close>)
  then show ?thesis by (auto simp: worker_Run_step_def split: worker_pc.split)
qed

lemma fair_run_exists:
  assumes start: "server_start d dev open_ok file ans K args = Some (Inr sv0)" "sa_num_partitions args \<noteq> 0"
    and reach: "server_reachable d answers fsync_ok sv0 sv"
    and total: "\<And>cmd f. journal_deliver (sv_writer sv0) answers fsync_ok cmd f \<noteq> None"
  shows "\<exists>ls \<sigma>. fair_run (thread_step d answers fsync_ok) program_threads ls \<sigma> \<and> \<sigma> 0 = sv"
proof -
  let ?f = "run_thread d answers fsync_ok" and ?xs = "[TMain, TJournal, TMarket, TAccept]"
  have step: "thread_step d answers fsync_ok t sv (?f t sv)" if reach: "server_reachable d answers fsync_ok sv0 sv" and t: "t \<in> set ?xs" for t sv
  proof -
    have inv: "server_inv d answers fsync_ok (unat (sa_num_partitions args)) sv0 sv" by (rule server_reachable_inv [OF reach start])
    note I = server_invD [OF inv] and fresh = server_start_inv(2,3) [OF start]
    have "\<exists>open_ok write_ok. main_step open_ok write_ok sv = Some (the (main_step True True sv))"
      using main_step_defined [OF inv fresh, of True True] by (metis option.collapse)
    moreover have "spsc_inv (wk_queue (sv_journal sv))" using worker_history_inv [OF fresh(1)] I(3) by (auto simp: journal_part_def worker_inv_def)
    with worker_step_defined total obtain w where "worker_Run_step (journal_deliver (sv_writer sv) answers fsync_ok) (sv_journal sv) = Some w"
      unfolding I(1) by blast
    moreover have "spsc_inv (wk_queue (sv_market sv))" using worker_history_inv [OF fresh(2)] I(4) by (auto simp: market_part_def worker_inv_def)
    with worker_step_defined [of "sv_market sv" "\<lambda>e sink. Some sink"] obtain w' where
      "MarketDataPublisher_Run_step (\<lambda>e sink. Some sink) (sv_market sv) = Some w'" by (auto simp: MarketDataPublisher_Run_step_def)
    moreover have "server_accept d (- 1) sv \<noteq> None"
      using AcceptLoop_defined [of d "- 1" "sv_gateway sv" "sv_kernel sv"] by (auto simp: server_accept_def)
    then have "\<exists>answer. server_accept d answer sv = Some (the (server_accept d (- 1) sv))" by (metis option.collapse)
    ultimately show ?thesis using t by (cases t) (simp_all add: run_thread_def)
  qed
  have "fair_run (thread_step d answers fsync_ok) (set ?xs) (in_turn ?xs) (round_robin ?f (in_turn ?xs) sv)"
  proof (rule round_robin_fair [of "server_reachable d answers fsync_ok sv0"])
    show "thread_step d answers fsync_ok t sv (?f t sv) \<and> server_reachable d answers fsync_ok sv0 (?f t sv)"
      if "t \<in> set ?xs" "server_reachable d answers fsync_ok sv0 sv" for t sv
      using step [OF that(2,1)] server_reachable.step [OF that(2) thread_server_step] by blast
  qed (use reach in simp_all)
  then show ?thesis by (intro exI [of _ "in_turn ?xs"] exI [of _ "round_robin ?f (in_turn ?xs) sv"]) simp
qed


section \<open>Serving\<close>

text \<open>The commands that a session has handed over: popped or in its queue.\<close>

definition queued :: "nat \<Rightarrow> server \<Rightarrow> command list" where
  "queued i sv = gs_popped (sv_sessions sv ! i) @ spsc_contents (gs_inbound (sv_sessions sv ! i))"

lemma reader_queues:
  assumes inv: "spsc_inv (gs_inbound s)" and step: "ReaderLoop_step recv s = Some s'"
  shows "prefix (gs_popped s @ spsc_contents (gs_inbound s)) (gs_popped s' @ spsc_contents (gs_inbound s'))"
proof (cases "gs_reader s")
  case (RPush cmd)
  with step spsc.push_law [OF inv, of cmd] show ?thesis by (auto simp: ReaderLoop_step_def bind_eq_Some_conv split: if_splits)
qed (use step in \<open>auto simp: ReaderLoop_step_def Let_def split: option.splits frame_result.splits prod.splits if_splits\<close>)

lemma pop_queues:
  assumes inv: "spsc_inv (gs_inbound s)" and pop: "session_TryPopInbound s = Some (out, s')"
  shows "gs_popped s' @ spsc_contents (gs_inbound s') = gs_popped s @ spsc_contents (gs_inbound s)"
    "out = None \<longleftrightarrow> spsc_contents (gs_inbound s) = []"
  using spsc.pop_law [OF inv] pop
  by (cases "spsc_contents (gs_inbound s)"; auto simp: session_TryPopInbound_def bind_eq_Some_conv split: if_splits)+

lemma sessions_inbound_inv:
  assumes "server_inv d answers fsync_ok n sv0 sv" "i < length (sv_sessions sv)"
  shows "spsc_inv (gs_inbound (sv_sessions sv ! i))"
proof -
  have "session_part d (sv_main sv) (sv_log sv) i (sv_sessions sv ! i)" using server_invD(5) [OF assms(1)] assms(2) by (simp add: sessions_part_def)
  then show ?thesis using session_reachable_inv by (auto simp: session_part_def reader_inv_def)
qed

lemma queued_main:
  assumes inv: "server_inv d answers fsync_ok n sv0 sv" and i: "i < length (sv_sessions sv)"
    and step: "main_step open_ok write_ok sv = Some sv'"
  shows "length (sv_sessions sv') = length (sv_sessions sv)" "queued i sv' = queued i sv"
proof (atomize (full), cases "sv_main sv")
  case (MPoll idx)
  show "length (sv_sessions sv') = length (sv_sessions sv) \<and> queued i sv' = queued i sv"
  proof (cases idx)
    case (Cons j rest)
    from MPoll Cons step obtain out s where pop: "session_TryPopInbound (sv_sessions sv ! j) = Some (out, s)" "j < length (sv_sessions sv)"
      and sv': "sv_sessions sv' = (sv_sessions sv)[j := s]" by (auto simp: main_step_def bind_eq_Some_conv split: if_splits)
    with pop_queues(1) [OF sessions_inbound_inv [OF inv pop(2)] pop(1)] show ?thesis by (simp add: queued_def nth_list_update)
  qed (use MPoll step in \<open>auto simp: main_step_def queued_def\<close>)
next
  case (MPublish j es rest)
  with step show "length (sv_sessions sv') = length (sv_sessions sv) \<and> queued i sv' = queued i sv"
    by (cases es) (auto simp: main_step_def queued_def bind_eq_Some_conv)
next
  case (MReply j e es rest)
  with step show "length (sv_sessions sv') = length (sv_sessions sv) \<and> queued i sv' = queued i sv"
    by (auto simp: main_step_def queued_def bind_eq_Some_conv session_TryPushOutbound_def nth_list_update split: if_splits)
next
  case MSnapshot
  with step show "length (sv_sessions sv') = length (sv_sessions sv) \<and> queued i sv' = queued i sv"
    by (auto simp: main_step_def queued_def split: sum.splits)
qed (use step in \<open>auto simp: main_step_def queued_def bind_eq_Some_conv gateway_Stop_flag_def split: if_splits\<close>)

lemma queued_other:
  assumes inv: "server_inv d answers fsync_ok n sv0 sv" and i: "i < length (sv_sessions sv)"
    and step: "thread_step d answers fsync_ok t sv sv'" "t \<noteq> TMain"
  shows "prefix (queued i sv) (queued i sv')"
proof (cases t)
  case TAccept
  with step i show ?thesis by (auto simp: queued_def server_accept_def bind_eq_Some_conv nth_append split: option.splits)
next
  case (TReader j)
  with step reader_queues [OF sessions_inbound_inv [OF inv i]] show ?thesis by (auto simp: queued_def nth_list_update)
next
  case (TWriter j)
  with step obtain answer s where "WriterLoop_step answer (sv_sessions sv ! j) = Some s" "sv_sessions sv' = (sv_sessions sv)[j := s]" by auto
  with writer_step_frame(5,6) [OF this(1)] show ?thesis by (cases "j = i") (auto simp: queued_def i)
qed (use step in \<open>auto simp: queued_def HandleSignal_def\<close>)

text \<open>
  The rank: how many of the first \<open>K\<close> commands of session \<open>i\<close> are not
  yet processed, then whether the main thread has one in hand, will come to the session in this
  round or only in the next, and then the work it has left in the round.
\<close>

fun round_phase :: "nat \<Rightarrow> main_pc \<Rightarrow> nat" where
  "round_phase i (MPoll rest) = (if i \<in> set rest then 1 else 3)"
| "round_phase i (MAppend j cmd rest) = (if j = i then 0 else if i \<in> set rest then 1 else 3)"
| "round_phase i (MDispatch j cmd rest) = (if j = i then 0 else if i \<in> set rest then 1 else 3)"
| "round_phase i (MPublish j es rest) = (if i \<in> set rest then 1 else 3)"
| "round_phase i (MReply j e es rest) = (if i \<in> set rest then 1 else 3)"
| "round_phase i pc = 2"

definition served :: "nat \<Rightarrow> server \<Rightarrow> nat" where
  "served i sv = length (session_cmds i (sv_log sv))"

definition serve_rank :: "nat \<Rightarrow> nat \<Rightarrow> server \<Rightarrow> nat \<times> nat \<times> nat \<times> nat \<times> nat" where
  "serve_rank i K sv = (K - served i sv, round_phase i (sv_main sv), main_work (sv_main sv))"

definition serve_goal :: "nat \<Rightarrow> nat \<Rightarrow> server \<Rightarrow> bool" where
  "serve_goal i K sv \<longleftrightarrow> K \<le> served i sv \<or> sv_shutdown sv"

definition serve_inv where
  "serve_inv d answers fsync_ok n sv0 i K sv \<longleftrightarrow>
     server_inv d answers fsync_ok n sv0 sv \<and> stop_part sv \<and> i < length (sv_sessions sv) \<and> K \<le> length (queued i sv)"

abbreviation serve_less :: "((nat \<times> nat \<times> nat \<times> nat \<times> nat) \<times> (nat \<times> nat \<times> nat \<times> nat \<times> nat)) set" where
  "serve_less \<equiv> less_than <*lex*> less_than <*lex*> work_less"

lemma popped_served:
  assumes "server_inv d answers fsync_ok n sv0 sv" "i < length (sv_sessions sv)"
  shows "length (gs_popped (sv_sessions sv ! i)) = served i sv + length (popped_cmd (sv_main sv) i)"
  using server_invD(5) [OF assms(1)] assms(2) by (simp add: sessions_part_def session_part_def served_def)

lemma serve_main_log:
  assumes "main_step open_ok write_ok sv = Some sv'"
  shows "served i sv' = served i sv + (case sv_main sv of MDispatch j cmd rest \<Rightarrow> if j = i then 1 else 0 | _ \<Rightarrow> 0)"
proof (cases "sv_main sv")
  case (MPoll idx)
  with assms show ?thesis by (cases idx) (auto simp: main_step_def served_def bind_eq_Some_conv split: if_splits)
next
  case (MPublish i es rest)
  with assms show ?thesis by (cases es) (auto simp: main_step_def served_def bind_eq_Some_conv)
next
  case MSnapshot
  with assms show ?thesis by (auto simp: main_step_def served_def split: sum.splits)
qed (use assms in \<open>auto simp: main_step_def served_def bind_eq_Some_conv gateway_Stop_flag_def split: if_splits\<close>)

text \<open>Within a round the phase does not go up, except that the command in hand is processed.\<close>

lemma serve_phase:
  assumes step: "main_step open_ok write_ok sv = Some sv'" and loop: "in_loop (sv_main sv)"
    and waiting: "\<And>rest s. sv_main sv = MPoll (i # rest) \<Longrightarrow> session_TryPopInbound (sv_sessions sv ! i) \<noteq> Some (None, s)"
    and no_dispatch: "\<And>cmd rest. sv_main sv \<noteq> MDispatch i cmd rest"
  shows "round_phase i (sv_main sv') \<le> round_phase i (sv_main sv)"
proof (cases "sv_main sv")
  case (MPoll idx)
  show ?thesis
  proof (cases idx)
    case Nil
    with MPoll step show ?thesis by (auto simp: main_step_def)
  next
    case (Cons j rest)
    from MPoll Cons step obtain out s where pop: "session_TryPopInbound (sv_sessions sv ! j) = Some (out, s)"
      and pc': "sv_main sv' = (case out of None \<Rightarrow> MPoll rest | Some cmd \<Rightarrow> MAppend j cmd rest)"
      by (auto simp: main_step_def bind_eq_Some_conv split: if_splits)
    have "out \<noteq> None" if "j = i" using waiting [of rest s] MPoll Cons pop that by auto
    with MPoll Cons pc' show ?thesis by (cases out) auto
  qed
next
  case (MPublish i es rest)
  with step show ?thesis by (cases es) (auto simp: main_step_def bind_eq_Some_conv)
qed (use step loop no_dispatch in \<open>auto simp: main_step_def bind_eq_Some_conv split: if_splits\<close>)

lemma serve_main:
  assumes inv: "serve_inv d answers fsync_ok n sv0 i K sv" and open_goal: "\<not> serve_goal i K sv"
    and step: "main_step open_ok write_ok sv = Some sv'"
  shows "(serve_rank i K sv', serve_rank i K sv) \<in> serve_less"
proof -
  have S: "server_inv d answers fsync_ok n sv0 sv" "stop_part sv" "i < length (sv_sessions sv)" "K \<le> length (queued i sv)"
    using inv by (simp_all add: serve_inv_def)
  have todo: "served i sv < K" "\<not> sv_shutdown sv" using open_goal by (auto simp: serve_goal_def)
  then have "in_loop (sv_main sv) \<or> sv_main sv = MLoop" using S(2) by (auto simp: stop_part_def)
  then consider "sv_main sv = MLoop" | cmd rest where "sv_main sv = MDispatch i cmd rest"
    | "in_loop (sv_main sv)" "\<And>cmd rest. sv_main sv \<noteq> MDispatch i cmd rest" by blast
  then show ?thesis
  proof cases
    case 1
    with step todo S(3) serve_main_log [OF step, of i] show ?thesis by (auto simp: main_step_def serve_rank_def)
  next
    case 2
    with serve_main_log [OF step, of i] todo show ?thesis by (auto simp: serve_rank_def)
  next
    case 3
    have waiting: "session_TryPopInbound (sv_sessions sv ! i) \<noteq> Some (None, s)" if pc: "sv_main sv = MPoll (i # rest)" for rest s
    proof
      assume "session_TryPopInbound (sv_sessions sv ! i) = Some (None, s)"
      with pop_queues(2) [OF sessions_inbound_inv [OF S(1,3)]] have "spsc_contents (gs_inbound (sv_sessions sv ! i)) = []" by blast
      with popped_served [OF S(1,3)] S(4) todo(1) pc show False by (simp add: queued_def)
    qed
    have same: "served i sv' = served i sv" using serve_main_log [OF step, of i] 3(2) by (auto split: main_pc.splits if_splits)
    have phase: "round_phase i (sv_main sv') \<le> round_phase i (sv_main sv)"
      by (rule serve_phase [OF step 3(1) _ 3(2)]) (use waiting in blast)
    from main_step_works [OF 3(1) step] consider "sv_main sv' = MLoop"
      | "(main_work (sv_main sv'), main_work (sv_main sv)) \<in> work_less" by blast
    then show ?thesis
    proof cases
      case 1
      then have "sv_main sv = MPoll []" using step 3(1)
        by (cases "sv_main sv"; auto simp: main_step_def bind_eq_Some_conv split: if_splits list.splits option.splits)
      with 1 same show ?thesis by (simp add: serve_rank_def)
    next
      case 2
      with same phase show ?thesis by (cases "round_phase i (sv_main sv') = round_phase i (sv_main sv)") (auto simp: serve_rank_def)
    qed
  qed
qed

lemma queued_grows:
  assumes inv: "server_inv d answers fsync_ok n sv0 sv" and i: "i < length (sv_sessions sv)" and step: "thread_step d answers fsync_ok t sv sv'"
  shows "i < length (sv_sessions sv') \<and> prefix (queued i sv) (queued i sv')"
proof (cases "t = TMain")
  case True
  with step queued_main [OF inv i] i show ?thesis by auto
next
  case False
  with queued_other [OF inv i step] other_thread_frame(4) [OF step] i show ?thesis by simp
qed

interpretation serving:
  fair_progress "thread_step d answers fsync_ok" "{TMain}" "serve_inv d answers fsync_ok n sv0 i K" "serve_goal i K"
    "\<lambda>sv. TMain" "serve_rank i K" serve_less for d answers fsync_ok n sv0 i K
proof
  show "wf serve_less" by (intro wf_lex_prod wf_less_than)
  show "TMain \<in> {TMain}" by simp
  show "serve_inv d answers fsync_ok n sv0 i K sv'" if "serve_inv d answers fsync_ok n sv0 i K sv" "thread_step d answers fsync_ok t sv sv'" for sv sv' t
  proof -
    have S: "server_inv d answers fsync_ok n sv0 sv" "stop_part sv" "i < length (sv_sessions sv)" "K \<le> length (queued i sv)"
      using that(1) by (simp_all add: serve_inv_def)
    have "i < length (sv_sessions sv') \<and> K \<le> length (queued i sv')"
      using queued_grows [OF S(1,3) that(2)] prefix_length_le S(4) order_trans by blast
    with S that(2) stop_part_step server_step_inv [OF thread_server_step] show ?thesis unfolding serve_inv_def by blast
  qed
  show "serve_goal i K sv' \<or> (serve_rank i K sv', serve_rank i K sv) \<in> serve_less"
    if "serve_inv d answers fsync_ok n sv0 i K sv" "\<not> serve_goal i K sv" "thread_step d answers fsync_ok TMain sv sv'" for sv sv'
    using that serve_main by auto
  then show "serve_goal i K sv' \<or> (serve_rank i K sv', serve_rank i K sv) \<in> serve_less \<or>
      serve_rank i K sv' = serve_rank i K sv \<and> TMain = TMain"
    if "serve_inv d answers fsync_ok n sv0 i K sv" "\<not> serve_goal i K sv" "thread_step d answers fsync_ok t sv sv'" for sv sv' t
    using that other_thread_frame(1,2) [OF that(3)] by (cases "t = TMain") (auto simp: serve_rank_def served_def)
qed

lemma run_queued_grows:
  assumes inv: "\<And>k. server_inv d answers fsync_ok n sv0 (\<sigma> k)" and run: "fair_run (thread_step d answers fsync_ok) F ls \<sigma>"
    and i: "i < length (sv_sessions (\<sigma> m))"
  shows "i < length (sv_sessions (\<sigma> (m + k))) \<and> prefix (queued i (\<sigma> m)) (queued i (\<sigma> (m + k)))"
proof (induction k)
  case (Suc k)
  with queued_grows [OF inv _ fair_run_step [OF run]] show ?case using prefix_order.order_trans by fastforce
qed (use i in simp)

text \<open>
  C14. Every queued command is processed: in every run in which the main thread is scheduled
  again and again, whatever all other threads, clients and the operating system do, the commands
  that wait in the queue of a session at some moment have all been processed at some later
  moment, in their order and after those popped before them, unless the server is told to shut
  down.
\<close>

theorem queued_commands_processed:
  assumes "server_start d dev open_ok file ans K args = Some (Inr sv0)" "sa_num_partitions args \<noteq> 0"
    and "server_reachable d answers fsync_ok sv0 (\<sigma> 0)" "fair_run (thread_step d answers fsync_ok) {TMain} ls \<sigma>"
    and "i < length (sv_sessions (\<sigma> m))"
  shows "\<exists>j \<ge> m. sv_shutdown (\<sigma> j) \<or>
    prefix (gs_popped (sv_sessions (\<sigma> m) ! i) @ spsc_contents (gs_inbound (sv_sessions (\<sigma> m) ! i))) (session_cmds i (sv_log (\<sigma> j)))"
proof -
  let ?n = "unat (sa_num_partitions args)" and ?K = "length (queued i (\<sigma> m))" and ?\<sigma> = "\<lambda>k. \<sigma> (m + k)" and ?ls = "\<lambda>k. ls (m + k)"
  have reach: "server_reachable d answers fsync_ok sv0 (\<sigma> k)" for k by (rule run_reachable [OF assms(4,3)])
  have inv: "server_inv d answers fsync_ok ?n sv0 (\<sigma> k)" for k by (rule server_reachable_inv [OF reach assms(1,2)])
  have run: "fair_run (thread_step d answers fsync_ok) {TMain} ?ls ?\<sigma>" by (rule fair_run_suffix [OF assms(4)])
  have "serve_inv d answers fsync_ok ?n sv0 i ?K (?\<sigma> 0)"
    using inv reachable_stop_part [OF reach assms(1)] assms(5) by (simp add: serve_inv_def)
  from serving.goal_reached [OF run this, of 0] obtain k where k: "serve_goal i ?K (\<sigma> (m + k))" by blast
  note grows = run_queued_grows [OF inv assms(4,5), of k]
  have "prefix (queued i (\<sigma> m)) (session_cmds i (sv_log (\<sigma> (m + k))))" if "?K \<le> served i (\<sigma> (m + k))"
  proof (rule prefix_length_prefix)
    show "prefix (queued i (\<sigma> m)) (queued i (\<sigma> (m + k)))" using grows by blast
    have "session_part d (sv_main (\<sigma> (m + k))) (sv_log (\<sigma> (m + k))) i (sv_sessions (\<sigma> (m + k)) ! i)"
      using server_invD(5) [OF inv] grows by (simp add: sessions_part_def)
    then show "prefix (session_cmds i (sv_log (\<sigma> (m + k)))) (queued i (\<sigma> (m + k)))" by (simp add: session_part_def queued_def)
  qed (use that in \<open>simp add: served_def\<close>)
  with k show ?thesis unfolding serve_goal_def queued_def [symmetric] by (intro exI [of _ "m + k"]) auto
qed

section \<open>Witnesses\<close>

lemma ex_deliver_total: "journal_deliver jw ex_writes (\<lambda>_. True) cmd f \<noteq> None"
  using append_one_byte_at_a_time [of jw True cmd f] by (auto simp: journal_deliver_def split: prod.splits append_result.splits)


theorem queued_commands_processed_witness:
  "\<exists>sv0 ls \<sigma>. ex_start = Some (Inr sv0) \<and> ex_reachable sv0 (\<sigma> 0) \<and> fair_run (thread_step ex_cancel ex_writes (\<lambda>_. True)) {TMain} ls \<sigma> \<and>
     sv_log (\<sigma> 0) = [] \<and> spsc_contents (gs_inbound (sv_sessions (\<sigma> 0) ! 0)) = [ex_new_order] \<and>
     (\<exists>j. sv_shutdown (\<sigma> j) \<or> prefix [ex_new_order] (session_cmds 0 (sv_log (\<sigma> j))))"
proof (rule ex_waiting)
  fix sv0 sv s
  assume s: "ex_start = Some (Inr sv0)" "ex_reachable sv0 sv" "sv_sessions sv = [s]" "sv_log sv = []" "gs_popped s = []"
    "spsc_contents (gs_inbound s) = [ex_new_order]"
  note start = s(1) [unfolded ex_start_def]
  from fair_run_exists [OF start ex_partitions s(2) ex_deliver_total] obtain ls \<sigma> where
    all: "fair_run (thread_step ex_cancel ex_writes (\<lambda>_. True)) program_threads ls \<sigma>" and zero: "\<sigma> 0 = sv" by blast
  have run: "fair_run (thread_step ex_cancel ex_writes (\<lambda>_. True)) {TMain} ls \<sigma>" by (rule fair_run_mono [OF all]) simp
  have zero': "ex_reachable sv0 (\<sigma> 0)" "0 < length (sv_sessions (\<sigma> 0))" using s by (simp_all add: zero)
  have "gs_popped (sv_sessions (\<sigma> 0) ! 0) @ spsc_contents (gs_inbound (sv_sessions (\<sigma> 0) ! 0)) = [ex_new_order]"
    using s by (simp add: zero)
  with queued_commands_processed [OF start ex_partitions zero'(1) run zero'(2)]
  have "\<exists>j. sv_shutdown (\<sigma> j) \<or> prefix [ex_new_order] (session_cmds 0 (sv_log (\<sigma> j)))" by metis
  moreover have "sv_log (\<sigma> 0) = []" "spsc_contents (gs_inbound (sv_sessions (\<sigma> 0) ! 0)) = [ex_new_order]" using s by (simp_all add: zero)
  ultimately show ?thesis using s(1) zero'(1) run by (intro exI [of _ sv0] exI [of _ ls] exI [of _ \<sigma>] conjI)
qed

end
