(* ===== verification/Spec2Isabelle.thy ===== *)
theory Spec2Isabelle
  imports Fast_Properties Event_Types Spsc_Atomic Publisher_Lifetime Session_Lifetime Send_Order Server_Liveness
begin

text \<open>
  A model of the order-book matching engine under \<open>src/\<close> and the theorems that make it correct.

  \<^bold>\<open>The program.\<close> Clients send framed commands over TCP. A session's reader thread reassembles
  the frames, decodes the commands and queues them; the engine thread pops a command, offers it
  to the asynchronous journal, dispatches it to the partition that owns its symbol, and hands the
  resulting events to the market-data publisher and back to the session, whose writer thread
  frames and sends them. A partition is a single-threaded \<open>MatchingEngine\<close> with one order book per
  symbol. Recovery loads a snapshot of all partitions and replays the journal.

  \<^bold>\<open>The theories\<close>, in the order in which they build on each other:

  \<^item> \<open>ME_Prelude\<close>: the standard containers (\<open>std::map\<close> under a comparator as the locale
    \<open>map_order\<close>, \<open>std::unordered_map\<close> as an association list) and shared lemmas.
  \<^item> \<open>ME_Types\<close>: \<open>types.hpp\<close>, \<open>order.hpp\<close>, \<open>trade.hpp\<close>, \<open>events.hpp\<close>, \<open>command.hpp\<close>. Integers
    are words of the C++ width; an enum is its byte, since the decoders cast unchecked bytes.
  \<^item> \<open>Book_Spec\<close>, \<open>Book_Laws\<close>: the contract of an order book: two queues of resting orders in
    price-time priority, with \<open>spec_add\<close>, \<open>spec_cancel\<close>, \<open>spec_modify\<close>; the locale
    \<open>book_refinement\<close> states what an implementation owes it.
  \<^item> \<open>Price_Levels\<close>, \<open>Naive_Book\<close>, \<open>Book_Properties\<close>: \<open>naive/order_book.hpp\<close> and
    \<open>naive/order_book.cpp\<close>, every operation; its refinement of the contract (the
    \<open>interpretation naive\<close>) and the properties of matching, resting, cancelling and modifying.
  \<^item> \<open>Object_Pool\<close>: \<open>object_pool.hpp\<close>, slots as a union of object and free-list link, with the
    locale \<open>object_store\<close> as its contract.
  \<^item> \<open>Fast_Level\<close>, \<open>Fast_Book\<close>, \<open>Fast_Refine\<close>, \<open>Fast_Properties\<close>: \<open>fast/order_book.hpp\<close> and
    \<open>fast/order_book.cpp\<close>, an intrusive list of pool nodes per price level; pointers are slot
    numbers. It refines the same contract as long as the pool has room, hence answers as the
    naive book does.
  \<^item> \<open>Matching_Engine\<close>, \<open>Engine_Laws\<close>, \<open>Engine_Properties\<close>: \<open>matching_engine.hpp\<close> and
    \<open>matching_engine.cpp\<close>; the refinement of an abstract engine, isolation of the symbols,
    completeness of the book updates, time priority.
  \<^item> \<open>Partitioned_Engine\<close>: \<open>symbol_router.hpp\<close> and \<open>partitioned_engine.hpp\<close>; ownership of symbols
    and independence of the partitions.
  \<^item> \<open>Binary_Codec\<close>, \<open>Protocol\<close>, \<open>Frame_Decoder\<close>: \<open>net/binary_codec.hpp\<close>, \<open>net/protocol.hpp\<close>,
    \<open>net/protocol.cpp\<close>, \<open>net/frame_decoder.hpp\<close>; the locale \<open>codec\<close> of a value on the wire, the
    round trips, truncation, reassembly and memory bounds.
  \<^item> \<open>Journal\<close>: \<open>persistence/journal.hpp\<close> and \<open>persistence/journal.cpp\<close>; complete and torn records.
  \<^item> \<open>Snapshot\<close>: \<open>persistence/snapshot.hpp\<close> and \<open>persistence/snapshot.cpp\<close>; the round trip and
    safety on arbitrary bytes.
  \<^item> \<open>Spsc_Queue\<close>, \<open>Spsc_Threads\<close>, \<open>Spsc_Atomic\<close>: \<open>spsc_queue.hpp\<close> as two functions, with the locale
    \<open>bounded_fifo\<close> as the contract its clients use, as two interleaved threads, and that the
    functions are runs of the threads.
  \<^item> \<open>Queue_Workers\<close>: \<open>persistence/async_journal_writer.hpp\<close> and
    \<open>market_data/market_data_publisher.hpp\<close>, on the contract of the queue; \<open>Publisher_Lifetime\<close> has
    the starts, stops and the destructor of the publisher.
  \<^item> \<open>Event_Types\<close>: the events of the engine are well-formed whatever bytes a command carries.
  \<^item> \<open>Tcp_Socket\<close>: \<open>net/tcp_socket.hpp\<close> and \<open>net/tcp_socket.cpp\<close>, sockets and listeners over a kernel
    that knows the open descriptors; ownership of descriptors and what \<open>SendAll\<close> has sent.
  \<^item> \<open>Gateway_Session\<close>: \<open>net/gateway_session.hpp\<close> and \<open>net/gateway_session.cpp\<close>, on the queue, the
    frame decoder, the protocol and the socket; the two streams of a session and its end.
    \<open>Session_Lifetime\<close> has the shared pointers that own a session and its destructor.
  \<^item> \<open>C_Library\<close>: \<open>atoi\<close>, \<open>atoll\<close> and the conversions of \<open>printf\<close> that the two programs use.
  \<^item> \<open>Send_Order\<close>: \<open>apps/send_order.cpp\<close>, the whole client and the text it prints.
  \<^item> \<open>Tcp_Gateway\<close>: \<open>net/tcp_gateway.hpp\<close>, the accept thread.
  \<^item> \<open>Gateway_Server\<close>, \<open>Server_Invariant\<close>, \<open>Server_Properties\<close>: \<open>apps/gateway_server.cpp\<close>, with
    \<open>server_step\<close> as the interleaving of all its threads; the invariant of that relation, and from
    it the service of every session, recovery after a crash at any moment, and the files that a
    shutdown leaves.
  \<^item> \<open>Fair_Runs\<close>, \<open>Server_Liveness\<close>: infinite runs in which some threads are scheduled again and
    again, the rule of progress for them as the locale \<open>fair_progress\<close>, and its two interpretations
    on the server: queued commands are processed, and a signal ends the server.
  \<^item> this theory: the property of recovery, which spans the snapshot, the journal, the protocol
    and the partitions.

  The properties of the server compose the others: its main thread pops from the sessions of
  \<open>Gateway_Session\<close>, appends to the worker of \<open>Queue_Workers\<close>, dispatches to \<open>Partitioned_Engine\<close> and
  writes the file of \<open>Snapshot\<close>, and \<open>server_reachable_inv\<close> rests on the lemmas of each.

  \<^bold>\<open>Conventions.\<close> An operation whose C++ text would be undefined in some state (a dangling
  pointer or iterator, an index out of range) returns an option with \<open>None\<close> for that case, and
  theorems show that reachable states do not get there. Exceptions and error returns are values
  of a sum type. Loops are recursive functions with a termination proof. The loop over
  pointers that could run forever on a corrupted list (\<open>fast_match_orders\<close>) is a partial function
  into options, and is shown to return on every represented book; so is the registration loop of
  the server (\<open>register_symbols\<close>), which is shown to return except for one number of symbols. No
  fuel is used. Threads are
  inductive step relations: inside the queue one step is one access to shared memory, and a load
  of the other thread's cursor may be stale; for its clients one step is one queue operation,
  which \<open>Spsc_Atomic\<close> justifies. Liveness is stated of functions from time to states, with the
  threads that must be scheduled as a hypothesis; what the others and the operating system do is
  arbitrary, and that such runs exist is a lemma.

  \<^bold>\<open>Parameters.\<close> The operating system's answers (to \<open>open\<close>, \<open>write\<close>, \<open>fsync\<close>, the success of file
  output, and to \<open>socket\<close>, \<open>bind\<close>, \<open>listen\<close>, \<open>accept\<close>, \<open>connect\<close>, \<open>recv\<close>, \<open>send\<close>) are arguments of the
  steps, arbitrary unless a theorem says otherwise. The iteration order of \<open>std::unordered_map\<close> is
  the order of the association list, on which no theorem depends.

  \<^bold>\<open>Not modelled.\<close> A call of the system that blocks is a step that is not taken; that closing a
  descriptor makes a blocked \<open>accept\<close> or \<open>recv\<close> return, on which both \<open>Stop\<close> functions rely, is an
  assumption about the system: the theorem on the shutdown has it in the hypothesis that the
  accept thread is scheduled again. The server's sleeping and printing are left out, and its steps
  end where \<open>main\<close> returns: the destructors that run then are not among them. Those of sockets,
  sessions and the publisher are modelled with their classes; that of \<open>JournalWriter\<close>, which closes
  the descriptor of the journal, is not, since the journal is its file. Allocation failure,
  cache-line placement and timing are left out. \<open>benchmarks/\<close> and \<open>tests/\<close> are not part of the
  program.
\<close>

section \<open>Recovery\<close>

text \<open>
  C1. Recovery reproduces the state. Take a snapshot of a running system, then journal and
  process more commands, and crash at any byte of the journal. Loading the snapshot succeeds,
  reading the journal returns the commands whose records are complete, and dispatching them to
  the loaded system emits, command by command and with the same sequence numbers, the events the
  original system emitted for them, and ends with every partition in the original's state.
\<close>

theorem recovery_reproduces_state:
  assumes "partitioned_reachable n pe" "n < 2 ^ 32" "\<forall>e \<in> set (pe_partitions pe). partition_fits e"
  shows "\<exists>pe' log pe1 pe1'. LoadSnapshot (Some (snapshot_bytes pe)) = Inr pe' \<and>
    ReadJournal (Some (take k (journal_of cmds))) = Inr (complete_records k cmds) \<and>
    partitioned_run (complete_records k cmds) pe = Some (log, pe1) \<and>
    partitioned_run (complete_records k cmds) pe' = Some (log, pe1') \<and>
    (\<forall>i < n. engine_abs (pe_partitions pe1' ! i) = engine_abs (pe_partitions pe1 ! i))"
proof -
  have inv: "partitioned_inv n pe" by (rule partitioned_reachable_inv [OF assms(1)])
  let ?pe' = "restore_partitions 0 (pe_partitions pe) (partitioned_new n)"
  have "same_system n pe ?pe'"
    using restored_system [OF inv partitioned_reachable_pins [OF assms(1)] refl] inv by (simp add: same_system_def)
  from same_system_run [OF this, of "complete_records k cmds"] load_snapshot_bytes [OF inv assms(2,3)] ReadJournal_prefix
  show ?thesis by (auto simp: same_system_def)
qed

theorem recovery_reproduces_state_witness:
  "\<exists>pe' log pe1 pe1'. LoadSnapshot (Some (snapshot_bytes ex_running)) = Inr pe' \<and>
    ReadJournal (Some (take 60 (journal_of [ex_cancel, ex_cancel]))) = Inr [ex_cancel] \<and>
    partitioned_run [ex_cancel] ex_running = Some (log, pe1) \<and> partitioned_run [ex_cancel] pe' = Some (log, pe1')"
proof -
  have "complete_records 60 [ex_cancel, ex_cancel] = [ex_cancel]"
    by (simp add: record_of_def FrameMessage_bytes ex_cancel_def encoders)
  with recovery_reproduces_state [OF ex_running_reachable _ ex_running_fits, of 60 "[ex_cancel, ex_cancel]"] show ?thesis
    by auto
qed

end
